(* ===== verification/Prelude.thy ===== *)
theory Prelude
  imports Main "HOL-Library.Word" "HOL-Library.Monad_Syntax"
begin

unbundle bit_operations_syntax

text \<open>
  The vocabulary every component shares: the machine integers of the source,
  the outcome of running a C routine, checked array accesses, and the word and
  list lemmas the component proofs rest on.
\<close>

type_synonym uint64 = "64 word"
type_synonym uint32 = "32 word"

named_theorems bufstate_simps \<open>how an update of the packed state word acts on its fields\<close>
named_theorems array_simps \<open>checked array accesses that are in range\<close>

subsection \<open>Outcomes\<close>

text \<open>
  The messages the modelled routines pass to \<open>elog(ERROR, ...)\<close>.
\<close>

datatype elog =
    NoUnpinnedBuffersAvailable
  | NoUnpinnedBuffers
  | NoBuffersInSieveQueue
  | NoBuffersInLRUQueue
  | HashOutOfSharedMemory
  | HashOutOfMemory
  | HashFrozen
  | HashCorrupted
  | HashInitFailed
  | SharedMemorySizeOverflows
  | SharedBufferTableCorrupted
  | BadBufferId
  | BufferNotOwned
  | BufferIONotOwned
  | ProcNumberOutOfRange
  | LockNotHeld
  | IncorrectLocalPinCount
  | BufferPinnedInInvalidateBuffer

text \<open>
  The outcome of a routine with a loop. \<open>Done\<close> is a normal return, \<open>Raise\<close> an
  \<open>elog(ERROR)\<close>: both carry the state reached, since shared memory keeps what was
  written before an error. \<open>Spin\<close> is the state in which the fuel of a loop ran out,
  and \<open>Crash\<close> an access outside an array or a failed assertion.
\<close>

datatype ('s, 'a) run = Done 's 'a | Raise 's elog | Spin 's | Crash

text \<open>Sequencing, and the statement that a run does not crash and ends in states of the given kinds.\<close>

definition andThen :: "('s, 'a) run \<Rightarrow> ('s \<Rightarrow> 'a \<Rightarrow> ('s, 'b) run) \<Rightarrow> ('s, 'b) run" where
  "andThen r f = (case r of Done s a \<Rightarrow> f s a | Raise s e \<Rightarrow> Raise s e | Spin s \<Rightarrow> Spin s | Crash \<Rightarrow> Crash)"

definition outcome :: "('s \<Rightarrow> 'a \<Rightarrow> bool) \<Rightarrow> ('s \<Rightarrow> elog \<Rightarrow> bool) \<Rightarrow> ('s \<Rightarrow> bool) \<Rightarrow> ('s, 'a) run \<Rightarrow> bool" where
  "outcome Q X S r \<longleftrightarrow> (case r of Done s a \<Rightarrow> Q s a | Raise s e \<Rightarrow> X s e | Spin s \<Rightarrow> S s | Crash \<Rightarrow> False)"

lemma andThen_simps [simp]:
  "andThen (Done s a) f = f s a" "andThen (Raise s e) f = Raise s e" "andThen (Spin s) f = Spin s" "andThen Crash f = Crash"
  by (simp_all add: andThen_def)

lemma outcome_simps [simp]:
  "outcome Q X S (Done s a) = Q s a" "outcome Q X S (Raise s e) = X s e" "outcome Q X S (Spin s) = S s" "\<not> outcome Q X S Crash"
  by (simp_all add: outcome_def)

lemma outcome_andThen:
  assumes "outcome Q' X' S' r" "\<And>s a. Q' s a \<Longrightarrow> outcome Q X S (f s a)" "\<And>s e. X' s e \<Longrightarrow> X s e" "\<And>s. S' s \<Longrightarrow> S s"
  shows "outcome Q X S (andThen r f)"
  using assms by (cases r) auto

lemma outcome_mono:
  "outcome Q' X' S' r \<Longrightarrow> (\<And>s a. Q' s a \<Longrightarrow> Q s a) \<Longrightarrow> (\<And>s e. X' s e \<Longrightarrow> X s e) \<Longrightarrow> (\<And>s. S' s \<Longrightarrow> S s) \<Longrightarrow> outcome Q X S r"
  by (cases r) auto

lemma outcome_Done: "outcome Q X S r \<Longrightarrow> r = Done s a \<Longrightarrow> Q s a"
  by simp

subsection \<open>Checked array accesses\<close>

text \<open>
  A C array of \<open>n\<close> elements is a function together with its bound; an access outside
  the bound is the failure of the option monad.
\<close>

definition arr_get :: "nat \<Rightarrow> (nat \<Rightarrow> 'a) \<Rightarrow> nat \<Rightarrow> 'a option" where
  "arr_get n a i = (if i < n then Some (a i) else None)"

definition arr_set :: "nat \<Rightarrow> (nat \<Rightarrow> 'a) \<Rightarrow> nat \<Rightarrow> 'a \<Rightarrow> (nat \<Rightarrow> 'a) option" where
  "arr_set n a i v = (if i < n then Some (a(i := v)) else None)"

lemma arr_get_in_range [simp, array_simps]: "i < n \<Longrightarrow> arr_get n a i = Some (a i)"
  by (simp add: arr_get_def)

lemma arr_set_in_range [simp, array_simps]: "i < n \<Longrightarrow> arr_set n a i v = Some (a(i := v))"
  by (simp add: arr_set_def)

subsection \<open>Loops over index ranges\<close>

primrec foldM :: "('a \<Rightarrow> 's \<Rightarrow> 's option) \<Rightarrow> 'a list \<Rightarrow> 's \<Rightarrow> 's option" where
  "foldM f [] s = Some s"
| "foldM f (x # xs) s = do { s' \<leftarrow> f x s; foldM f xs s' }"

lemma foldM_append: "foldM f (xs @ ys) s = do { s' \<leftarrow> foldM f xs s; foldM f ys s' }"
  by (induction xs arbitrary: s) (auto split: bind_split)

lemma foldM_upto:
  assumes "I 0 s" "\<And>i s. i < n \<Longrightarrow> I i s \<Longrightarrow> \<exists>s'. f i s = Some s' \<and> I (Suc i) s'"
  obtains s' where "foldM f [0..<n] s = Some s'" "I n s'"
proof -
  have "\<exists>s'. foldM f [0..<k] s = Some s' \<and> I k s'" if "k \<le> n" for k
    using that
  proof (induction k)
    case (Suc k)
    then obtain s1 where s1: "foldM f [0..<k] s = Some s1" "I k s1" by auto
    from assms(2) [OF _ s1(2)] Suc.prems s1(1) show ?case
      by (fastforce simp: foldM_append split: bind_split)
  qed (use assms(1) in simp)
  then show ?thesis using that by blast
qed

subsection \<open>Searching a list\<close>

lemma dropWhile_takeWhile_at:
  assumes "h \<notin> set as"
  shows "dropWhile (\<lambda>b. b \<noteq> h) (as @ h # bs) = h # bs" "takeWhile (\<lambda>b. b \<noteq> h) (as @ h # bs) = as"
  using assms by (induction as) auto

lemma length_takeWhile_mem: "x \<in> set xs \<Longrightarrow> \<not> P x \<Longrightarrow> length (takeWhile P xs) < length xs"
  by (induction xs) auto

lemma find_split:
  "find P xs = Some v \<Longrightarrow> P v \<and> (\<exists>ws. xs = takeWhile (\<lambda>x. \<not> P x) xs @ v # ws)"
  by (induction xs) (auto split: if_splits)

lemma find_append: "find P (xs @ ys) = (case find P xs of None \<Rightarrow> find P ys | Some v \<Rightarrow> Some v)"
  by (induction xs) auto

lemma find_Some_mem: "find P xs = Some v \<Longrightarrow> v \<in> set xs \<and> P v"
  by (induction xs) (auto split: if_splits)

lemma find_takeWhile_less: "find P xs = Some v \<Longrightarrow> length (takeWhile (\<lambda>x. \<not> P x) xs) < length xs"
  by (induction xs) (auto split: if_splits)

lemma arg_min_list_split:
  "xs \<noteq> [] \<Longrightarrow> \<exists>as bs. xs = as @ arg_min_list f xs # bs \<and>
    (\<forall>a \<in> set as. f (arg_min_list f xs) < f a) \<and> (\<forall>b \<in> set bs. f (arg_min_list f xs) \<le> f b)"
proof (induction xs rule: arg_min_list.induct [of _ f])
  case (1 f x)
  then show ?case by (intro exI [of _ "[]"]) simp
next
  case (2 f x y zs)
  let ?m = "arg_min_list f (y # zs)"
  obtain as bs where m: "y # zs = as @ ?m # bs" "\<forall>a \<in> set as. f ?m < f a" "\<forall>b \<in> set bs. f ?m \<le> f b"
    using 2 by auto
  show ?case
  proof (cases "f x \<le> f ?m")
    case True
    have "f x \<le> f b" if "b \<in> set (y # zs)" for b
    proof -
      have "b \<in> set as \<or> b = ?m \<or> b \<in> set bs" using that by (subst (asm) m(1)) auto
      with m True show ?thesis by force
    qed
    with True show ?thesis by (intro exI [of _ "[]"] exI [of _ "y # zs"]) (auto simp: Let_def)
  next
    case False
    with m show ?thesis by (intro exI [of _ "x # as"] exI [of _ bs]) (auto simp: Let_def)
  qed
qed simp

lemma filter_split:
  "filter P xs = as @ v # bs \<Longrightarrow> \<exists>zs ws. xs = zs @ v # ws \<and> filter P zs = as \<and> filter P ws = bs \<and> P v"
proof (induction xs arbitrary: as)
  case (Cons x xs)
  show ?case
  proof (cases "as = [] \<and> P x")
    case True
    with Cons.prems show ?thesis by (intro exI [of _ "[]"] exI [of _ xs]) auto
  next
    case False
    then obtain as' where "filter P xs = as' @ v # bs" "as = (if P x then x # as' else as')"
      using Cons.prems by (cases as) (auto split: if_splits)
    with Cons.IH obtain zs ws where "xs = zs @ v # ws" "filter P zs = as'" "filter P ws = bs" "P v" by blast
    with \<open>as = _\<close> show ?thesis by (intro exI [of _ "x # zs"] exI [of _ ws]) auto
  qed
qed simp

end
