(* ===== verification/Buf_Internals.thy ===== *)
theory Buf_Internals
  imports Prelude
begin

unbundle bit_operations_syntax

text \<open>
  \<^verbatim>\<open>src/include/storage/buf_internals.h\<close>: the layout of the 64-bit state word of a
  buffer header, the buffer tag, the atomic operations on the word, and the buffer
  header lock.

  The array \<open>BufferDescriptors[]\<close> is held as a structure of arrays: the state words are
  a function from buffer ids to words, so a \<open>BufferDesc *\<close> is the buffer's id. What the
  other backends do to the state words between two atomic accesses of the modelled
  backend is the parameter \<open>E\<close>: \<open>E t\<close> is applied before the \<open>t\<close>-th access.
\<close>

type_synonym states = "nat \<Rightarrow> uint64"
type_synonym interference = "nat \<Rightarrow> states \<Rightarrow> states"

text \<open>No other backend touches a header word.\<close>

definition quiet :: interference where "quiet = (\<lambda>_ st. st)"

section \<open>The state word\<close>

definition BUF_REFCOUNT_BITS :: nat where "BUF_REFCOUNT_BITS = 18"
definition BUF_USAGECOUNT_BITS :: nat where "BUF_USAGECOUNT_BITS = 4"
definition BUF_FLAG_BITS :: nat where "BUF_FLAG_BITS = 12"
definition BUF_LOCK_BITS :: nat where "BUF_LOCK_BITS = 18 + 2"
definition MAX_BACKENDS_BITS :: nat where "MAX_BACKENDS_BITS = 18"
definition MAX_BACKENDS :: uint64 where "MAX_BACKENDS = push_bit MAX_BACKENDS_BITS 1 - 1"

definition BUF_REFCOUNT_ONE :: uint64 where "BUF_REFCOUNT_ONE = 1"
definition BUF_REFCOUNT_MASK :: uint64 where
  "BUF_REFCOUNT_MASK = push_bit BUF_REFCOUNT_BITS 1 - 1"

definition BUF_USAGECOUNT_SHIFT :: nat where "BUF_USAGECOUNT_SHIFT = BUF_REFCOUNT_BITS"
definition BUF_USAGECOUNT_MASK :: uint64 where
  "BUF_USAGECOUNT_MASK = push_bit BUF_USAGECOUNT_SHIFT (push_bit BUF_USAGECOUNT_BITS 1 - 1)"
definition BUF_USAGECOUNT_ONE :: uint64 where
  "BUF_USAGECOUNT_ONE = push_bit BUF_REFCOUNT_BITS 1"

definition BUF_FLAG_SHIFT :: nat where
  "BUF_FLAG_SHIFT = BUF_REFCOUNT_BITS + BUF_USAGECOUNT_BITS"
definition BUF_FLAG_MASK :: uint64 where
  "BUF_FLAG_MASK = push_bit BUF_FLAG_SHIFT (push_bit BUF_FLAG_BITS 1 - 1)"

definition BM_LOCK_SHIFT :: nat where "BM_LOCK_SHIFT = BUF_FLAG_SHIFT + BUF_FLAG_BITS"
definition BM_LOCK_VAL_SHARED :: uint64 where "BM_LOCK_VAL_SHARED = push_bit BM_LOCK_SHIFT 1"
definition BM_LOCK_VAL_SHARE_EXCLUSIVE :: uint64 where
  "BM_LOCK_VAL_SHARE_EXCLUSIVE = push_bit (BM_LOCK_SHIFT + MAX_BACKENDS_BITS) 1"
definition BM_LOCK_VAL_EXCLUSIVE :: uint64 where
  "BM_LOCK_VAL_EXCLUSIVE = push_bit (BM_LOCK_SHIFT + MAX_BACKENDS_BITS + 1) 1"
definition BM_LOCK_MASK :: uint64 where
  "BM_LOCK_MASK =
     push_bit BM_LOCK_SHIFT MAX_BACKENDS OR BM_LOCK_VAL_SHARE_EXCLUSIVE OR BM_LOCK_VAL_EXCLUSIVE"

definition BUF_STATE_GET_REFCOUNT :: "uint64 \<Rightarrow> uint32" where
  "BUF_STATE_GET_REFCOUNT state = ucast (state AND BUF_REFCOUNT_MASK)"
definition BUF_STATE_GET_USAGECOUNT :: "uint64 \<Rightarrow> uint32" where
  "BUF_STATE_GET_USAGECOUNT state =
     ucast (drop_bit BUF_USAGECOUNT_SHIFT (state AND BUF_USAGECOUNT_MASK))"

definition BUF_DEFINE_FLAG :: "nat \<Rightarrow> uint64" where
  "BUF_DEFINE_FLAG flagno = push_bit (BUF_FLAG_SHIFT + flagno) 1"

definition BM_LOCKED :: uint64 where "BM_LOCKED = BUF_DEFINE_FLAG 0"
definition BM_DIRTY :: uint64 where "BM_DIRTY = BUF_DEFINE_FLAG 1"
definition BM_VALID :: uint64 where "BM_VALID = BUF_DEFINE_FLAG 2"
definition BM_TAG_VALID :: uint64 where "BM_TAG_VALID = BUF_DEFINE_FLAG 3"
definition BM_IO_IN_PROGRESS :: uint64 where "BM_IO_IN_PROGRESS = BUF_DEFINE_FLAG 4"
definition BM_IO_ERROR :: uint64 where "BM_IO_ERROR = BUF_DEFINE_FLAG 5"
definition BM_JUST_DIRTIED :: uint64 where "BM_JUST_DIRTIED = BUF_DEFINE_FLAG 6"
definition BM_PIN_COUNT_WAITER :: uint64 where "BM_PIN_COUNT_WAITER = BUF_DEFINE_FLAG 7"
definition BM_CHECKPOINT_NEEDED :: uint64 where "BM_CHECKPOINT_NEEDED = BUF_DEFINE_FLAG 8"
definition BM_PERMANENT :: uint64 where "BM_PERMANENT = BUF_DEFINE_FLAG 9"
definition BM_LOCK_HAS_WAITERS :: uint64 where "BM_LOCK_HAS_WAITERS = BUF_DEFINE_FLAG 10"
definition BM_LOCK_WAKE_IN_PROGRESS :: uint64 where
  "BM_LOCK_WAKE_IN_PROGRESS = BUF_DEFINE_FLAG 11"

definition BM_MAX_USAGE_COUNT :: uint32 where "BM_MAX_USAGE_COUNT = 5"

lemmas layout_defs =
  BUF_REFCOUNT_BITS_def BUF_USAGECOUNT_BITS_def BUF_FLAG_BITS_def BUF_LOCK_BITS_def
  MAX_BACKENDS_BITS_def MAX_BACKENDS_def BUF_REFCOUNT_ONE_def BUF_REFCOUNT_MASK_def
  BUF_USAGECOUNT_SHIFT_def BUF_USAGECOUNT_MASK_def BUF_USAGECOUNT_ONE_def
  BUF_FLAG_SHIFT_def BUF_FLAG_MASK_def BM_LOCK_SHIFT_def BM_LOCK_VAL_SHARED_def
  BM_LOCK_VAL_SHARE_EXCLUSIVE_def BM_LOCK_VAL_EXCLUSIVE_def BM_LOCK_MASK_def
  BUF_DEFINE_FLAG_def

lemmas flag_defs =
  BM_LOCKED_def BM_DIRTY_def BM_VALID_def BM_TAG_VALID_def BM_IO_IN_PROGRESS_def
  BM_IO_ERROR_def BM_JUST_DIRTIED_def BM_PIN_COUNT_WAITER_def BM_CHECKPOINT_NEEDED_def
  BM_PERMANENT_def BM_LOCK_HAS_WAITERS_def BM_LOCK_WAKE_IN_PROGRESS_def

lemma refcount_mask: "BUF_REFCOUNT_MASK = mask 18"
  by (simp add: layout_defs mask_eq_exp_minus_1)

lemma usagecount_mask: "BUF_USAGECOUNT_MASK = push_bit 18 (mask 4)"
  by (simp add: layout_defs mask_eq_exp_minus_1)

lemma flag_mask: "BUF_FLAG_MASK = push_bit 22 (mask 12)"
  by (simp add: layout_defs mask_eq_exp_minus_1)

text \<open>The two counters as numbers: the low 18 bits, and the 4 bits above them.\<close>

lemma unat_refcount: "unat (BUF_STATE_GET_REFCOUNT s) = unat s mod 2 ^ 18"
proof -
  have "unat (BUF_STATE_GET_REFCOUNT s) = unat (take_bit 18 s)"
    unfolding BUF_STATE_GET_REFCOUNT_def refcount_mask take_bit_eq_mask [symmetric]
    by (simp add: unsigned_ucast_eq unsigned_take_bit_eq)
  also have "\<dots> = take_bit 18 (unat s)" by (rule unsigned_take_bit_eq)
  finally show ?thesis by (simp add: take_bit_eq_mod)
qed

lemma unat_usagecount: "unat (BUF_STATE_GET_USAGECOUNT s) = unat s div 2 ^ 18 mod 16"
proof -
  have *: "drop_bit 18 (s AND push_bit 18 (mask 4)) = take_bit 4 (drop_bit 18 s)"
    by (rule bit_eqI) (auto simp: bit_simps)
  have "unat (BUF_STATE_GET_USAGECOUNT s) = unat (take_bit 4 (drop_bit 18 s))"
    unfolding BUF_STATE_GET_USAGECOUNT_def usagecount_mask BUF_USAGECOUNT_SHIFT_def
      BUF_REFCOUNT_BITS_def *
    by (simp add: unsigned_ucast_eq unsigned_take_bit_eq)
  also have "\<dots> = take_bit 4 (drop_bit 18 (unat s))"
    by (simp only: unsigned_take_bit_eq unat_drop_bit_eq)
  finally show ?thesis by (simp add: take_bit_eq_mod drop_bit_eq_div)
qed

text \<open>
  A flag test of the source, \<open>state & BM_X\<close>, reads one bit of the word.
\<close>

lemma and_flag_eq_0 [simp]: "s AND BUF_DEFINE_FLAG n = 0 \<longleftrightarrow> \<not> bit s (22 + n)"
  by (simp add: layout_defs and_exp_eq_0_iff_not_bit)

lemma flag_tests [simp]:
  "s AND BM_LOCKED = 0 \<longleftrightarrow> \<not> bit s 22"
  "s AND BM_DIRTY = 0 \<longleftrightarrow> \<not> bit s 23"
  "s AND BM_VALID = 0 \<longleftrightarrow> \<not> bit s 24"
  "s AND BM_TAG_VALID = 0 \<longleftrightarrow> \<not> bit s 25"
  "s AND BM_IO_IN_PROGRESS = 0 \<longleftrightarrow> \<not> bit s 26"
  "s AND BM_IO_ERROR = 0 \<longleftrightarrow> \<not> bit s 27"
  "s AND BM_JUST_DIRTIED = 0 \<longleftrightarrow> \<not> bit s 28"
  "s AND BM_PIN_COUNT_WAITER = 0 \<longleftrightarrow> \<not> bit s 29"
  "s AND BM_CHECKPOINT_NEEDED = 0 \<longleftrightarrow> \<not> bit s 30"
  "s AND BM_PERMANENT = 0 \<longleftrightarrow> \<not> bit s 31"
  "s AND BM_LOCK_HAS_WAITERS = 0 \<longleftrightarrow> \<not> bit s 32"
  "s AND BM_LOCK_WAKE_IN_PROGRESS = 0 \<longleftrightarrow> \<not> bit s 33"
  by (simp_all add: flag_defs)

lemma bit_flag: "bit (BUF_DEFINE_FLAG n) k \<longleftrightarrow> k = 22 + n \<and> n < 42"
  by (auto simp: layout_defs bit_exp_iff)

lemma flag_bits:
  "bit BM_LOCKED k \<longleftrightarrow> k = 22" "bit BM_DIRTY k \<longleftrightarrow> k = 23" "bit BM_VALID k \<longleftrightarrow> k = 24"
  "bit BM_TAG_VALID k \<longleftrightarrow> k = 25" "bit BM_IO_IN_PROGRESS k \<longleftrightarrow> k = 26"
  "bit BM_IO_ERROR k \<longleftrightarrow> k = 27" "bit BM_JUST_DIRTIED k \<longleftrightarrow> k = 28"
  "bit BM_PIN_COUNT_WAITER k \<longleftrightarrow> k = 29" "bit BM_CHECKPOINT_NEEDED k \<longleftrightarrow> k = 30"
  "bit BM_PERMANENT k \<longleftrightarrow> k = 31" "bit BM_LOCK_HAS_WAITERS k \<longleftrightarrow> k = 32"
  "bit BM_LOCK_WAKE_IN_PROGRESS k \<longleftrightarrow> k = 33"
  by (simp_all add: flag_defs bit_flag)

text \<open>
  Adding one pin touches nothing above the reference count as long as the count does
  not overflow its 18 bits.
\<close>

lemma unat_plus_pin:
  fixes s :: uint64
  assumes "unat s mod 2 ^ 18 + 1 < 2 ^ 18"
  shows "unat (s + 1) = unat s + 1"
proof -
  have "unat s < 2 ^ 64" using unsigned_less [of s] by simp
  moreover from assms have "unat s \<noteq> 2 ^ 64 - 1" by auto
  ultimately have "unat s + 1 < 2 ^ 64" by simp
  then show ?thesis by (simp add: unat_word_ariths)
qed

lemma nat_pin_div_mod:
  fixes n :: nat
  assumes "n mod 2 ^ 18 + 1 < 2 ^ 18"
  shows "(n + 1) div 2 ^ 18 = n div 2 ^ 18" "(n + 1) mod 2 ^ 18 = n mod 2 ^ 18 + 1"
proof -
  show "(n + 1) div 2 ^ 18 = n div 2 ^ 18" using assms by (simp add: div_Suc mod_Suc)
  show "(n + 1) mod 2 ^ 18 = n mod 2 ^ 18 + 1" using assms by (simp add: mod_Suc)
qed

lemma bit_above_eqI:
  fixes v w :: uint64
  assumes "unat v div 2 ^ n = unat w div 2 ^ n" "n \<le> k"
  shows "bit v k = bit w k"
proof -
  have "drop_bit n v = drop_bit n w"
    unfolding word_unat_eq_iff unat_drop_bit_eq using assms(1) by (simp only: drop_bit_eq_div)
  then have "bit (drop_bit n v) (k - n) = bit (drop_bit n w) (k - n)" by simp
  with assms(2) show ?thesis by (simp add: bit_drop_bit_eq)
qed

lemma pin_refcount [bufstate_simps]:
  assumes "unat (BUF_STATE_GET_REFCOUNT s) + 1 < 2 ^ 18"
  shows "unat (BUF_STATE_GET_REFCOUNT (s + BUF_REFCOUNT_ONE)) =
    unat (BUF_STATE_GET_REFCOUNT s) + 1"
  using assms unat_plus_pin nat_pin_div_mod by (simp add: unat_refcount BUF_REFCOUNT_ONE_def)

lemma pin_usagecount [bufstate_simps]:
  assumes "unat (BUF_STATE_GET_REFCOUNT s) + 1 < 2 ^ 18"
  shows "BUF_STATE_GET_USAGECOUNT (s + BUF_REFCOUNT_ONE) = BUF_STATE_GET_USAGECOUNT s"
  using assms unat_plus_pin [of s] nat_pin_div_mod [of "unat s"]
  by (simp add: unat_refcount unat_usagecount BUF_REFCOUNT_ONE_def word_unat_eq_iff)

lemma pin_flags [bufstate_simps]:
  assumes "unat (BUF_STATE_GET_REFCOUNT s) + 1 < 2 ^ 18" "18 \<le> k"
  shows "bit (s + BUF_REFCOUNT_ONE) k = bit s k"
  using assms unat_plus_pin [of s] nat_pin_div_mod [of "unat s"]
  by (intro bit_above_eqI [of _ 18]) (simp_all add: unat_refcount BUF_REFCOUNT_ONE_def)

text \<open>The two ways the policies lower a usage count: by one, and to zero.\<close>

lemma div22: "m div 2 ^ 22 = m div 2 ^ 18 div (16::nat)"
  unfolding div_mult2_eq [symmetric] by simp
lemma nat_unuse_div_mod:
  fixes n :: nat
  assumes "n div 2 ^ 18 mod 16 \<noteq> 0"
  shows "2 ^ 18 \<le> n" "(n - 2 ^ 18) mod 2 ^ 18 = n mod 2 ^ 18"
    "(n - 2 ^ 18) div 2 ^ 18 mod 16 = n div 2 ^ 18 mod 16 - 1"
    "(n - 2 ^ 18) div 2 ^ 22 = n div 2 ^ 22"
proof -
  define q where "q = n div 2 ^ 18"
  have nz: "q mod 16 \<noteq> 0" using assms by (simp add: q_def)
  show le: "2 ^ 18 \<le> n"
  proof (rule ccontr)
    assume "\<not> 2 ^ 18 \<le> n"
    then have "q = 0" by (simp add: q_def)
    with nz show False by simp
  qed
  then show "(n - 2 ^ 18) mod 2 ^ 18 = n mod 2 ^ 18" by (rule le_mod_geq [symmetric])
  have q: "(n - 2 ^ 18) div 2 ^ 18 = q - 1"
    using le unfolding q_def by (subst le_div_geq [of "2 ^ 18" n]) simp_all
  obtain p where p: "q = Suc p" using nz by (cases q) auto
  have mod: "(q - 1) mod 16 = q mod 16 - 1" and div: "(q - 1) div 16 = q div 16"
    using nz by (auto simp: p mod_Suc div_Suc split: if_splits)
  show "(n - 2 ^ 18) div 2 ^ 18 mod 16 = n div 2 ^ 18 mod 16 - 1"
    unfolding q mod by (simp only: q_def)
  show "(n - 2 ^ 18) div 2 ^ 22 = n div 2 ^ 22"
    unfolding div22 q div by (simp only: q_def)
qed

lemma usagecount_nonzero:
  "BUF_STATE_GET_USAGECOUNT s \<noteq> 0 \<Longrightarrow> unat s div 2 ^ 18 mod 16 \<noteq> 0"
  unfolding unat_usagecount [symmetric] by (simp add: unat_eq_zero)

lemma unat_minus_usage:
  assumes "BUF_STATE_GET_USAGECOUNT s \<noteq> 0"
  shows "unat (s - BUF_USAGECOUNT_ONE) = unat s - 2 ^ 18"
proof -
  have "2 ^ 18 \<le> unat s" using usagecount_nonzero [OF assms] by (rule nat_unuse_div_mod)
  then have "(2 ^ 18 :: uint64) \<le> s" by (simp add: word_le_nat_alt)
  then show ?thesis by (simp add: layout_defs unat_sub)
qed

lemma unuse_refcount [bufstate_simps]:
  assumes "BUF_STATE_GET_USAGECOUNT s \<noteq> 0"
  shows "BUF_STATE_GET_REFCOUNT (s - BUF_USAGECOUNT_ONE) = BUF_STATE_GET_REFCOUNT s"
  unfolding word_unat_eq_iff unat_refcount unat_minus_usage [OF assms]
  using usagecount_nonzero [OF assms] by (rule nat_unuse_div_mod)

lemma unuse_usagecount [bufstate_simps]:
  assumes "BUF_STATE_GET_USAGECOUNT s \<noteq> 0"
  shows "unat (BUF_STATE_GET_USAGECOUNT (s - BUF_USAGECOUNT_ONE)) =
    unat (BUF_STATE_GET_USAGECOUNT s) - 1"
proof -
  show ?thesis
    unfolding unat_usagecount unat_minus_usage [OF assms]
    using usagecount_nonzero [OF assms] by (rule nat_unuse_div_mod)
qed

lemma unuse_flags [bufstate_simps]:
  assumes "BUF_STATE_GET_USAGECOUNT s \<noteq> 0" "22 \<le> k"
  shows "bit (s - BUF_USAGECOUNT_ONE) k = bit s k"
proof (rule bit_above_eqI [of _ 22])
  show "unat (s - BUF_USAGECOUNT_ONE) div 2 ^ 22 = unat s div 2 ^ 22"
    unfolding unat_minus_usage [OF assms(1)]
    using usagecount_nonzero [OF assms(1)] by (rule nat_unuse_div_mod)
qed (rule assms)

lemma clear_usage_refcount [bufstate_simps]:
  "BUF_STATE_GET_REFCOUNT (s AND NOT BUF_USAGECOUNT_MASK) = BUF_STATE_GET_REFCOUNT s"
proof -
  have "(s AND NOT (push_bit 18 (mask 4))) AND mask 18 = s AND mask 18"
    by (rule bit_eqI) (auto simp: bit_simps)
  then show ?thesis by (simp only: BUF_STATE_GET_REFCOUNT_def usagecount_mask refcount_mask)
qed

lemma clear_usage_usagecount [bufstate_simps]:
  "BUF_STATE_GET_USAGECOUNT (s AND NOT BUF_USAGECOUNT_MASK) = 0"
proof -
  have "(s AND NOT (push_bit 18 (mask 4))) AND push_bit 18 (mask 4) = 0"
    by (rule bit_eqI) (auto simp: bit_simps)
  then show ?thesis by (simp only: BUF_STATE_GET_USAGECOUNT_def usagecount_mask drop_bit_of_0 unsigned_0)
qed

lemma clear_usage_flags [bufstate_simps]:
  "22 \<le> k \<Longrightarrow> bit (s AND NOT BUF_USAGECOUNT_MASK) k = bit s k"
  unfolding usagecount_mask by (auto simp: bit_simps dest: bit_imp_le_length)

section \<open>Buffer tags\<close>

type_synonym Oid = uint32
type_synonym RelFileNumber = uint32
type_synonym BlockNumber = uint32
type_synonym ForkNumber = int
type_synonym Buffer = int

definition InvalidOid :: Oid where "InvalidOid = 0"
definition InvalidForkNumber :: ForkNumber where "InvalidForkNumber = -1"
definition MAIN_FORKNUM :: ForkNumber where "MAIN_FORKNUM = 0"
definition INIT_FORKNUM :: ForkNumber where "INIT_FORKNUM = 3"
definition InvalidBlockNumber :: BlockNumber where "InvalidBlockNumber = 0xFFFFFFFF"
definition InvalidBuffer :: Buffer where "InvalidBuffer = 0"
definition NUM_BUFFER_PARTITIONS :: uint32 where "NUM_BUFFER_PARTITIONS = 128"

record RelFileLocator =
  loc_spcOid :: Oid
  loc_dbOid :: Oid
  loc_relNumber :: RelFileNumber

record BufferTag =
  spcOid :: Oid
  dbOid :: Oid
  relNumber :: RelFileNumber
  forkNum :: ForkNumber
  blockNum :: BlockNumber

definition BufTagGetRelFileLocator :: "BufferTag \<Rightarrow> RelFileLocator" where
  "BufTagGetRelFileLocator tag =
     \<lparr>loc_spcOid = spcOid tag, loc_dbOid = dbOid tag, loc_relNumber = relNumber tag\<rparr>"

definition BufTagSetRelForkDetails :: "BufferTag \<Rightarrow> RelFileNumber \<Rightarrow> ForkNumber \<Rightarrow> BufferTag" where
  "BufTagSetRelForkDetails tag relnumber forknum = tag\<lparr>relNumber := relnumber, forkNum := forknum\<rparr>"

definition ClearBufferTag :: "BufferTag \<Rightarrow> BufferTag" where
  "ClearBufferTag tag =
     (BufTagSetRelForkDetails (tag\<lparr>spcOid := InvalidOid, dbOid := InvalidOid\<rparr>)
        InvalidOid InvalidForkNumber)\<lparr>blockNum := InvalidBlockNumber\<rparr>"

definition InitBufferTag :: "RelFileLocator \<Rightarrow> ForkNumber \<Rightarrow> BlockNumber \<Rightarrow> BufferTag \<Rightarrow> BufferTag" where
  "InitBufferTag rlocator fork block tag =
     (BufTagSetRelForkDetails
        (tag\<lparr>spcOid := loc_spcOid rlocator, dbOid := loc_dbOid rlocator\<rparr>)
        (loc_relNumber rlocator) fork)\<lparr>blockNum := block\<rparr>"

definition BufferTagsEqual :: "BufferTag \<Rightarrow> BufferTag \<Rightarrow> bool" where
  "BufferTagsEqual tag1 tag2 \<longleftrightarrow>
     spcOid tag1 = spcOid tag2 \<and> dbOid tag1 = dbOid tag2 \<and> relNumber tag1 = relNumber tag2 \<and>
     blockNum tag1 = blockNum tag2 \<and> forkNum tag1 = forkNum tag2"

definition BufTagMatchesRelFileLocator :: "BufferTag \<Rightarrow> RelFileLocator \<Rightarrow> bool" where
  "BufTagMatchesRelFileLocator tag rlocator \<longleftrightarrow>
     spcOid tag = loc_spcOid rlocator \<and> dbOid tag = loc_dbOid rlocator \<and>
     relNumber tag = loc_relNumber rlocator"

definition BufTableHashPartition :: "uint32 \<Rightarrow> uint32" where
  "BufTableHashPartition hashcode = hashcode mod NUM_BUFFER_PARTITIONS"

definition BufferDescriptorGetBuffer :: "nat \<Rightarrow> Buffer" where
  "BufferDescriptorGetBuffer buf_id = int buf_id + 1"

text \<open>The source compares tags field by field: that is equality of the records.\<close>

lemma BufferTagsEqual_iff [simp]: "BufferTagsEqual t1 t2 \<longleftrightarrow> t1 = t2"
  by (cases t1, cases t2) (auto simp: BufferTagsEqual_def)

lemma InitBufferTag_matches:
  "BufTagMatchesRelFileLocator (InitBufferTag r f b tag) r"
  "BufTagGetRelFileLocator (InitBufferTag r f b tag) = r"
  "forkNum (InitBufferTag r f b tag) = f" "blockNum (InitBufferTag r f b tag) = b"
  by (simp_all add: InitBufferTag_def BufTagMatchesRelFileLocator_def BufTagSetRelForkDetails_def
      BufTagGetRelFileLocator_def)

section \<open>Atomic operations on the state words\<close>

text \<open>
  A compare-and-exchange yields whether it stored, the value it found (which C writes
  back into \<open>*expected\<close>), and the new state words.
\<close>

definition pg_atomic_compare_exchange_u64 ::
    "states \<Rightarrow> nat \<Rightarrow> uint64 \<Rightarrow> uint64 \<Rightarrow> bool \<times> uint64 \<times> states" where
  "pg_atomic_compare_exchange_u64 st b expected newval =
     (if st b = expected then (True, expected, st(b := newval)) else (False, st b, st))"

definition pg_atomic_fetch_or_u64 :: "states \<Rightarrow> nat \<Rightarrow> uint64 \<Rightarrow> uint64 \<times> states" where
  "pg_atomic_fetch_or_u64 st b or_bits = (st b, st(b := st b OR or_bits))"

definition pg_atomic_fetch_sub_u64 :: "states \<Rightarrow> nat \<Rightarrow> uint64 \<Rightarrow> uint64 \<times> states" where
  "pg_atomic_fetch_sub_u64 st b sub_bits = (st b, st(b := st b - sub_bits))"

section \<open>The buffer header lock\<close>

text \<open>
  \<^verbatim>\<open>bufmgr.c\<close>: \<open>WaitBufHdrUnlocked\<close> and \<open>LockBufHdr\<close>; \<^verbatim>\<open>buf_internals.h\<close>: \<open>UnlockBufHdr\<close>
  and \<open>UnlockBufHdrExt\<close>. The state of a run is the access counter and the state words.
\<close>

fun WaitBufHdrUnlocked ::
    "nat \<Rightarrow> interference \<Rightarrow> nat \<Rightarrow> states \<Rightarrow> nat \<Rightarrow> (nat \<times> states, uint64) run" where
  "WaitBufHdrUnlocked 0 E t st b = Spin (t, st)"
| "WaitBufHdrUnlocked (Suc fuel) E t st b =
     (let st1 = E t st; buf_state = st1 b
      in if buf_state AND BM_LOCKED \<noteq> 0 then WaitBufHdrUnlocked fuel E (Suc t) st1 b
         else Done (Suc t, st1) buf_state)"

fun LockBufHdr ::
    "nat \<Rightarrow> interference \<Rightarrow> nat \<Rightarrow> states \<Rightarrow> nat \<Rightarrow> (nat \<times> states, uint64) run" where
  "LockBufHdr 0 E t st b = Spin (t, st)"
| "LockBufHdr (Suc fuel) E t st b =
     (let (old_buf_state, st1) = pg_atomic_fetch_or_u64 (E t st) b BM_LOCKED
      in if old_buf_state AND BM_LOCKED = 0 then Done (Suc t, st1) (old_buf_state OR BM_LOCKED)
         else (case WaitBufHdrUnlocked fuel E (Suc t) st1 b of
                 Done (t', st2) _ \<Rightarrow> LockBufHdr fuel E t' st2 b
               | Raise s e \<Rightarrow> Raise s e
               | Spin s \<Rightarrow> Spin s
               | Crash \<Rightarrow> Crash))"

definition UnlockBufHdr :: "interference \<Rightarrow> nat \<Rightarrow> states \<Rightarrow> nat \<Rightarrow> nat \<times> states" where
  "UnlockBufHdr E t st b = (Suc t, snd (pg_atomic_fetch_sub_u64 (E t st) b BM_LOCKED))"

definition unlock_bits :: "uint64 \<Rightarrow> uint64 \<Rightarrow> int \<Rightarrow> uint64 \<Rightarrow> uint64" where
  "unlock_bits set_bits unset_bits refcount_change old =
     (let buf_state = ((old OR set_bits) AND NOT unset_bits) AND NOT BM_LOCKED
      in if refcount_change \<noteq> 0 then buf_state + BUF_REFCOUNT_ONE * word_of_int refcount_change
         else buf_state)"

fun UnlockBufHdrExt ::
    "nat \<Rightarrow> interference \<Rightarrow> nat \<Rightarrow> states \<Rightarrow> nat \<Rightarrow> uint64 \<Rightarrow> uint64 \<Rightarrow> uint64 \<Rightarrow> int
     \<Rightarrow> (nat \<times> states, uint64) run" where
  "UnlockBufHdrExt 0 E t st b old_buf_state set_bits unset_bits refcount_change = Spin (t, st)"
| "UnlockBufHdrExt (Suc fuel) E t st b old_buf_state set_bits unset_bits refcount_change =
     (let (success, found, st1) = pg_atomic_compare_exchange_u64 (E t st) b old_buf_state
            (unlock_bits set_bits unset_bits refcount_change old_buf_state)
      in if success then Done (Suc t, st1) old_buf_state
         else UnlockBufHdrExt fuel E (Suc t) st1 b found set_bits unset_bits refcount_change)"

lemma WaitBufHdrUnlocked_unlocked:
  "WaitBufHdrUnlocked n E t st b = Done (t', st') s \<Longrightarrow> s = st' b \<and> \<not> bit (st' b) 22"
  by (induction n E t st b rule: WaitBufHdrUnlocked.induct) (auto simp: Let_def split: if_splits)

lemma WaitBufHdrUnlocked_outcome:
  "WaitBufHdrUnlocked n E t st b \<noteq> Crash" "WaitBufHdrUnlocked n E t st b \<noteq> Raise s e"
  by (induction n E t st b rule: WaitBufHdrUnlocked.induct) (auto simp: Let_def)

lemma WaitBufHdrUnlocked_quiet [simp]:
  "\<not> bit (E t st b) 22 \<Longrightarrow> WaitBufHdrUnlocked (Suc n) E t st b = Done (Suc t, E t st) (E t st b)"
  by (simp add: Let_def)

text \<open>
  The header lock under arbitrary interference: the routine that returns is the one that
  turned the lock bit from 0 to 1, and the unlocking compare-and-exchange is one atomic
  update of whatever word it found.
\<close>

lemma LockBufHdr_acquires:
  "LockBufHdr n E t st b = Done (t', st') s \<Longrightarrow>
    \<exists>st0. \<not> bit (E (t' - 1) st0 b) 22 \<and>
      st' = (E (t' - 1) st0)(b := E (t' - 1) st0 b OR BM_LOCKED) \<and> s = st' b"
proof (induction n E t st b rule: LockBufHdr.induct)
  case (2 fuel E t st b)
  show ?case
  proof (cases "bit (E t st b) 22")
    case False
    with "2.prems" show ?thesis
      by (intro exI [of _ st]) (auto simp: pg_atomic_fetch_or_u64_def)
  next
    case True
    with "2.prems" obtain t2 st2 s2 where
      "WaitBufHdrUnlocked fuel E (Suc t) ((E t st)(b := E t st b OR BM_LOCKED)) b = Done (t2, st2) s2"
      "LockBufHdr fuel E t2 st2 b = Done (t', st') s"
      by (auto simp: pg_atomic_fetch_or_u64_def split: run.splits prod.splits)
    with True show ?thesis
      using "2.IH" by (simp add: pg_atomic_fetch_or_u64_def)
  qed
qed simp

lemma BM_LOCKED_bit: "bit BM_LOCKED k \<longleftrightarrow> k = 22"
  by (rule flag_bits)

lemma or_BM_LOCKED: "\<not> bit s 22 \<Longrightarrow> s OR BM_LOCKED = s + BM_LOCKED"
  by (subst disjunctive_add) (auto simp: BM_LOCKED_bit)

lemma UnlockBufHdrExt_atomic:
  "UnlockBufHdrExt n E t st b old sb ub rc = Done (t', st') s \<Longrightarrow>
    \<exists>st0. st' = (E (t' - 1) st0)(b := unlock_bits sb ub rc (E (t' - 1) st0 b)) \<and>
      s = E (t' - 1) st0 b"
proof (induction n E t st b old sb ub rc rule: UnlockBufHdrExt.induct)
  case (2 fuel E t st b old sb ub rc)
  show ?case
  proof (cases "E t st b = old")
    case True
    with "2.prems" show ?thesis
      by (intro exI [of _ st]) (auto simp: pg_atomic_compare_exchange_u64_def)
  next
    case False
    with "2.prems" show ?thesis
      using "2.IH" by (simp add: pg_atomic_compare_exchange_u64_def)
  qed
qed simp

lemma UnlockBufHdrExt_quiet:
  assumes "E (Suc t) (E t st) b = E t st b"
  shows "\<exists>t' st'. UnlockBufHdrExt (Suc (Suc n)) E t st b old sb ub rc = Done (t', st') (E t st b) \<and>
    st' b = unlock_bits sb ub rc (E t st b)"
  using assms by (auto simp: pg_atomic_compare_exchange_u64_def)

lemma unlock_bits_unlocked [simp]:
  "\<not> bit (unlock_bits sb ub 0 s) 22"
  by (simp add: unlock_bits_def bit_simps BM_LOCKED_bit)

text \<open>\<open>lock_free_from T E b\<close>: from access \<open>T\<close> on the other processes leave the lock free.\<close>

definition lock_free_from :: "nat \<Rightarrow> interference \<Rightarrow> nat \<Rightarrow> bool" where
  "lock_free_from T E b \<longleftrightarrow> (\<forall>t st. T \<le> t \<longrightarrow> \<not> bit (E t st b) 22)"

lemma WaitBufHdrUnlocked_ends:
  assumes "lock_free_from T E b" "T - t < fuel"
  shows "\<exists>t' st'. WaitBufHdrUnlocked fuel E t st b = Done (t', st') (st' b) \<and> t < t'"
  using assms(2)
proof (induction fuel arbitrary: t st)
  case (Suc fuel)
  show ?case
  proof (cases "bit (E t st b) 22")
    case True
    then have "t < T" using assms(1) by (meson linorder_not_less lock_free_from_def)
    then have "T - Suc t < fuel" using Suc.prems by simp
    from Suc.IH [OF this, of "E t st"] True show ?thesis by (auto simp: Let_def)
  qed (simp add: Let_def)
qed simp

lemma LockBufHdr_ends:
  assumes "lock_free_from T E b" "T - t < fuel"
  shows "\<exists>t' st'. LockBufHdr fuel E t st b = Done (t', st') (st' b)"
  using assms(2)
proof (induction fuel arbitrary: t st)
  case (Suc fuel)
  show ?case
  proof (cases "bit (E t st b) 22")
    case True
    then have "t < T" using assms(1) by (meson linorder_not_less lock_free_from_def)
    then have less: "T - Suc t < fuel" using Suc.prems by simp
    let ?st = "(E t st)(b := E t st b OR BM_LOCKED)"
    obtain t2 st2 where w: "WaitBufHdrUnlocked fuel E (Suc t) ?st b = Done (t2, st2) (st2 b)" "Suc t < t2"
      using WaitBufHdrUnlocked_ends [OF assms(1) less, of ?st] by auto
    then have "T - t2 < fuel" using less by simp
    from Suc.IH [OF this, of st2] True w(1) show ?thesis
      by (auto simp: pg_atomic_fetch_or_u64_def)
  qed (simp add: pg_atomic_fetch_or_u64_def)
qed simp

lemma minus_BM_LOCKED: "bit s 22 \<Longrightarrow> s - BM_LOCKED = s AND NOT BM_LOCKED"
proof -
  assume b: "bit s 22"
  have "(s AND NOT BM_LOCKED) OR BM_LOCKED = (s AND NOT BM_LOCKED) + BM_LOCKED"
    by (rule or_BM_LOCKED) (simp add: bit_simps flag_bits)
  moreover have "(s AND NOT BM_LOCKED) OR BM_LOCKED = s"
    using b by (intro bit_eqI) (auto simp: bit_simps flag_bits)
  ultimately show ?thesis by (metis add_diff_cancel_right')
qed

lemma lock_unlock: "\<not> bit s 22 \<Longrightarrow> (s OR BM_LOCKED) - BM_LOCKED = s"
  by (simp add: or_BM_LOCKED)

section \<open>Properties\<close>

text \<open>
  C25: Arithmetic on the state word acts on one field only. Adding one to the word pins the
  buffer: below the field's limit the reference count grows by one and neither the usage
  count nor any flag or lock bit changes. Subtracting one unit of a nonzero usage count
  lowers it by one and leaves the reference count, the flags and the lock alone.
\<close>
theorem buf_state_fields:
  assumes "unat (BUF_STATE_GET_REFCOUNT s) + 1 < 2 ^ 18"
    and "BUF_STATE_GET_USAGECOUNT u \<noteq> 0"
  shows "unat (BUF_STATE_GET_REFCOUNT (s + BUF_REFCOUNT_ONE)) = unat (BUF_STATE_GET_REFCOUNT s) + 1 \<and>
    BUF_STATE_GET_USAGECOUNT (s + BUF_REFCOUNT_ONE) = BUF_STATE_GET_USAGECOUNT s \<and>
    (\<forall>k \<ge> 18. bit (s + BUF_REFCOUNT_ONE) k = bit s k) \<and>
    unat (BUF_STATE_GET_USAGECOUNT (u - BUF_USAGECOUNT_ONE)) = unat (BUF_STATE_GET_USAGECOUNT u) - 1 \<and>
    BUF_STATE_GET_REFCOUNT (u - BUF_USAGECOUNT_ONE) = BUF_STATE_GET_REFCOUNT u \<and>
    (\<forall>k \<ge> 22. bit (u - BUF_USAGECOUNT_ONE) k = bit u k)"
  using assms pin_refcount pin_usagecount pin_flags unuse_refcount unuse_usagecount unuse_flags
  by blast

theorem buf_state_fields_witness:
  "unat (BUF_STATE_GET_REFCOUNT (0x1400003 + BUF_REFCOUNT_ONE)) = 4 \<and>
   unat (BUF_STATE_GET_USAGECOUNT (0x1480003 - BUF_USAGECOUNT_ONE)) = 1"
  using buf_state_fields [of "0x1400003" "0x1480003"]
  by (simp add: unat_refcount unat_usagecount word_unat_eq_iff)

text \<open>
  C24: The header spinlock. Whatever other processes do to the header words, provided they
  leave this buffer's lock free from some access \<open>T\<close> on, the acquisition returns; the word
  it returns is the one in memory, its last access found the lock bit clear and set it while
  changing nothing else, and releasing the lock gives back exactly the word found.
\<close>
theorem LockBufHdr_mutex:
  assumes "lock_free_from T E b" "T - t < fuel"
  shows "\<exists>t' st' st0. LockBufHdr fuel E t st b = Done (t', st') (st' b) \<and>
    \<not> bit (E (t' - 1) st0 b) 22 \<and>
    st' = (E (t' - 1) st0)(b := E (t' - 1) st0 b OR BM_LOCKED) \<and>
    UnlockBufHdr quiet t' st' b = (Suc t', E (t' - 1) st0)"
proof -
  obtain t' st' where d: "LockBufHdr fuel E t st b = Done (t', st') (st' b)"
    using LockBufHdr_ends [OF assms] by blast
  then obtain st0 where st0: "\<not> bit (E (t' - 1) st0 b) 22"
      "st' = (E (t' - 1) st0)(b := E (t' - 1) st0 b OR BM_LOCKED)"
    using LockBufHdr_acquires by blast
  then have "UnlockBufHdr quiet t' st' b = (Suc t', E (t' - 1) st0)"
    by (simp add: UnlockBufHdr_def quiet_def pg_atomic_fetch_sub_u64_def lock_unlock)
  with d st0 show ?thesis by blast
qed

theorem LockBufHdr_mutex_witness:
  "\<exists>t' st' st0. LockBufHdr 3 (\<lambda>t st. if t < 2 then st else st(0 := 1)) 0 (\<lambda>_. BM_LOCKED) 0 = Done (t', st') (st' 0) \<and>
    UnlockBufHdr quiet t' st' 0 = (Suc t', st0)"
  using LockBufHdr_mutex [of 2 "\<lambda>t st. if t < 2 then st else st(0 := 1)" 0 0 3 "\<lambda>_. BM_LOCKED"]
  by (auto simp: lock_free_from_def bit_1_iff)

end
