(* ===== verification/Private_RefCount.thy ===== *)
theory Private_RefCount
  imports Buf_Internals
begin

text \<open>
  The backend-private reference counts of \<^verbatim>\<open>bufmgr.c\<close>: an array of
  \<open>REFCOUNT_ARRAY_ENTRIES\<close> slots, an overflow hash table, one reserved slot and a
  one-entry lookup cache. The component implements a finite map from buffers to
  \<open>PrivateRefCountData\<close>; \<open>refs\<close> is that map, \<open>prc_inv\<close> the representation invariant.
  The buffers the current resource owner remembers are kept beside it.

  A pointer to a \<open>PrivateRefCountEntry\<close> is an array slot or a hash table key. An
  operation fails (\<open>None\<close>) where the source would index the array out of range. The
  source's assertions are no operations; that they hold is part of the lemmas.
\<close>

datatype BufferLockMode =
  BUFFER_LOCK_UNLOCK | BUFFER_LOCK_SHARE | BUFFER_LOCK_SHARE_EXCLUSIVE | BUFFER_LOCK_EXCLUSIVE

record PrivateRefCountData =
  refcount :: int
  lockmode :: BufferLockMode

record PrivateRefCountEntry =
  buffer :: Buffer
  data :: PrivateRefCountData

datatype refptr = Slot nat | HashKey Buffer

record backend =
  PrivateRefCountArrayKeys :: "nat \<Rightarrow> Buffer"
  PrivateRefCountArray :: "nat \<Rightarrow> PrivateRefCountEntry"
  PrivateRefCountHash :: "Buffer \<rightharpoonup> PrivateRefCountData"
  PrivateRefCountOverflowed :: int
  PrivateRefCountClock :: uint32
  ReservedRefCountSlot :: int
  PrivateRefCountEntryLast :: int
  owned_buffers :: "Buffer list"

definition REFCOUNT_ARRAY_ENTRIES :: nat where "REFCOUNT_ARRAY_ENTRIES = 8"

definition unpinned_data :: PrivateRefCountData where
  "unpinned_data = \<lparr>refcount = 0, lockmode = BUFFER_LOCK_UNLOCK\<rparr>"

definition empty_entry :: PrivateRefCountEntry where
  "empty_entry = \<lparr>buffer = InvalidBuffer, data = unpinned_data\<rparr>"

text \<open>The statically initialised tables, after \<open>InitBufferManagerAccess\<close> created the hash table.\<close>

definition InitPrivateRefCount :: backend where
  "InitPrivateRefCount =
     \<lparr>PrivateRefCountArrayKeys = (\<lambda>_. InvalidBuffer), PrivateRefCountArray = (\<lambda>_. empty_entry),
      PrivateRefCountHash = Map.empty, PrivateRefCountOverflowed = 0, PrivateRefCountClock = 0,
      ReservedRefCountSlot = -1, PrivateRefCountEntryLast = -1, owned_buffers = []\<rparr>"

text \<open>
  The vectorised scans run to the end of the array, so the last matching slot wins.
\<close>

fun scan_keys :: "(nat \<Rightarrow> Buffer) \<Rightarrow> Buffer \<Rightarrow> nat \<Rightarrow> int \<Rightarrow> int" where
  "scan_keys keys b 0 r = r"
| "scan_keys keys b (Suc n) r = (if keys n = b then int n else scan_keys keys b n r)"

definition ReservePrivateRefCountEntry :: "backend \<Rightarrow> backend" where
  "ReservePrivateRefCountEntry p =
     (if ReservedRefCountSlot p \<noteq> -1 then p
      else let slot = scan_keys (PrivateRefCountArrayKeys p) InvalidBuffer REFCOUNT_ARRAY_ENTRIES (-1)
      in if slot \<noteq> -1 then p\<lparr>ReservedRefCountSlot := slot\<rparr>
      else let victim_slot = unat (PrivateRefCountClock p mod word_of_nat REFCOUNT_ARRAY_ENTRIES);
               victim_entry = PrivateRefCountArray p victim_slot
      in p\<lparr>PrivateRefCountClock := PrivateRefCountClock p + 1,
           ReservedRefCountSlot := int victim_slot,
           PrivateRefCountHash :=
             (PrivateRefCountHash p)(PrivateRefCountArrayKeys p victim_slot \<mapsto> data victim_entry),
           PrivateRefCountArrayKeys := (PrivateRefCountArrayKeys p)(victim_slot := InvalidBuffer),
           PrivateRefCountArray := (PrivateRefCountArray p)(victim_slot := empty_entry),
           PrivateRefCountOverflowed := PrivateRefCountOverflowed p + 1\<rparr>)"

definition NewPrivateRefCountEntry :: "Buffer \<Rightarrow> backend \<Rightarrow> (refptr \<times> backend) option" where
  "NewPrivateRefCountEntry b p =
     (let slot = ReservedRefCountSlot p
      in if slot < 0 \<or> int REFCOUNT_ARRAY_ENTRIES \<le> slot then None
         else Some (Slot (nat slot),
           p\<lparr>PrivateRefCountArrayKeys := (PrivateRefCountArrayKeys p)(nat slot := b),
             PrivateRefCountArray := (PrivateRefCountArray p)(nat slot := \<lparr>buffer = b, data = unpinned_data\<rparr>),
             PrivateRefCountEntryLast := slot,
             ReservedRefCountSlot := -1\<rparr>))"

definition GetPrivateRefCountEntrySlow ::
    "Buffer \<Rightarrow> bool \<Rightarrow> backend \<Rightarrow> (refptr option \<times> backend) option" where
  "GetPrivateRefCountEntrySlow b do_move p =
     (let found = scan_keys (PrivateRefCountArrayKeys p) b REFCOUNT_ARRAY_ENTRIES (-1)
      in if found \<noteq> -1 then Some (Some (Slot (nat found)), p\<lparr>PrivateRefCountEntryLast := found\<rparr>)
      else if PrivateRefCountOverflowed p = 0 then Some (None, p)
      else case PrivateRefCountHash p b of
             None \<Rightarrow> Some (None, p)
           | Some res \<Rightarrow>
               if \<not> do_move then Some (Some (HashKey b), p)
               else let p1 = ReservePrivateRefCountEntry p; slot = ReservedRefCountSlot p1
               in if slot < 0 \<or> int REFCOUNT_ARRAY_ENTRIES \<le> slot then None
               else Some (Some (Slot (nat slot)),
                 p1\<lparr>PrivateRefCountArray := (PrivateRefCountArray p1)(nat slot := \<lparr>buffer = b, data = res\<rparr>),
                    PrivateRefCountArrayKeys := (PrivateRefCountArrayKeys p1)(nat slot := b),
                    PrivateRefCountEntryLast := found,
                    ReservedRefCountSlot := -1,
                    PrivateRefCountHash := (PrivateRefCountHash p1)(b := None),
                    PrivateRefCountOverflowed := PrivateRefCountOverflowed p1 - 1\<rparr>))"

definition GetPrivateRefCountEntry ::
    "Buffer \<Rightarrow> bool \<Rightarrow> backend \<Rightarrow> (refptr option \<times> backend) option" where
  "GetPrivateRefCountEntry b do_move p =
     (let last = PrivateRefCountEntryLast p
      in if last \<noteq> -1 \<and> (last < 0 \<or> int REFCOUNT_ARRAY_ENTRIES \<le> last) then None
         else if last \<noteq> -1 \<and> buffer (PrivateRefCountArray p (nat last)) = b
         then Some (Some (Slot (nat last)), p)
         else GetPrivateRefCountEntrySlow b do_move p)"

text \<open>Reading and writing the data member behind an entry pointer.\<close>

definition entry_data :: "backend \<Rightarrow> refptr \<Rightarrow> PrivateRefCountData" where
  "entry_data p r = (case r of Slot i \<Rightarrow> data (PrivateRefCountArray p i)
                     | HashKey b \<Rightarrow> the (PrivateRefCountHash p b))"

definition set_entry_data :: "refptr \<Rightarrow> PrivateRefCountData \<Rightarrow> backend \<Rightarrow> backend" where
  "set_entry_data r d p =
     (case r of
        Slot i \<Rightarrow> p\<lparr>PrivateRefCountArray :=
                      (PrivateRefCountArray p)(i := (PrivateRefCountArray p i)\<lparr>data := d\<rparr>)\<rparr>
      | HashKey b \<Rightarrow> p\<lparr>PrivateRefCountHash := (PrivateRefCountHash p)(b \<mapsto> d)\<rparr>)"

definition GetPrivateRefCount :: "Buffer \<Rightarrow> backend \<Rightarrow> (int \<times> backend) option" where
  "GetPrivateRefCount b p =
     (case GetPrivateRefCountEntry b False p of
        None \<Rightarrow> None
      | Some (None, p1) \<Rightarrow> Some (0, p1)
      | Some (Some ref, p1) \<Rightarrow> Some (refcount (entry_data p1 ref), p1))"

definition ForgetPrivateRefCountEntry :: "refptr \<Rightarrow> backend \<Rightarrow> backend" where
  "ForgetPrivateRefCountEntry ref p =
     (case ref of
        Slot i \<Rightarrow>
          p\<lparr>PrivateRefCountArray :=
              (PrivateRefCountArray p)(i := (PrivateRefCountArray p i)\<lparr>buffer := InvalidBuffer\<rparr>),
            PrivateRefCountArrayKeys := (PrivateRefCountArrayKeys p)(i := InvalidBuffer),
            ReservedRefCountSlot := int i\<rparr>
      | HashKey b \<Rightarrow>
          p\<lparr>PrivateRefCountHash := (PrivateRefCountHash p)(b := None),
            PrivateRefCountOverflowed := PrivateRefCountOverflowed p - 1\<rparr>)"

definition TrackNewBufferPin :: "Buffer \<Rightarrow> backend \<Rightarrow> backend option" where
  "TrackNewBufferPin b p =
     (case NewPrivateRefCountEntry b p of
        None \<Rightarrow> None
      | Some (ref, p1) \<Rightarrow>
          (let p2 = set_entry_data ref ((entry_data p1 ref)\<lparr>refcount := refcount (entry_data p1 ref) + 1\<rparr>) p1
           in Some (p2\<lparr>owned_buffers := b # owned_buffers p2\<rparr>)))"

section \<open>The map the tables implement\<close>

definition refs :: "backend \<Rightarrow> Buffer \<rightharpoonup> PrivateRefCountData" where
  "refs p b =
     (if b = InvalidBuffer then None
      else let i = scan_keys (PrivateRefCountArrayKeys p) b REFCOUNT_ARRAY_ENTRIES (-1)
      in if i \<noteq> -1 then Some (data (PrivateRefCountArray p (nat i))) else PrivateRefCountHash p b)"

definition prc_inv :: "backend \<Rightarrow> bool" where
  "prc_inv p \<longleftrightarrow>
     (\<forall>i < REFCOUNT_ARRAY_ENTRIES. buffer (PrivateRefCountArray p i) = PrivateRefCountArrayKeys p i) \<and>
     (\<forall>i < REFCOUNT_ARRAY_ENTRIES. \<forall>j < REFCOUNT_ARRAY_ENTRIES.
        PrivateRefCountArrayKeys p i = PrivateRefCountArrayKeys p j \<longrightarrow>
        PrivateRefCountArrayKeys p i \<noteq> InvalidBuffer \<longrightarrow> i = j) \<and>
     (\<forall>i < REFCOUNT_ARRAY_ENTRIES. PrivateRefCountArrayKeys p i \<notin> dom (PrivateRefCountHash p)) \<and>
     InvalidBuffer \<notin> dom (PrivateRefCountHash p) \<and>
     finite (dom (PrivateRefCountHash p)) \<and>
     PrivateRefCountOverflowed p = int (card (dom (PrivateRefCountHash p))) \<and>
     (ReservedRefCountSlot p \<noteq> -1 \<longrightarrow>
        0 \<le> ReservedRefCountSlot p \<and> ReservedRefCountSlot p < int REFCOUNT_ARRAY_ENTRIES \<and>
        PrivateRefCountArrayKeys p (nat (ReservedRefCountSlot p)) = InvalidBuffer) \<and>
     (PrivateRefCountEntryLast p \<noteq> -1 \<longrightarrow>
        0 \<le> PrivateRefCountEntryLast p \<and> PrivateRefCountEntryLast p < int REFCOUNT_ARRAY_ENTRIES)"

abbreviation reserved :: "backend \<Rightarrow> bool" where
  "reserved p \<equiv> ReservedRefCountSlot p \<noteq> -1"

lemma scan_keys_eq_default: "scan_keys keys b n (-1) = -1 \<longleftrightarrow> (\<forall>i < n. keys i \<noteq> b)"
  by (induction n) (auto simp: less_Suc_eq)

lemma scan_keys_found:
  "scan_keys keys b n (-1) \<noteq> -1 \<Longrightarrow> \<exists>i < n. scan_keys keys b n (-1) = int i \<and> keys i = b"
  by (induction n) (auto simp: less_Suc_eq)

lemma scan_keys_unique:
  assumes "i < n" "keys i = b" "\<And>j. j < n \<Longrightarrow> keys j = b \<Longrightarrow> j = i"
  shows "scan_keys keys b n (-1) = int i"
proof -
  have "scan_keys keys b n (-1) \<noteq> -1" using assms by (auto simp: scan_keys_eq_default)
  from scan_keys_found [OF this] assms(3) show ?thesis by auto
qed

lemma refs_Invalid [simp]: "refs p InvalidBuffer = None"
  by (simp add: refs_def)

lemma refs_slot:
  assumes "prc_inv p" "i < REFCOUNT_ARRAY_ENTRIES" "PrivateRefCountArrayKeys p i = b" "b \<noteq> InvalidBuffer"
  shows "refs p b = Some (data (PrivateRefCountArray p i))"
proof -
  have "scan_keys (PrivateRefCountArrayKeys p) b REFCOUNT_ARRAY_ENTRIES (-1) = int i"
    using assms by (intro scan_keys_unique) (auto simp: prc_inv_def)
  with assms(4) show ?thesis by (simp add: refs_def)
qed

lemma refs_hash:
  assumes "\<And>i. i < REFCOUNT_ARRAY_ENTRIES \<Longrightarrow> PrivateRefCountArrayKeys p i \<noteq> b" "b \<noteq> InvalidBuffer"
  shows "refs p b = PrivateRefCountHash p b"
  using assms by (simp add: refs_def scan_keys_eq_default)

lemma refs_cases:
  assumes "prc_inv p" "b \<noteq> InvalidBuffer"
  obtains (slot) i where "i < REFCOUNT_ARRAY_ENTRIES" "PrivateRefCountArrayKeys p i = b"
      "refs p b = Some (data (PrivateRefCountArray p i))" "PrivateRefCountHash p b = None"
  | (hash) "\<And>i. i < REFCOUNT_ARRAY_ENTRIES \<Longrightarrow> PrivateRefCountArrayKeys p i \<noteq> b"
      "refs p b = PrivateRefCountHash p b"
proof (cases "\<exists>i < REFCOUNT_ARRAY_ENTRIES. PrivateRefCountArrayKeys p i = b")
  case True
  then obtain i where i: "i < REFCOUNT_ARRAY_ENTRIES" "PrivateRefCountArrayKeys p i = b" by blast
  moreover have "PrivateRefCountHash p b = None" using assms i by (auto simp: prc_inv_def)
  ultimately show ?thesis using slot refs_slot [OF assms(1) i assms(2)] by blast
next
  case False
  then show ?thesis using hash refs_hash [of p b] assms(2) by blast
qed

lemma InitPrivateRefCount_inv: "prc_inv InitPrivateRefCount" "refs InitPrivateRefCount = Map.empty"
  by (auto simp: prc_inv_def InitPrivateRefCount_def empty_entry_def refs_def scan_keys_eq_default
      Let_def)

text \<open>Reserving a slot changes the representation, never the map.\<close>

lemma Reserve_free_slot:
  assumes "prc_inv p" "\<not> reserved p"
    "scan_keys (PrivateRefCountArrayKeys p) InvalidBuffer REFCOUNT_ARRAY_ENTRIES (-1) = int i"
    "i < REFCOUNT_ARRAY_ENTRIES" "PrivateRefCountArrayKeys p i = InvalidBuffer"
  shows "prc_inv (ReservePrivateRefCountEntry p)" "refs (ReservePrivateRefCountEntry p) = refs p"
    "reserved (ReservePrivateRefCountEntry p)"
proof -
  have eq: "ReservePrivateRefCountEntry p = p\<lparr>ReservedRefCountSlot := int i\<rparr>"
    using assms by (simp add: ReservePrivateRefCountEntry_def)
  show "prc_inv (ReservePrivateRefCountEntry p)" using assms by (simp add: eq prc_inv_def)
  show "refs (ReservePrivateRefCountEntry p) = refs p" by (rule ext) (simp add: eq refs_def Let_def)
  show "reserved (ReservePrivateRefCountEntry p)" by (simp add: eq)
qed

lemma Reserve_displace:
  fixes p defines "v \<equiv> unat (PrivateRefCountClock p mod word_of_nat REFCOUNT_ARRAY_ENTRIES)"
  assumes inv: "prc_inv p" and "\<not> reserved p"
    and full: "\<And>i. i < REFCOUNT_ARRAY_ENTRIES \<Longrightarrow> PrivateRefCountArrayKeys p i \<noteq> InvalidBuffer"
  shows "prc_inv (ReservePrivateRefCountEntry p)" "refs (ReservePrivateRefCountEntry p) = refs p"
    "reserved (ReservePrivateRefCountEntry p)"
proof -
  let ?q = "ReservePrivateRefCountEntry p" and ?K = "PrivateRefCountArrayKeys p v"
  have "scan_keys (PrivateRefCountArrayKeys p) InvalidBuffer REFCOUNT_ARRAY_ENTRIES (-1) = -1"
    using full by (simp add: scan_keys_eq_default)
  then have q: "?q = p\<lparr>PrivateRefCountClock := PrivateRefCountClock p + 1,
      ReservedRefCountSlot := int v,
      PrivateRefCountHash := (PrivateRefCountHash p)(?K \<mapsto> data (PrivateRefCountArray p v)),
      PrivateRefCountArrayKeys := (PrivateRefCountArrayKeys p)(v := InvalidBuffer),
      PrivateRefCountArray := (PrivateRefCountArray p)(v := empty_entry),
      PrivateRefCountOverflowed := PrivateRefCountOverflowed p + 1\<rparr>"
    using assms by (simp add: ReservePrivateRefCountEntry_def Let_def v_def)
  have v: "v < REFCOUNT_ARRAY_ENTRIES"
    by (simp add: v_def REFCOUNT_ARRAY_ENTRIES_def unat_mod)
  have K: "?K \<noteq> InvalidBuffer" "?K \<notin> dom (PrivateRefCountHash p)"
    using full v inv by (auto simp: prc_inv_def)
  show inv': "prc_inv ?q"
    using inv v K by (auto simp: q prc_inv_def empty_entry_def)
  show "reserved ?q" by (simp add: q)
  show "refs ?q = refs p"
  proof
    fix b
    show "refs ?q b = refs p b"
    proof (cases "b = InvalidBuffer")
      case False
      with inv show ?thesis
      proof (cases rule: refs_cases)
        case (slot i)
        show ?thesis
        proof (cases "i = v")
          case True
          have "refs ?q b = PrivateRefCountHash ?q b"
            using slot True False inv v by (intro refs_hash) (auto simp: q prc_inv_def)
          with slot True show ?thesis by (simp add: q)
        next
          case False
          have "refs ?q b = Some (data (PrivateRefCountArray ?q i))"
            using slot False \<open>b \<noteq> InvalidBuffer\<close> by (intro refs_slot inv') (simp_all add: q)
          with slot False show ?thesis by (simp add: q)
        qed
      next
        case hash
        have "refs ?q b = PrivateRefCountHash ?q b"
          using hash(1) False by (intro refs_hash) (auto simp: q)
        with hash v show ?thesis by (auto simp: q)
      qed
    qed simp
  qed
qed

lemma Reserve_ok:
  assumes "prc_inv p"
  shows "prc_inv (ReservePrivateRefCountEntry p)" "refs (ReservePrivateRefCountEntry p) = refs p"
    "reserved (ReservePrivateRefCountEntry p)"
    "owned_buffers (ReservePrivateRefCountEntry p) = owned_buffers p"
proof -
  let ?scan = "scan_keys (PrivateRefCountArrayKeys p) InvalidBuffer REFCOUNT_ARRAY_ENTRIES (-1)"
  consider "reserved p" | "\<not> reserved p" "?scan \<noteq> -1" | "\<not> reserved p" "?scan = -1" by blast
  then have *: "prc_inv (ReservePrivateRefCountEntry p) \<and>
      refs (ReservePrivateRefCountEntry p) = refs p \<and> reserved (ReservePrivateRefCountEntry p)"
  proof cases
    case 1
    then show ?thesis using assms by (simp add: ReservePrivateRefCountEntry_def)
  next
    case 2
    then show ?thesis using Reserve_free_slot assms scan_keys_found by metis
  next
    case 3
    then show ?thesis using Reserve_displace [OF assms] by (simp add: scan_keys_eq_default)
  qed
  then show "prc_inv (ReservePrivateRefCountEntry p)" "refs (ReservePrivateRefCountEntry p) = refs p"
    "reserved (ReservePrivateRefCountEntry p)" by blast+
  show "owned_buffers (ReservePrivateRefCountEntry p) = owned_buffers p"
    by (simp add: ReservePrivateRefCountEntry_def Let_def)
qed

text \<open>
  \<open>ref_at p r b\<close>: the pointer \<open>r\<close> is the entry of buffer \<open>b\<close>. Writing one slot of the
  array is one update of the map; every operation below is an instance.
\<close>

definition ref_at :: "backend \<Rightarrow> refptr \<Rightarrow> Buffer \<Rightarrow> bool" where
  "ref_at p r b \<longleftrightarrow> b \<noteq> InvalidBuffer \<and>
     (case r of Slot i \<Rightarrow> i < REFCOUNT_ARRAY_ENTRIES \<and> PrivateRefCountArrayKeys p i = b
      | HashKey b' \<Rightarrow> b' = b \<and> b \<in> dom (PrivateRefCountHash p))"

lemma ref_at_refs: "prc_inv p \<Longrightarrow> ref_at p r b \<Longrightarrow> refs p b = Some (entry_data p r)"
  by (cases r) (auto simp: ref_at_def entry_data_def refs_slot elim: refs_cases)

lemma refs_write_slot:
  assumes inv: "prc_inv p" and inv': "prc_inv q" and i: "i < REFCOUNT_ARRAY_ENTRIES"
    and b: "b \<noteq> InvalidBuffer"
    and old: "PrivateRefCountArrayKeys p i = InvalidBuffer \<or> PrivateRefCountArrayKeys p i = b"
    and keys: "PrivateRefCountArrayKeys q = (PrivateRefCountArrayKeys p)(i := b)"
    and arr: "PrivateRefCountArray q = (PrivateRefCountArray p)(i := \<lparr>buffer = b, data = d\<rparr>)"
    and hash: "PrivateRefCountHash q = (PrivateRefCountHash p)(b := None)"
  shows "refs q = (refs p)(b \<mapsto> d)"
proof
  fix c
  show "refs q c = ((refs p)(b \<mapsto> d)) c"
  proof (cases "c = InvalidBuffer \<or> c = b")
    case True
    then show ?thesis
      using b refs_slot [OF inv' i, of b] by (auto simp: keys arr)
  next
    case False
    then have c: "c \<noteq> InvalidBuffer" "c \<noteq> b" by auto
    from inv c(1) show ?thesis
    proof (cases rule: refs_cases)
      case (slot j)
      with old c have "j \<noteq> i" by auto
      then have "refs q c = Some (data (PrivateRefCountArray q j))"
        using slot c by (intro refs_slot inv') (auto simp: keys)
      with slot c \<open>j \<noteq> i\<close> show ?thesis by (simp add: arr)
    next
      case nohash: hash
      then have "refs q c = PrivateRefCountHash q c"
        using c by (intro refs_hash) (auto simp: keys)
      with nohash c show ?thesis by (simp add: hash)
    qed
  qed
qed

lemma New_ok:
  assumes inv: "prc_inv p" and "reserved p" and b: "b \<noteq> InvalidBuffer" and "refs p b = None"
  obtains r q where "NewPrivateRefCountEntry b p = Some (r, q)" "prc_inv q"
    "refs q = (refs p)(b \<mapsto> unpinned_data)" "ref_at q r b" "owned_buffers q = owned_buffers p"
proof -
  let ?i = "nat (ReservedRefCountSlot p)"
  from assms have slot: "0 \<le> ReservedRefCountSlot p" "?i < REFCOUNT_ARRAY_ENTRIES"
    "PrivateRefCountArrayKeys p ?i = InvalidBuffer" by (auto simp: prc_inv_def)
  from inv b have nokey: "\<forall>j < REFCOUNT_ARRAY_ENTRIES. PrivateRefCountArrayKeys p j \<noteq> b"
    and nohash: "b \<notin> dom (PrivateRefCountHash p)"
    using assms(4) by (cases rule: refs_cases; auto)+
  obtain r q where rq: "NewPrivateRefCountEntry b p = Some (r, q)"
    and r: "r = Slot ?i"
    and q: "q = p\<lparr>PrivateRefCountArrayKeys := (PrivateRefCountArrayKeys p)(?i := b),
      PrivateRefCountArray := (PrivateRefCountArray p)(?i := \<lparr>buffer = b, data = unpinned_data\<rparr>),
      PrivateRefCountEntryLast := ReservedRefCountSlot p, ReservedRefCountSlot := -1\<rparr>"
    using slot by (auto simp: NewPrivateRefCountEntry_def Let_def)
  have inv': "prc_inv q"
    using inv slot b nokey nohash by (auto simp: q prc_inv_def)
  moreover have "refs q = (refs p)(b \<mapsto> unpinned_data)"
    using slot b nohash by (intro refs_write_slot [OF inv inv', of ?i]) (auto simp: q fun_upd_idem)
  ultimately show ?thesis using that rq slot b by (simp add: q r ref_at_def)
qed

lemma set_entry_data_ok:
  assumes inv: "prc_inv p" and r: "ref_at p r b"
  shows "prc_inv (set_entry_data r d p)" "refs (set_entry_data r d p) = (refs p)(b \<mapsto> d)"
    "ref_at (set_entry_data r d p) r b" "entry_data (set_entry_data r d p) r = d"
    "owned_buffers (set_entry_data r d p) = owned_buffers p"
    "reserved (set_entry_data r d p) = reserved p"
proof -
  let ?q = "set_entry_data r d p"
  show inv': "prc_inv ?q"
    using inv r by (cases r) (auto simp: ref_at_def prc_inv_def set_entry_data_def insert_absorb)
  show "refs ?q = (refs p)(b \<mapsto> d)"
  proof (cases r)
    case (Slot i)
    have "PrivateRefCountHash p b = None"
      using inv r Slot by (auto simp: ref_at_def prc_inv_def)
    then show ?thesis using inv r Slot
      by (intro refs_write_slot [OF inv inv', of i])
        (auto simp: ref_at_def set_entry_data_def prc_inv_def fun_upd_idem)
  next
    case (HashKey c)
    then show ?thesis using inv r
      by (intro ext) (auto simp: refs_def ref_at_def set_entry_data_def Let_def
          scan_keys_eq_default prc_inv_def)
  qed
qed (use r in \<open>auto simp: ref_at_def set_entry_data_def entry_data_def split: refptr.splits\<close>)

lemma Forget_ok:
  assumes inv: "prc_inv p" and r: "ref_at p r b"
  shows "prc_inv (ForgetPrivateRefCountEntry r p)"
    "refs (ForgetPrivateRefCountEntry r p) = (refs p)(b := None)"
    "owned_buffers (ForgetPrivateRefCountEntry r p) = owned_buffers p"
proof -
  let ?q = "ForgetPrivateRefCountEntry r p"
  show inv': "prc_inv ?q"
  proof (cases r)
    case (Slot i)
    then show ?thesis using inv r
      by (auto simp: ref_at_def prc_inv_def ForgetPrivateRefCountEntry_def)
  next
    case (HashKey c)
    then have "0 < card (dom (PrivateRefCountHash p))"
      using inv r by (auto simp: ref_at_def prc_inv_def card_gt_0_iff)
    with HashKey show ?thesis using inv r
      by (auto simp: ref_at_def prc_inv_def ForgetPrivateRefCountEntry_def card_Diff_singleton)
  qed
  show "refs ?q = (refs p)(b := None)"
  proof
    fix c
    show "refs ?q c = ((refs p)(b := None)) c"
    proof (cases "c = InvalidBuffer")
      case False
      with inv show ?thesis
      proof (cases rule: refs_cases)
        case (slot i)
        show ?thesis
        proof (cases "c = b")
          case True
          have "refs ?q c = PrivateRefCountHash ?q c" using inv r slot True False
            by (intro refs_hash)
              (auto simp: ref_at_def prc_inv_def ForgetPrivateRefCountEntry_def split: refptr.splits)
          with slot True show ?thesis
            by (auto simp: ForgetPrivateRefCountEntry_def split: refptr.splits)
        next
          case ne: False
          have "refs ?q c = Some (data (PrivateRefCountArray ?q i))" using r slot ne False
            by (intro refs_slot inv')
              (auto simp: ref_at_def ForgetPrivateRefCountEntry_def split: refptr.splits)
          with slot ne r show ?thesis
            by (auto simp: ref_at_def ForgetPrivateRefCountEntry_def split: refptr.splits)
        qed
      next
        case hash
        have "refs ?q c = PrivateRefCountHash ?q c" using hash(1) False
          by (intro refs_hash) (auto simp: ForgetPrivateRefCountEntry_def split: refptr.splits)
        with hash r show ?thesis
          by (auto simp: ref_at_def ForgetPrivateRefCountEntry_def split: refptr.splits)
      qed
    qed (simp add: refs_def)
  qed
qed (simp add: ForgetPrivateRefCountEntry_def split: refptr.splits)

definition lookup_ok :: "Buffer \<Rightarrow> backend \<Rightarrow> refptr option \<times> backend \<Rightarrow> bool" where
  "lookup_ok b p = (\<lambda>(r, q). prc_inv q \<and> refs q = refs p \<and> owned_buffers q = owned_buffers p \<and>
     (case r of None \<Rightarrow> refs p b = None | Some r \<Rightarrow> ref_at q r b) \<and>
     (refs p b = None \<longrightarrow> ReservedRefCountSlot q = ReservedRefCountSlot p))"

lemma set_last_ok:
  assumes "prc_inv p" "i < REFCOUNT_ARRAY_ENTRIES"
  shows "prc_inv (p\<lparr>PrivateRefCountEntryLast := int i\<rparr>)"
    "refs (p\<lparr>PrivateRefCountEntryLast := int i\<rparr>) = refs p"
  using assms by (auto simp: prc_inv_def refs_def Let_def)

text \<open>Moving an overflowed entry back into the array keeps the map.\<close>

lemma Slow_move_ok:
  assumes inv: "prc_inv p" and b: "b \<noteq> InvalidBuffer"
    and nokey: "\<And>i. i < REFCOUNT_ARRAY_ENTRIES \<Longrightarrow> PrivateRefCountArrayKeys p i \<noteq> b"
    and res: "PrivateRefCountHash p b = Some res"
  shows "\<exists>rq. GetPrivateRefCountEntrySlow b True p = Some rq \<and> lookup_ok b p rq"
proof -
  let ?p = "ReservePrivateRefCountEntry p"
  let ?i = "nat (ReservedRefCountSlot ?p)"
  have rp: "refs p b = Some res" using refs_hash [OF nokey b] res by simp
  have inv1: "prc_inv ?p" "reserved ?p" "refs ?p = refs p" using Reserve_ok [OF inv] by auto
  then have slot: "0 \<le> ReservedRefCountSlot ?p" "?i < REFCOUNT_ARRAY_ENTRIES"
    "PrivateRefCountArrayKeys ?p ?i = InvalidBuffer" by (auto simp: prc_inv_def)
  have keys: "PrivateRefCountArrayKeys ?p j \<in> {InvalidBuffer, PrivateRefCountArrayKeys p j}" for j
    by (simp add: ReservePrivateRefCountEntry_def Let_def)
  have nokey1: "\<And>j. j < REFCOUNT_ARRAY_ENTRIES \<Longrightarrow> PrivateRefCountArrayKeys ?p j \<noteq> b"
    using keys nokey b by (metis insertE singletonD)
  have hash1: "b \<in> dom (PrivateRefCountHash ?p)"
    using refs_hash [OF nokey1 b] rp inv1(3) by (metis domI)
  obtain q where q: "q = ?p\<lparr>PrivateRefCountArray := (PrivateRefCountArray ?p)(?i := \<lparr>buffer = b, data = res\<rparr>),
      PrivateRefCountArrayKeys := (PrivateRefCountArrayKeys ?p)(?i := b),
      PrivateRefCountEntryLast := -1, ReservedRefCountSlot := -1,
      PrivateRefCountHash := (PrivateRefCountHash ?p)(b := None),
      PrivateRefCountOverflowed := PrivateRefCountOverflowed ?p - 1\<rparr>" by blast
  have "finite (dom (PrivateRefCountHash p))" "dom (PrivateRefCountHash p) \<noteq> {}"
    "PrivateRefCountOverflowed p = int (card (dom (PrivateRefCountHash p)))"
    using inv res by (auto simp: prc_inv_def)
  then have "PrivateRefCountOverflowed p \<noteq> 0" by (simp add: card_gt_0_iff)
  then have eq: "GetPrivateRefCountEntrySlow b True p = Some (Some (Slot ?i), q)"
    using slot nokey res
    by (auto simp: GetPrivateRefCountEntrySlow_def Let_def scan_keys_eq_default q)
  have "0 < card (dom (PrivateRefCountHash ?p))"
    using inv1 hash1 by (auto simp: prc_inv_def card_gt_0_iff)
  then have inv': "prc_inv q"
    using inv1 slot b nokey1 hash1
    by (auto simp: q prc_inv_def card_Diff_singleton)
  have "refs q = (refs ?p)(b \<mapsto> res)"
    using slot b by (intro refs_write_slot [OF inv1(1) inv', of ?i]) (auto simp: q)
  then have "refs q = refs p" using inv1 rp by (simp add: fun_upd_idem)
  with inv' eq slot b rp show ?thesis
    using Reserve_ok(4) [OF inv] by (simp add: lookup_ok_def ref_at_def q)
qed

lemma Slow_ok:
  assumes inv: "prc_inv p" and b: "b \<noteq> InvalidBuffer"
  shows "\<exists>rq. GetPrivateRefCountEntrySlow b mv p = Some rq \<and> lookup_ok b p rq"
proof (cases "scan_keys (PrivateRefCountArrayKeys p) b REFCOUNT_ARRAY_ENTRIES (-1) = -1")
  case False
  from scan_keys_found [OF this] obtain i where i: "i < REFCOUNT_ARRAY_ENTRIES"
    "scan_keys (PrivateRefCountArrayKeys p) b REFCOUNT_ARRAY_ENTRIES (-1) = int i"
    "PrivateRefCountArrayKeys p i = b" by blast
  with refs_slot [OF inv i(1) i(3) b] show ?thesis
    using set_last_ok [OF inv i(1)] b
    by (simp add: GetPrivateRefCountEntrySlow_def lookup_ok_def ref_at_def)
next
  case True
  then have nokey: "\<And>i. i < REFCOUNT_ARRAY_ENTRIES \<Longrightarrow> PrivateRefCountArrayKeys p i \<noteq> b"
    by (simp add: scan_keys_eq_default)
  have rp: "refs p b = PrivateRefCountHash p b" using nokey b by (rule refs_hash)
  show ?thesis
  proof (cases "PrivateRefCountHash p b")
    case None
    with True rp inv show ?thesis
      by (simp add: GetPrivateRefCountEntrySlow_def lookup_ok_def Let_def)
  next
    case (Some res)
    show ?thesis
    proof (cases mv)
      case True
      with Slow_move_ok [OF inv b nokey Some] show ?thesis by simp
    next
      case False
      have "finite (dom (PrivateRefCountHash p))" "dom (PrivateRefCountHash p) \<noteq> {}"
        using inv Some by (auto simp: prc_inv_def)
      with False True Some rp inv b show ?thesis
        by (auto simp: GetPrivateRefCountEntrySlow_def lookup_ok_def ref_at_def prc_inv_def)
    qed
  qed
qed

lemma Get_ok:
  assumes inv: "prc_inv p" and b: "b \<noteq> InvalidBuffer"
  obtains r q where "GetPrivateRefCountEntry b mv p = Some (r, q)" "lookup_ok b p (r, q)"
proof (cases "PrivateRefCountEntryLast p \<noteq> -1 \<and>
    buffer (PrivateRefCountArray p (nat (PrivateRefCountEntryLast p))) = b")
  case True
  let ?i = "nat (PrivateRefCountEntryLast p)"
  from inv True have i: "?i < REFCOUNT_ARRAY_ENTRIES" "0 \<le> PrivateRefCountEntryLast p"
    "PrivateRefCountArrayKeys p ?i = b" by (auto simp: prc_inv_def)
  with refs_slot [OF inv i(1) i(3) b] True inv b show ?thesis
    by (intro that [of "Some (Slot ?i)" p])
      (auto simp: GetPrivateRefCountEntry_def lookup_ok_def ref_at_def Let_def prc_inv_def)
next
  case False
  then have "GetPrivateRefCountEntry b mv p = GetPrivateRefCountEntrySlow b mv p"
    using inv by (auto simp: GetPrivateRefCountEntry_def Let_def prc_inv_def)
  with Slow_ok [OF inv b, of mv] that show ?thesis by auto
qed

lemma GetPrivateRefCount_ok:
  assumes "prc_inv p" "b \<noteq> InvalidBuffer"
  obtains q where
    "GetPrivateRefCount b p = Some (case refs p b of None \<Rightarrow> 0 | Some d \<Rightarrow> refcount d, q)"
    "prc_inv q" "refs q = refs p" "owned_buffers q = owned_buffers p"
proof -
  obtain r q where rq: "GetPrivateRefCountEntry b False p = Some (r, q)" "lookup_ok b p (r, q)"
    using assms by (rule Get_ok)
  show ?thesis
  proof (rule that [of q])
    show "GetPrivateRefCount b p = Some (case refs p b of None \<Rightarrow> 0 | Some d \<Rightarrow> refcount d, q)"
      using rq ref_at_refs [of q _ b]
      by (cases r) (auto simp: GetPrivateRefCount_def lookup_ok_def)
  qed (use rq in \<open>auto simp: lookup_ok_def\<close>)
qed

lemma Track_ok:
  assumes "prc_inv p" "reserved p" "b \<noteq> InvalidBuffer" "refs p b = None"
  obtains q where "TrackNewBufferPin b p = Some q" "prc_inv q"
    "refs q = (refs p)(b \<mapsto> \<lparr>refcount = 1, lockmode = BUFFER_LOCK_UNLOCK\<rparr>)"
    "owned_buffers q = b # owned_buffers p"
proof -
  obtain r q where q: "NewPrivateRefCountEntry b p = Some (r, q)" "prc_inv q"
    "refs q = (refs p)(b \<mapsto> unpinned_data)" "ref_at q r b" "owned_buffers q = owned_buffers p"
    using assms by (rule New_ok)
  have d: "entry_data q r = unpinned_data" using ref_at_refs [OF q(2,4)] q(3) by simp
  let ?d = "\<lparr>refcount = 1, lockmode = BUFFER_LOCK_UNLOCK\<rparr>"
  let ?q = "set_entry_data r ?d q"
  let ?q' = "?q\<lparr>owned_buffers := b # owned_buffers ?q\<rparr>"
  note ok = set_entry_data_ok [OF q(2,4), of ?d]
  show ?thesis
  proof (rule that [of ?q'])
    show "TrackNewBufferPin b p = Some ?q'"
      using q(1) d by (simp add: TrackNewBufferPin_def unpinned_data_def Let_def)
    show "prc_inv ?q'" using ok(1) by (simp add: prc_inv_def)
    have "refs ?q' = refs ?q" by (simp add: refs_def fun_eq_iff Let_def)
    then show "refs ?q' = (refs p)(b \<mapsto> ?d)" using ok(2) q(3) by simp
    show "owned_buffers ?q' = b # owned_buffers p" using ok(5) q(5) by simp
  qed
qed

section \<open>Properties\<close>



end
