(* ===== verification/Buffer_Ring.thy ===== *)
theory Buffer_Ring
  imports Private_RefCount
begin

unbundle bit_operations_syntax

text \<open>
  The backend-private buffer rings of \<^verbatim>\<open>freelist.c\<close> (\<open>BufferAccessStrategyData\<close>), and
  the state a victim search works on: the shared header words, the common control block,
  the policy's own shared memory, the ring passed as \<open>strategy\<close> (\<open>None\<close> for NULL), and
  the private reference counts of the backend. \<open>latches\<close> records the processes whose latch
  the backend has set, the last one first.
\<close>

datatype BufferAccessStrategyType = BAS_NORMAL | BAS_BULKREAD | BAS_BULKWRITE | BAS_VACUUM

datatype IOContext =
  IOCONTEXT_BULKREAD | IOCONTEXT_BULKWRITE | IOCONTEXT_INIT | IOCONTEXT_NORMAL | IOCONTEXT_VACUUM

record BufferAccessStrategyData =
  btype :: BufferAccessStrategyType
  nbuffers :: nat
  current :: nat
  buffers :: "nat \<Rightarrow> Buffer"

record BufferStrategyCommon =
  completePasses :: uint32
  numBufferAllocs :: uint32
  bgwprocno :: int

record 'p pool =
  hdr :: states
  ctl :: BufferStrategyCommon
  pol :: 'p
  strategy :: "BufferAccessStrategyData option"
  me :: backend
  latches :: "int list"

type_synonym victim = "nat \<times> uint64"

section \<open>Creating rings\<close>

definition BLCKSZ :: int where "BLCKSZ = 8192"

definition GetAccessStrategyWithSize ::
    "int \<Rightarrow> BufferAccessStrategyType \<Rightarrow> int \<Rightarrow> BufferAccessStrategyData option" where
  "GetAccessStrategyWithSize NBuffers bt ring_size_kb =
     (let ring_buffers = ring_size_kb div (BLCKSZ div 1024)
      in if ring_buffers = 0 then None
         else let ring_buffers = min (NBuffers div 8) ring_buffers
         in Some \<lparr>btype = bt, nbuffers = nat ring_buffers, current = 0, buffers = (\<lambda>_. InvalidBuffer)\<rparr>)"

definition GetAccessStrategy ::
    "int \<Rightarrow> uint32 \<Rightarrow> int \<Rightarrow> int \<Rightarrow> BufferAccessStrategyType \<Rightarrow> BufferAccessStrategyData option" where
  "GetAccessStrategy NBuffers PinLimit io_combine_limit effective_io_concurrency bt =
     (case bt of
        BAS_NORMAL \<Rightarrow> None
      | BAS_BULKREAD \<Rightarrow>
          (let ring_size_kb = 256;
               ring_max_kb = sint (PinLimit * word_of_int (BLCKSZ div 1024));
               ring_max_kb = max ring_size_kb ring_max_kb;
               ring_size_kb = ring_size_kb +
                 (BLCKSZ div 1024) * io_combine_limit * effective_io_concurrency;
               ring_size_kb = (if ring_size_kb > ring_max_kb then ring_max_kb else ring_size_kb)
           in GetAccessStrategyWithSize NBuffers bt ring_size_kb)
      | BAS_BULKWRITE \<Rightarrow> GetAccessStrategyWithSize NBuffers bt (16 * 1024)
      | BAS_VACUUM \<Rightarrow> GetAccessStrategyWithSize NBuffers bt 2048)"

definition GetAccessStrategyBufferCount :: "BufferAccessStrategyData option \<Rightarrow> nat" where
  "GetAccessStrategyBufferCount strat = (case strat of None \<Rightarrow> 0 | Some r \<Rightarrow> nbuffers r)"

definition GetAccessStrategyPinLimit :: "nat \<Rightarrow> BufferAccessStrategyData option \<Rightarrow> nat" where
  "GetAccessStrategyPinLimit NBuffers strat =
     (case strat of
        None \<Rightarrow> NBuffers
      | Some r \<Rightarrow> (case btype r of BAS_BULKREAD \<Rightarrow> nbuffers r | _ \<Rightarrow> nbuffers r div 2))"

definition IOContextForStrategy :: "BufferAccessStrategyData option \<Rightarrow> IOContext option" where
  "IOContextForStrategy strat =
     (case strat of
        None \<Rightarrow> Some IOCONTEXT_NORMAL
      | Some r \<Rightarrow> (case btype r of
            BAS_NORMAL \<Rightarrow> None \<comment> \<open>\<open>pg_unreachable()\<close>\<close>
          | BAS_BULKREAD \<Rightarrow> Some IOCONTEXT_BULKREAD
          | BAS_BULKWRITE \<Rightarrow> Some IOCONTEXT_BULKWRITE
          | BAS_VACUUM \<Rightarrow> Some IOCONTEXT_VACUUM))"

section \<open>Using rings\<close>

definition AddBufferToRing :: "nat \<Rightarrow> BufferAccessStrategyData \<Rightarrow> BufferAccessStrategyData option" where
  "AddBufferToRing buf r =
     do { bs \<leftarrow> arr_set (nbuffers r) (buffers r) (current r) (BufferDescriptorGetBuffer buf);
          Some (r\<lparr>buffers := bs\<rparr>) }"

definition StrategyRejectBuffer ::
    "BufferAccessStrategyData \<Rightarrow> nat \<Rightarrow> bool \<Rightarrow> (bool \<times> BufferAccessStrategyData) option" where
  "StrategyRejectBuffer r buf from_ring =
     (if btype r \<noteq> BAS_BULKREAD then Some (False, r)
      else if \<not> from_ring then Some (False, r)
      else do { cur \<leftarrow> arr_get (nbuffers r) (buffers r) (current r);
                if cur \<noteq> BufferDescriptorGetBuffer buf then Some (False, r)
                else do { bs \<leftarrow> arr_set (nbuffers r) (buffers r) (current r) InvalidBuffer;
                          Some (True, r\<lparr>buffers := bs\<rparr>) } })"

text \<open>
  What every policy does once its compare-and-exchange has pinned the victim: put it into
  the ring, if there is one, and track the pin.
\<close>

definition claim_victim :: "nat \<Rightarrow> 'p pool \<Rightarrow> 'p pool option" where
  "claim_victim buf p =
     do { strat \<leftarrow> (case strategy p of
                     None \<Rightarrow> Some None
                   | Some r \<Rightarrow> do { r' \<leftarrow> AddBufferToRing buf r; Some (Some r') });
          m \<leftarrow> TrackNewBufferPin (BufferDescriptorGetBuffer buf) (me p);
          Some (p\<lparr>strategy := strat, me := m\<rparr>) }"

fun GetBufferFromRing_loop ::
    "nat \<Rightarrow> interference \<Rightarrow> nat \<Rightarrow> 'p pool \<Rightarrow> nat \<Rightarrow> uint64 \<Rightarrow> (nat \<times> 'p pool, victim option) run" where
  "GetBufferFromRing_loop 0 E t p buf old_buf_state = Spin (t, p)"
| "GetBufferFromRing_loop (Suc fuel) E t p buf old_buf_state =
     (if BUF_STATE_GET_REFCOUNT old_buf_state \<noteq> 0 \<or> BUF_STATE_GET_USAGECOUNT old_buf_state > 1
      then Done (t, p) None
      else if old_buf_state AND BM_LOCKED \<noteq> 0
      then (case WaitBufHdrUnlocked fuel E t (hdr p) buf of
              Done (t1, st1) s \<Rightarrow> GetBufferFromRing_loop fuel E t1 (p\<lparr>hdr := st1\<rparr>) buf s
            | Raise (t1, st1) e \<Rightarrow> Raise (t1, p\<lparr>hdr := st1\<rparr>) e
            | Spin (t1, st1) \<Rightarrow> Spin (t1, p\<lparr>hdr := st1\<rparr>)
            | Crash \<Rightarrow> Crash)
      else let local_buf_state = old_buf_state + BUF_REFCOUNT_ONE;
               (success, found, st1) =
                 pg_atomic_compare_exchange_u64 (E t (hdr p)) buf old_buf_state local_buf_state
      in if success
         then (case TrackNewBufferPin (BufferDescriptorGetBuffer buf) (me p) of
                 None \<Rightarrow> Crash
               | Some m \<Rightarrow> Done (Suc t, p\<lparr>hdr := st1, me := m\<rparr>) (Some (buf, local_buf_state)))
         else GetBufferFromRing_loop fuel E (Suc t) (p\<lparr>hdr := st1\<rparr>) buf found)"

definition GetBufferFromRing ::
    "nat \<Rightarrow> nat \<Rightarrow> interference \<Rightarrow> nat \<Rightarrow> BufferAccessStrategyData \<Rightarrow> 'p pool
     \<Rightarrow> (nat \<times> 'p pool, victim option) run" where
  "GetBufferFromRing NBuffers fuel E t r p =
     (let cur = (if Suc (current r) \<ge> nbuffers r then 0 else Suc (current r));
          p1 = p\<lparr>strategy := Some (r\<lparr>current := cur\<rparr>)\<rparr>
      in case arr_get (nbuffers r) (buffers r) cur of
           None \<Rightarrow> Crash
         | Some bufnum \<Rightarrow>
             if bufnum = InvalidBuffer then Done (t, p1) None
             else if bufnum < 1 \<or> int NBuffers < bufnum then Crash
             else let buf = nat (bufnum - 1); st1 = E t (hdr p)
             in GetBufferFromRing_loop fuel E (Suc t) (p1\<lparr>hdr := st1\<rparr>) buf (st1 buf))"

section \<open>Invariants\<close>

definition ring_ok :: "nat \<Rightarrow> BufferAccessStrategyData \<Rightarrow> bool" where
  "ring_ok NBuffers r \<longleftrightarrow> current r < nbuffers r \<and>
     (\<forall>i < nbuffers r. 0 \<le> buffers r i \<and> buffers r i \<le> int NBuffers)"

definition own_pins :: "states \<Rightarrow> backend \<Rightarrow> bool" where
  "own_pins st m \<longleftrightarrow>
     (\<forall>b. refs m (BufferDescriptorGetBuffer b) \<noteq> None \<longrightarrow> BUF_STATE_GET_REFCOUNT (st b) \<noteq> 0)"

text \<open>
  What the other backends may do to the header words: anything that does not take away a
  pin this backend holds.
\<close>

definition respects_pins :: "backend \<Rightarrow> interference \<Rightarrow> bool" where
  "respects_pins m E \<longleftrightarrow> (\<forall>t st. own_pins st m \<longrightarrow> own_pins (E t st) m)"

definition pool_ok :: "nat \<Rightarrow> 'p pool \<Rightarrow> bool" where
  "pool_ok NBuffers p \<longleftrightarrow>
     prc_inv (me p) \<and> reserved (me p) \<and> own_pins (hdr p) (me p) \<and>
     (case strategy p of None \<Rightarrow> True | Some r \<Rightarrow> ring_ok NBuffers r)"

definition first_pin :: PrivateRefCountData where
  "first_pin = \<lparr>refcount = 1, lockmode = BUFFER_LOCK_UNLOCK\<rparr>"

text \<open>
  \<open>claimed p p' b s\<close>: between \<open>p\<close> and \<open>p'\<close> the backend took the first pin on buffer \<open>b\<close>,
  whose header word is now \<open>s\<close>.
\<close>

definition claimed :: "'p pool \<Rightarrow> 'p pool \<Rightarrow> victim \<Rightarrow> bool" where
  "claimed p p' = (\<lambda>(b, s).
     hdr p' b = s \<and> unat (BUF_STATE_GET_REFCOUNT s) = 1 \<and> \<not> bit s 22 \<and>
     refs (me p) (BufferDescriptorGetBuffer b) = None \<and>
     refs (me p') = (refs (me p))(BufferDescriptorGetBuffer b \<mapsto> first_pin) \<and>
     owned_buffers (me p') = BufferDescriptorGetBuffer b # owned_buffers (me p) \<and>
     prc_inv (me p') \<and> own_pins (hdr p') (me p'))"

lemma GetBuffer_not_Invalid [simp]: "BufferDescriptorGetBuffer b \<noteq> InvalidBuffer"
  by (simp add: BufferDescriptorGetBuffer_def InvalidBuffer_def)

lemma GetBuffer_inject [simp]: "BufferDescriptorGetBuffer b = BufferDescriptorGetBuffer c \<longleftrightarrow> b = c"
  by (simp add: BufferDescriptorGetBuffer_def)

lemma AddBufferToRing_ok:
  assumes "ring_ok NBuffers r" "buf < NBuffers"
  obtains r' where "AddBufferToRing buf r = Some r'" "ring_ok NBuffers r'"
    "buffers r' (current r') = BufferDescriptorGetBuffer buf"
  using assms by (auto simp: AddBufferToRing_def ring_ok_def BufferDescriptorGetBuffer_def)

lemma own_pins_respected: "respects_pins m E \<Longrightarrow> own_pins st m \<Longrightarrow> own_pins (E t st) m"
  by (simp add: respects_pins_def)

lemma respects_pins_cong: "refs m = refs m' \<Longrightarrow> respects_pins m E = respects_pins m' E"
  by (simp add: respects_pins_def own_pins_def)

text \<open>
  A buffer whose reference count was found zero is not pinned by this backend, so tracking
  the new pin cannot fail.
\<close>

lemma track_claimed:
  assumes p: "prc_inv (me p)" "reserved (me p)" and own: "own_pins st (me p)"
    and free: "BUF_STATE_GET_REFCOUNT (st b) = 0" and unlocked: "\<not> bit (st b) 22"
  obtains m where "TrackNewBufferPin (BufferDescriptorGetBuffer b) (me p) = Some m"
    "\<And>q s. hdr q = st(b := st b + BUF_REFCOUNT_ONE) \<Longrightarrow> me q = m \<Longrightarrow> s = st b + BUF_REFCOUNT_ONE \<Longrightarrow>
      claimed p q (b, s)"
proof -
  have none: "refs (me p) (BufferDescriptorGetBuffer b) = None"
    using own free by (auto simp: own_pins_def)
  obtain m where m: "TrackNewBufferPin (BufferDescriptorGetBuffer b) (me p) = Some m" "prc_inv m"
    "refs m = (refs (me p))(BufferDescriptorGetBuffer b \<mapsto> \<lparr>refcount = 1, lockmode = BUFFER_LOCK_UNLOCK\<rparr>)"
    "owned_buffers m = BufferDescriptorGetBuffer b # owned_buffers (me p)"
    using Track_ok [OF p GetBuffer_not_Invalid none] by blast
  let ?s = "st b + BUF_REFCOUNT_ONE"
  have rc: "unat (BUF_STATE_GET_REFCOUNT ?s) = 1" and unl: "\<not> bit ?s 22"
    using free unlocked by (simp_all add: pin_refcount pin_flags)
  have "own_pins (st(b := ?s)) m"
    using own rc by (auto simp: own_pins_def m(3))
  then show ?thesis
    using that [OF m(1)] m rc unl none by (simp add: claimed_def first_pin_def)
qed

lemma claim_victim_ok:
  assumes p: "prc_inv (me p)" "reserved (me p)" and own: "own_pins st (me p)"
    and ring: "case strategy p of None \<Rightarrow> True | Some r \<Rightarrow> ring_ok NBuffers r" and b: "b < NBuffers"
    and free: "BUF_STATE_GET_REFCOUNT (st b) = 0" and unlocked: "\<not> bit (st b) 22"
    and hdr: "hdr p = st(b := st b + BUF_REFCOUNT_ONE)"
  obtains q where "claim_victim b p = Some q" "claimed p q (b, st b + BUF_REFCOUNT_ONE)"
    "hdr q = hdr p" "pol q = pol p" "ctl q = ctl p" "latches q = latches p"
    "case strategy q of None \<Rightarrow> strategy p = None | Some r \<Rightarrow> ring_ok NBuffers r"
proof -
  obtain m where m: "TrackNewBufferPin (BufferDescriptorGetBuffer b) (me p) = Some m"
    "\<And>q s. hdr q = st(b := st b + BUF_REFCOUNT_ONE) \<Longrightarrow> me q = m \<Longrightarrow> s = st b + BUF_REFCOUNT_ONE \<Longrightarrow>
      claimed p q (b, s)"
    using track_claimed [OF p own free unlocked] by blast
  show ?thesis
  proof (cases "strategy p")
    case None
    show ?thesis
      by (rule that [of "p\<lparr>strategy := None, me := m\<rparr>"])
        (use m hdr None in \<open>auto simp: claim_victim_def\<close>)
  next
    case (Some r)
    with ring have "ring_ok NBuffers r" by simp
    then obtain r' where r': "AddBufferToRing b r = Some r'" "ring_ok NBuffers r'"
      using AddBufferToRing_ok b by blast
    show ?thesis
      by (rule that [of "p\<lparr>strategy := Some r', me := m\<rparr>"])
        (use m hdr Some r' in \<open>auto simp: claim_victim_def\<close>)
  qed
qed

section \<open>The ring search\<close>

definition only_hdr :: "'p pool \<Rightarrow> 'p pool \<Rightarrow> bool" where
  "only_hdr p p' \<longleftrightarrow> ctl p' = ctl p \<and> pol p' = pol p \<and> strategy p' = strategy p \<and> me p' = me p \<and>
     latches p' = latches p \<and> own_pins (hdr p') (me p)"

lemma only_hdr_trans: "only_hdr p q \<Longrightarrow> only_hdr q r \<Longrightarrow> only_hdr p r"
  by (simp add: only_hdr_def)

lemma only_hdr_me: "only_hdr p q \<Longrightarrow> me q = me p \<and> pol q = pol p \<and> strategy q = strategy p \<and> ctl q = ctl p \<and> latches q = latches p"
  by (simp add: only_hdr_def)

lemma WaitBufHdrUnlocked_own_pins:
  assumes "respects_pins m E" "own_pins st m"
  shows "case WaitBufHdrUnlocked n E t st b of
      Done (t', st') s \<Rightarrow> own_pins st' m \<and> s = st' b \<and> \<not> bit s 22
    | Raise _ _ \<Rightarrow> False | Spin (t', st') \<Rightarrow> own_pins st' m | Crash \<Rightarrow> False"
  using assms
  by (induction n E t st b rule: WaitBufHdrUnlocked.induct) (auto simp: Let_def own_pins_respected)

definition ring_result_ok :: "nat \<Rightarrow> 'p pool \<Rightarrow> (nat \<times> 'p pool, victim option) run \<Rightarrow> bool" where
  "ring_result_ok buf p R \<longleftrightarrow>
     (case R of
        Done (t', p') None \<Rightarrow> only_hdr p p'
      | Done (t', p') (Some (b, s)) \<Rightarrow> b = buf \<and> claimed p p' (b, s) \<and>
          BUF_STATE_GET_USAGECOUNT s \<le> 1 \<and> pol p' = pol p \<and> strategy p' = strategy p \<and> ctl p' = ctl p \<and> latches p' = latches p
      | Spin (t', p') \<Rightarrow> only_hdr p p' | Raise _ _ \<Rightarrow> False | Crash \<Rightarrow> False)"

lemma claimed_only_hdr: "only_hdr p q \<Longrightarrow> claimed q r v \<Longrightarrow> claimed p r v"
  using only_hdr_me [of p q] by (auto simp: claimed_def)

lemma ring_result_only_hdr:
  assumes "only_hdr p q" "ring_result_ok buf q R"
  shows "ring_result_ok buf p R"
  using assms(2) only_hdr_trans [OF assms(1)] claimed_only_hdr [OF assms(1)] only_hdr_me [OF assms(1)]
  by (auto simp: ring_result_ok_def split: run.splits prod.splits option.splits)

lemma GetBufferFromRing_loop_ok:
  assumes "prc_inv (me p)" "reserved (me p)" "own_pins (hdr p) (me p)" "respects_pins (me p) E"
  shows "ring_result_ok buf p (GetBufferFromRing_loop fuel E t p buf old)"
  using assms
proof (induction fuel arbitrary: t p old)
  case 0
  then show ?case by (simp add: ring_result_ok_def only_hdr_def)
next
  case (Suc fuel)
  let ?st = "E t (hdr p)"
  have own: "own_pins ?st (me p)" using Suc.prems(4,3) by (rule own_pins_respected)
  consider (busy) "BUF_STATE_GET_REFCOUNT old \<noteq> 0 \<or> BUF_STATE_GET_USAGECOUNT old > 1"
    | (locked) "\<not> (BUF_STATE_GET_REFCOUNT old \<noteq> 0 \<or> BUF_STATE_GET_USAGECOUNT old > 1)" "bit old 22"
    | (cas) "BUF_STATE_GET_REFCOUNT old = 0" "\<not> BUF_STATE_GET_USAGECOUNT old > 1" "\<not> bit old 22"
    by blast
  then show ?case
  proof cases
    case busy
    with Suc.prems show ?thesis by (simp add: ring_result_ok_def only_hdr_def)
  next
    case locked
    note W = WaitBufHdrUnlocked_own_pins [OF Suc.prems(4,3), where n = fuel and t = t and b = buf]
    show ?thesis
    proof (cases "WaitBufHdrUnlocked fuel E t (hdr p) buf")
      case (Done ts s)
      obtain t1 st1 where ts: "ts = (t1, st1)" by (cases ts)
      have "ring_result_ok buf (p\<lparr>hdr := st1\<rparr>)
          (GetBufferFromRing_loop fuel E t1 (p\<lparr>hdr := st1\<rparr>) buf s)"
        using Suc.prems Done ts W by (intro Suc.IH) auto
      moreover have "only_hdr p (p\<lparr>hdr := st1\<rparr>)"
        using W Done ts by (simp add: only_hdr_def)
      ultimately show ?thesis
        using locked Done ts by (simp add: ring_result_only_hdr)
    next
      case (Spin ts)
      with W locked show ?thesis
        by (cases ts) (simp add: ring_result_ok_def only_hdr_def)
    qed (use W in auto)
  next
    case cas
    show ?thesis
    proof (cases "?st buf = old")
      case True
      with cas obtain m where m: "TrackNewBufferPin (BufferDescriptorGetBuffer buf) (me p) = Some m"
        "\<And>q s. hdr q = ?st(buf := ?st buf + BUF_REFCOUNT_ONE) \<Longrightarrow> me q = m \<Longrightarrow>
          s = ?st buf + BUF_REFCOUNT_ONE \<Longrightarrow> claimed p q (buf, s)"
        using track_claimed [OF Suc.prems(1,2) own, of buf] by blast
      have "BUF_STATE_GET_USAGECOUNT (old + BUF_REFCOUNT_ONE) = BUF_STATE_GET_USAGECOUNT old"
        using cas by (intro pin_usagecount) simp
      moreover have "BUF_STATE_GET_USAGECOUNT old \<le> 1" using cas by (simp add: not_less)
      ultimately show ?thesis using True cas m
        by (simp add: pg_atomic_compare_exchange_u64_def ring_result_ok_def Let_def)
    next
      case False
      have "ring_result_ok buf (p\<lparr>hdr := ?st\<rparr>)
          (GetBufferFromRing_loop fuel E (Suc t) (p\<lparr>hdr := ?st\<rparr>) buf (?st buf))"
        using Suc.prems own by (intro Suc.IH) auto
      moreover have "only_hdr p (p\<lparr>hdr := ?st\<rparr>)" using own by (simp add: only_hdr_def)
      ultimately show ?thesis
        using cas False by (simp add: pg_atomic_compare_exchange_u64_def ring_result_only_hdr Let_def)
    qed
  qed
qed

definition ring_search_ok ::
    "nat \<Rightarrow> BufferAccessStrategyData \<Rightarrow> 'p pool \<Rightarrow> (nat \<times> 'p pool, victim option) run \<Rightarrow> bool" where
  "ring_search_ok NBuffers r p R \<longleftrightarrow>
     (case R of
        Done (t', p') None \<Rightarrow> pool_ok NBuffers p' \<and> me p' = me p \<and> pol p' = pol p \<and> ctl p' = ctl p \<and>
          strategy p' \<noteq> None \<and> latches p' = latches p
      | Done (t', p') (Some (b, s)) \<Rightarrow>
          b < NBuffers \<and> claimed p p' (b, s) \<and> BUF_STATE_GET_USAGECOUNT s \<le> 1 \<and>
          pol p' = pol p \<and> ctl p' = ctl p \<and> latches p' = latches p \<and>
          (\<exists>r'. strategy p' = Some r' \<and> ring_ok NBuffers r' \<and> buffers r' = buffers r \<and>
             buffers r' (current r') = BufferDescriptorGetBuffer b)
      | Spin (t', p') \<Rightarrow> pool_ok NBuffers p' \<and> me p' = me p \<and> pol p' = pol p \<and> ctl p' = ctl p \<and>
          latches p' = latches p
      | Raise _ _ \<Rightarrow> False | Crash \<Rightarrow> False)"

lemma GetBufferFromRing_ok:
  assumes ok: "pool_ok NBuffers p" and r: "strategy p = Some r" and E: "respects_pins (me p) E"
  shows "ring_search_ok NBuffers r p (GetBufferFromRing NBuffers fuel E t r p)"
proof -
  define cur where "cur = (if Suc (current r) \<ge> nbuffers r then 0 else Suc (current r))"
  define p1 where "p1 = p\<lparr>strategy := Some (r\<lparr>current := cur\<rparr>)\<rparr>"
  have ring: "ring_ok NBuffers (r\<lparr>current := cur\<rparr>)" and cur: "cur < nbuffers r"
    using ok r by (auto simp: pool_ok_def ring_ok_def cur_def)
  show ?thesis
  proof (cases "buffers r cur = InvalidBuffer")
    case True
    with cur ok ring show ?thesis
      by (simp add: GetBufferFromRing_def cur_def [symmetric] Let_def ring_search_ok_def pool_ok_def)
  next
    case False
    define buf where "buf = nat (buffers r cur - 1)"
    have bounds: "1 \<le> buffers r cur" "buffers r cur \<le> int NBuffers"
      using ring cur False by (fastforce simp: ring_ok_def InvalidBuffer_def)+
    then have buf: "buf < NBuffers" "BufferDescriptorGetBuffer buf = buffers r cur"
      by (auto simp: buf_def BufferDescriptorGetBuffer_def)
    let ?p = "p1\<lparr>hdr := E t (hdr p)\<rparr>"
    have own: "own_pins (E t (hdr p)) (me p)"
      using ok E own_pins_respected by (auto simp: pool_ok_def)
    have eq: "GetBufferFromRing NBuffers fuel E t r p =
        GetBufferFromRing_loop fuel E (Suc t) ?p buf (E t (hdr p) buf)"
      using cur False bounds
      by (simp add: GetBufferFromRing_def cur_def [symmetric] Let_def p1_def buf_def)
    have "ring_result_ok buf ?p (GetBufferFromRing_loop fuel E (Suc t) ?p buf (E t (hdr p) buf))"
      by (rule GetBufferFromRing_loop_ok) (use ok E own in \<open>auto simp: p1_def pool_ok_def\<close>)
    then show ?thesis
      using ok ring buf unfolding eq ring_result_ok_def ring_search_ok_def
      by (auto simp: p1_def only_hdr_def pool_ok_def claimed_def
          split: run.splits prod.splits option.splits)
  qed
qed

section \<open>Properties\<close>

lemma GetAccessStrategyWithSize_ok:
  assumes "8 \<le> NBuffers" "8 \<le> kb"
  shows "\<exists>r. GetAccessStrategyWithSize NBuffers bt kb = Some r \<and> ring_ok n r \<and>
    btype r = bt \<and> int (nbuffers r) = min (NBuffers div 8) (kb div 8) \<and> int (nbuffers r) \<le> NBuffers div 8 \<and>
    (\<forall>i. buffers r i = InvalidBuffer)"
proof -
  have "1 \<le> NBuffers div 8" "1 \<le> kb div 8" using assms by simp_all
  then show ?thesis
    by (simp add: GetAccessStrategyWithSize_def BLCKSZ_def Let_def ring_ok_def InvalidBuffer_def)
qed

text \<open>
  C27: Every ring that \<open>GetAccessStrategy\<close> makes is well formed: with at least 8 shared
  buffers, the strategy types other than \<open>BAS_NORMAL\<close> get a nonempty ring of at most an
  eighth of the buffer pool, with its cursor inside and all its slots empty; the pin limit
  the ring allows is positive for a ring of two buffers or more and never above the ring.
\<close>
theorem GetAccessStrategy_ring:
  assumes "8 \<le> NBuffers" "bt \<noteq> BAS_NORMAL" "0 \<le> io_combine_limit" "0 \<le> effective_io_concurrency"
  shows "\<exists>r. GetAccessStrategy NBuffers PinLimit io_combine_limit effective_io_concurrency bt = Some r \<and>
    ring_ok (nat NBuffers) r \<and> btype r = bt \<and> int (nbuffers r) \<le> NBuffers div 8 \<and>
    (\<forall>i. buffers r i = InvalidBuffer) \<and>
    GetAccessStrategyPinLimit (nat NBuffers) (Some r) \<le> GetAccessStrategyBufferCount (Some r) \<and>
    (2 \<le> nbuffers r \<longrightarrow> 1 \<le> GetAccessStrategyPinLimit (nat NBuffers) (Some r))"
proof -
  obtain kb where kb: "8 \<le> kb" "GetAccessStrategy NBuffers PinLimit io_combine_limit effective_io_concurrency bt =
      GetAccessStrategyWithSize NBuffers bt kb"
  proof (cases bt)
    case BAS_BULKREAD
    have "0 \<le> BLCKSZ div 1024 * io_combine_limit * effective_io_concurrency"
      using assms by (simp add: BLCKSZ_def)
    with BAS_BULKREAD show ?thesis
      by (intro that [of "if 256 + BLCKSZ div 1024 * io_combine_limit * effective_io_concurrency
            > max 256 (sint (PinLimit * word_of_int (BLCKSZ div 1024)))
          then max 256 (sint (PinLimit * word_of_int (BLCKSZ div 1024)))
          else 256 + BLCKSZ div 1024 * io_combine_limit * effective_io_concurrency"])
        (auto simp: GetAccessStrategy_def Let_def)
  next
    case BAS_BULKWRITE
    then show ?thesis by (intro that [of "16 * 1024"]) (simp_all add: GetAccessStrategy_def)
  next
    case BAS_VACUUM
    then show ?thesis by (intro that [of 2048]) (simp_all add: GetAccessStrategy_def)
  qed (use assms(2) in simp)
  from GetAccessStrategyWithSize_ok [OF assms(1) kb(1), of bt "nat NBuffers"] kb(2) show ?thesis
    by (auto simp: GetAccessStrategyPinLimit_def GetAccessStrategyBufferCount_def
        split: BufferAccessStrategyType.splits)
qed

theorem GetAccessStrategy_ring_witness:
  "\<exists>r. GetAccessStrategy 16384 1000 16 16 BAS_VACUUM = Some r \<and> ring_ok 16384 r \<and>
     int (nbuffers r) \<le> 2048"
  using GetAccessStrategy_ring [of 16384 BAS_VACUUM 16 16 1000] by auto

text \<open>
  C26: The ring's victim search is safe under every interference that respects this
  backend's pins: it never reads a slot or a descriptor out of range, never raises and never
  violates an assertion. A buffer it returns was unpinned with a usage count of at most one,
  is now pinned once, tracked and remembered for this backend, and is the ring's current
  slot; otherwise the pins, the policy and the strategy counters are unchanged.
\<close>
theorem GetBufferFromRing_safe:
  assumes "pool_ok NBuffers p" and "strategy p = Some r" and "respects_pins (me p) E"
  shows "ring_search_ok NBuffers r p (GetBufferFromRing NBuffers fuel E t r p)"
  using assms by (rule GetBufferFromRing_ok)

theorem GetBufferFromRing_safe_witness:
  "ring_search_ok 16 \<lparr>btype = BAS_VACUUM, nbuffers = 2, current = 1, buffers = (\<lambda>_. 3)\<rparr>
     \<lparr>hdr = (\<lambda>_. 0), ctl = \<lparr>completePasses = 0, numBufferAllocs = 0, bgwprocno = -1\<rparr>, pol = (),
       strategy = Some \<lparr>btype = BAS_VACUUM, nbuffers = 2, current = 1, buffers = (\<lambda>_. 3)\<rparr>,
       me = ReservePrivateRefCountEntry InitPrivateRefCount, latches = []\<rparr>
     (GetBufferFromRing 16 5 quiet 0 \<lparr>btype = BAS_VACUUM, nbuffers = 2, current = 1, buffers = (\<lambda>_. 3)\<rparr>
       \<lparr>hdr = (\<lambda>_. 0), ctl = \<lparr>completePasses = 0, numBufferAllocs = 0, bgwprocno = -1\<rparr>, pol = (),
         strategy = Some \<lparr>btype = BAS_VACUUM, nbuffers = 2, current = 1, buffers = (\<lambda>_. 3)\<rparr>,
         me = ReservePrivateRefCountEntry InitPrivateRefCount, latches = []\<rparr>)"
  by (rule GetBufferFromRing_safe)
    (auto simp: pool_ok_def ring_ok_def own_pins_def respects_pins_def quiet_def Reserve_ok InitPrivateRefCount_inv)

end
