(* ===== verification/Linked_Queue.thy ===== *)
theory Linked_Queue
  imports Prelude
begin

text \<open>
  Doubly linked queues kept in two index arrays, as the SIEVE, LRU and LFU policies of
  \<^verbatim>\<open>freelist.c\<close> keep them. \<open>queue nx pv s xs\<close>: the arrays hold the queue \<open>xs\<close>, oldest
  element first, with sentinel \<open>s\<close>. \<open>nx\<close> leads to the newer neighbour, \<open>pv\<close> to the older
  one, both end in the sentinel, whose own \<open>nx\<close> is the newest element (the head of the
  source) and whose \<open>pv\<close> is the oldest (the tail). The definition is symmetric under
  reversal of the list and exchange of the arrays.
\<close>

primrec path :: "(nat \<Rightarrow> nat) \<Rightarrow> nat list \<Rightarrow> nat \<Rightarrow> bool" where
  "path nx [] s \<longleftrightarrow> True"
| "path nx (x # xs) s \<longleftrightarrow> nx x = hd (xs @ [s]) \<and> path nx xs s"

definition queue :: "(nat \<Rightarrow> nat) \<Rightarrow> (nat \<Rightarrow> nat) \<Rightarrow> nat \<Rightarrow> nat list \<Rightarrow> bool" where
  "queue nx pv s xs \<longleftrightarrow>
     distinct xs \<and> s \<notin> set xs \<and> path nx xs s \<and> path pv (rev xs) s \<and>
     nx s = hd (rev xs @ [s]) \<and> pv s = hd (xs @ [s])"

text \<open>The queue read off the arrays: at most \<open>k\<close> nodes from \<open>x\<close> on towards newer ones.\<close>

primrec walk :: "nat \<Rightarrow> (nat \<Rightarrow> nat) \<Rightarrow> nat \<Rightarrow> nat \<Rightarrow> nat list" where
  "walk 0 nx s x = []"
| "walk (Suc k) nx s x = (if x = s then [] else x # walk k nx s (nx x))"

text \<open>Unlinking a node (and clearing its own links to \<open>c\<close>), and pushing a node at the new end.\<close>

definition unlink_next :: "nat \<Rightarrow> nat \<Rightarrow> nat \<Rightarrow> (nat \<Rightarrow> nat) \<Rightarrow> (nat \<Rightarrow> nat) \<Rightarrow> nat \<Rightarrow> nat" where
  "unlink_next c s x nx pv =
     (let newer = nx x; older = pv x;
          nx = (if newer = s then nx(s := older) else nx);
          nx = (if older = s then nx else nx(older := newer))
      in nx(x := c))"

definition unlink_prev :: "nat \<Rightarrow> nat \<Rightarrow> nat \<Rightarrow> (nat \<Rightarrow> nat) \<Rightarrow> (nat \<Rightarrow> nat) \<Rightarrow> nat \<Rightarrow> nat" where
  "unlink_prev c s x nx pv =
     (let newer = nx x; older = pv x;
          pv = (if newer = s then pv else pv(newer := older));
          pv = (if older = s then pv(s := newer) else pv)
      in pv(x := c))"

definition push_next :: "nat \<Rightarrow> nat \<Rightarrow> (nat \<Rightarrow> nat) \<Rightarrow> nat \<Rightarrow> nat" where
  "push_next s x nx =
     (let old_head = nx s; nx = nx(x := s)
      in (if old_head = s then nx else nx(old_head := x))(s := x))"

definition push_prev :: "nat \<Rightarrow> nat \<Rightarrow> (nat \<Rightarrow> nat) \<Rightarrow> (nat \<Rightarrow> nat) \<Rightarrow> nat \<Rightarrow> nat" where
  "push_prev s x nx pv =
     (let old_head = nx s; pv = pv(x := old_head) in if old_head = s then pv(s := x) else pv)"

section \<open>Paths\<close>

lemma path_append: "path nx (xs @ ys) s \<longleftrightarrow> path nx xs (hd (ys @ [s])) \<and> path nx ys s"
  by (induction xs) (auto simp: hd_append)

lemma path_upd [simp]: "x \<notin> set xs \<Longrightarrow> path (nx(x := v)) xs s \<longleftrightarrow> path nx xs s"
  by (induction xs) auto

lemma path_cong: "(\<And>x. x \<in> set xs \<Longrightarrow> nx x = nx' x) \<Longrightarrow> path nx xs s = path nx' xs s"
  by (induction xs) auto

lemma path_nth: "path nx xs s \<Longrightarrow> i < length xs \<Longrightarrow> nx (xs ! i) = (xs @ [s]) ! Suc i"
proof (induction xs arbitrary: i)
  case (Cons x xs)
  then show ?case
    by (cases i) (auto simp: hd_conv_nth)
qed simp

lemma path_mem: "path nx xs s \<Longrightarrow> x \<in> set xs \<Longrightarrow> nx x = s \<or> nx x \<in> set xs"
  by (induction xs) (auto simp: hd_append split: if_splits)

lemma path_snoc_upd:
  assumes "path nx (xs @ [a]) s" "a \<notin> set xs"
  shows "path (nx(a := v)) (xs @ [a]) v"
  using assms by (auto simp: path_append)

lemma walk_path: "path nx xs s \<Longrightarrow> s \<notin> set xs \<Longrightarrow> length xs \<le> k \<Longrightarrow> walk k nx s (hd (xs @ [s])) = xs"
proof (induction k arbitrary: xs)
  case (Suc k)
  then show ?case by (cases xs) auto
qed simp

section \<open>Queues\<close>

lemma queue_walk: "queue nx pv s xs \<Longrightarrow> length xs \<le> k \<Longrightarrow> walk k nx s (pv s) = xs"
  using walk_path [of nx xs s k] by (simp add: queue_def)

lemma queue_distinct: "queue nx pv s xs \<Longrightarrow> distinct xs"
  and queue_sentinel: "queue nx pv s xs \<Longrightarrow> s \<notin> set xs"
  by (auto simp: queue_def)

lemma queue_sym: "queue nx pv s xs \<longleftrightarrow> queue pv nx s (rev xs)"
  by (auto simp: queue_def)

lemma queue_head: "queue nx pv s xs \<Longrightarrow> nx s = (if xs = [] then s else last xs)"
  by (auto simp: queue_def hd_append hd_rev)

lemma queue_tail: "queue nx pv s xs \<Longrightarrow> pv s = (if xs = [] then s else hd xs)"
  by (auto simp: queue_def hd_append)

lemma queue_next_mem: "queue nx pv s xs \<Longrightarrow> x \<in> insert s (set xs) \<Longrightarrow> nx x \<in> insert s (set xs)"
  using path_mem [of nx xs s x] queue_head [of nx pv s xs] by (auto simp: queue_def split: if_splits)

lemma queue_prev_mem: "queue nx pv s xs \<Longrightarrow> x \<in> insert s (set xs) \<Longrightarrow> pv x \<in> insert s (set xs)"
  using queue_next_mem [of pv nx s "rev xs" x] by (simp add: queue_sym [of nx])

lemma queue_next_nth:
  "queue nx pv s xs \<Longrightarrow> i < length xs \<Longrightarrow> nx (xs ! i) = (if Suc i < length xs then xs ! Suc i else s)"
  using path_nth [of nx xs s i] by (auto simp: queue_def nth_append)

lemma queue_cong:
  assumes "\<And>x. x \<in> insert s (set xs) \<Longrightarrow> nx x = nx' x \<and> pv x = pv' x"
  shows "queue nx pv s xs = queue nx' pv' s xs"
  using assms path_cong [of xs nx nx' s] path_cong [of "rev xs" pv pv' s] by (auto simp: queue_def)

lemma queue_neighbours:
  assumes "queue nx pv s (as @ x # bs)"
  shows "nx x = hd (bs @ [s])" "pv x = hd (rev as @ [s])"
  using assms by (auto simp: queue_def path_append)

text \<open>A node is recognised as linked by its own links and the head, as the source tests it.\<close>

lemma queue_member_test:
  assumes q: "queue nx pv s xs" and off: "x \<notin> set xs \<Longrightarrow> nx x = s \<and> pv x = s" and "x \<noteq> s"
  shows "(nx x \<noteq> s \<or> pv x \<noteq> s \<or> nx s = x) \<longleftrightarrow> x \<in> set xs"
proof (cases "x \<in> set xs")
  case False
  with off q show ?thesis using queue_head [OF q] assms(3) by (auto split: if_splits)
next
  case True
  then obtain as bs where xs: "xs = as @ x # bs" by (auto dest: split_list)
  note n = queue_neighbours [OF q [unfolded xs]]
  show ?thesis
  proof (cases "as = [] \<and> bs = []")
    case True
    then show ?thesis using queue_head [OF q] xs by simp
  next
    case False
    have "set as \<union> set bs \<subseteq> set xs" "s \<notin> set xs" using q by (auto simp: xs queue_def)
    then have "nx x \<noteq> s \<or> pv x \<noteq> s" using n False
      by (cases as rule: rev_cases; cases bs) auto
    with \<open>x \<in> set xs\<close> show ?thesis by blast
  qed
qed

lemma path_upt:
  assumes "\<And>i. i < n \<Longrightarrow> nx i = (if Suc i < n then Suc i else n)" and "i \<le> n"
  shows "path nx [i..<n] n"
  using assms(2)
proof (induction rule: inc_induct)
  case (step i)
  then show ?case using assms(1) [of i]
    by (cases "Suc i < n") (simp_all add: upt_conv_Cons)
qed simp

lemma path_downto:
  assumes "\<And>i. i < n \<Longrightarrow> pv i = (if 0 < i then i - 1 else n)" and "i \<le> n"
  shows "path pv (rev [0..<i]) n"
  using assms(2)
proof (induction i)
  case (Suc i)
  then show ?case using assms(1) [of i] by (cases i) simp_all
qed simp

lemma queue_init:
  assumes "\<And>i. i < n \<Longrightarrow> nx i = (if Suc i < n then Suc i else n)"
    and "\<And>i. i < n \<Longrightarrow> pv i = (if 0 < i then i - 1 else n)"
    and "0 < n" "nx n = n - 1" "pv n = 0"
  shows "queue nx pv n [0..<n]"
  using path_upt [of n nx 0, OF assms(1)] path_downto [of n pv n, OF assms(2)] assms(3-5)
  by (cases n) (simp_all add: queue_def hd_append del: upt_Suc, simp add: upt_conv_Cons)

lemma queue_unlink:
  assumes q: "queue nx pv s xs" and x: "x \<in> set xs"
  shows "queue (unlink_next c s x nx pv) (unlink_prev c s x nx pv) s (remove1 x xs)"
proof -
  from x obtain as bs where xs: "xs = as @ x # bs" and as: "x \<notin> set as" by (auto dest: split_list_first)
  then have rem: "remove1 x xs = as @ bs" by (simp add: remove1_append)
  note n = queue_neighbours [OF q [unfolded xs]]
  have d: "distinct (as @ x # bs)" "s \<notin> set (as @ x # bs)"
    and p: "path nx as x" "path nx bs s" "path pv (rev bs) x" "path pv (rev as) s"
    and ends: "nx s = hd (rev bs @ x # rev as @ [s])" "pv s = hd (as @ x # bs @ [s])"
    using q by (auto simp: queue_def xs path_append)
  show ?thesis
    unfolding rem
    using d p ends n
    by (cases as rule: rev_cases; cases bs)
      (auto simp: queue_def unlink_next_def unlink_prev_def Let_def path_append hd_append)
qed

lemma queue_push:
  assumes q: "queue nx pv s xs" and x: "x \<notin> set xs" "x \<noteq> s"
  shows "queue (push_next s x nx) (push_prev s x nx pv) s (xs @ [x])"
  using assms
  by (cases xs rule: rev_cases)
    (auto simp: queue_def push_next_def push_prev_def Let_def path_append hd_append)

text \<open>Both operations write only nodes of the queue, the sentinel and the node itself.\<close>

lemma unlink_frame:
  assumes q: "queue nx pv s xs" and x: "x \<in> set xs" and y: "y \<notin> insert s (set xs)"
  shows "unlink_next c s x nx pv y = nx y" "unlink_prev c s x nx pv y = pv y"
  using queue_next_mem [OF q, of x] queue_prev_mem [OF q, of x] x y
  by (auto simp: unlink_next_def unlink_prev_def Let_def)

lemma unlink_self [simp]:
  "unlink_next c s x nx pv x = c" "unlink_prev c s x nx pv x = c"
  by (simp_all add: unlink_next_def unlink_prev_def Let_def)

lemma push_frame:
  assumes q: "queue nx pv s xs" and y: "y \<notin> insert s (insert x (set xs))"
  shows "push_next s x nx y = nx y" "push_prev s x nx pv y = pv y"
  using queue_next_mem [OF q, of s] y by (auto simp: push_next_def push_prev_def Let_def)

text \<open>Queues that share the arrays but no node do not disturb each other.\<close>

lemma unlink_other:
  assumes q: "queue nx pv s xs" and x: "x \<in> set xs"
    and q': "queue nx pv s' ys" "insert s' (set ys) \<inter> insert s (set xs) = {}"
  shows "queue (unlink_next c s x nx pv) (unlink_prev c s x nx pv) s' ys"
proof -
  have "nx y = unlink_next c s x nx pv y \<and> pv y = unlink_prev c s x nx pv y" if "y \<in> insert s' (set ys)" for y
  proof -
    have "y \<notin> insert s (set xs)" using that q'(2) by blast
    from unlink_frame [OF q x this] show ?thesis by simp
  qed
  from queue_cong [of s' ys, OF this] q'(1) show ?thesis by simp
qed

lemma push_other:
  assumes q: "queue nx pv s xs" and q': "queue nx pv s' ys" "insert s' (set ys) \<inter> insert s (insert x (set xs)) = {}"
  shows "queue (push_next s x nx) (push_prev s x nx pv) s' ys"
proof -
  have "nx y = push_next s x nx y \<and> pv y = push_prev s x nx pv y" if "y \<in> insert s' (set ys)" for y
  proof -
    have "y \<notin> insert s (insert x (set xs))" using that q'(2) by blast
    from push_frame [OF q this] show ?thesis by simp
  qed
  from queue_cong [of s' ys, OF this] q'(1) show ?thesis by simp
qed

end
