(* ===== verification/Victim_Search.thy ===== *)
theory Victim_Search
  imports Buffer_Ring Linked_Queue
begin

unbundle bit_operations_syntax

text \<open>
  What the four victim searches of \<^verbatim>\<open>freelist.c\<close> have in common. While a policy searches,
  only header words (other backends included), its own shared memory and the pass count
  move (\<open>searching\<close>); a search that returns has pinned exactly its victim for the backend
  and taken at most the victim off the policy's books (\<open>victim_ok\<close>). Both are stated for
  an invariant \<open>ok\<close> and the set \<open>mem\<close> of buffers the policy can choose from, the
  parameters of the policies' interface.
\<close>

section \<open>Searches\<close>

abbreviation unpinned :: "states \<Rightarrow> nat \<Rightarrow> bool" where
  "unpinned st b \<equiv> BUF_STATE_GET_REFCOUNT (st b) = 0"

definition searching ::
    "('p \<Rightarrow> bool) \<Rightarrow> ('p \<Rightarrow> nat set) \<Rightarrow> 'p pool \<Rightarrow> 'p pool \<Rightarrow> bool" where
  "searching ok mem p q \<longleftrightarrow>
     ok (pol q) \<and> mem (pol q) = mem (pol p) \<and> strategy q = strategy p \<and> me q = me p \<and>
     own_pins (hdr q) (me p) \<and> numBufferAllocs (ctl q) = numBufferAllocs (ctl p) \<and>
     bgwprocno (ctl q) = bgwprocno (ctl p) \<and> latches q = latches p"

definition victim_taken ::
    "nat \<Rightarrow> ('p \<Rightarrow> bool) \<Rightarrow> ('p \<Rightarrow> nat set) \<Rightarrow> 'p pool \<Rightarrow> 'p pool \<Rightarrow> victim \<Rightarrow> bool" where
  "victim_taken NBuffers ok mem p q v \<longleftrightarrow>
     fst v < NBuffers \<and> fst v \<in> mem (pol p) \<and> claimed p q v \<and> ok (pol q) \<and>
     mem (pol q) \<subseteq> mem (pol p) \<and> mem (pol p) \<subseteq> insert (fst v) (mem (pol q)) \<and>
     (case strategy q of None \<Rightarrow> strategy p = None | Some r \<Rightarrow> ring_ok NBuffers r) \<and>
     numBufferAllocs (ctl q) = numBufferAllocs (ctl p) \<and> bgwprocno (ctl q) = bgwprocno (ctl p) \<and>
     latches q = latches p"

definition victim_ok ::
    "nat \<Rightarrow> ('p \<Rightarrow> bool) \<Rightarrow> ('p \<Rightarrow> nat set) \<Rightarrow> 'p pool \<Rightarrow> (nat \<times> 'p pool, victim) run \<Rightarrow> bool" where
  "victim_ok NBuffers ok mem p R \<longleftrightarrow>
     (case R of
        Done (t', q) v \<Rightarrow> victim_taken NBuffers ok mem p q v
      | Raise (t', q) e \<Rightarrow> searching ok mem p q
      | Spin (t', q) \<Rightarrow> searching ok mem p q
      | Crash \<Rightarrow> False)"

definition search_pre :: "nat \<Rightarrow> ('p \<Rightarrow> bool) \<Rightarrow> interference \<Rightarrow> 'p pool \<Rightarrow> bool" where
  "search_pre NBuffers ok E p \<longleftrightarrow> pool_ok NBuffers p \<and> ok (pol p) \<and> respects_pins (me p) E"

definition pin_state :: "nat \<Rightarrow> states \<Rightarrow> states" where
  "pin_state b st = st(b := st b + BUF_REFCOUNT_ONE)"

lemma searching_refl: "search_pre N ok E p \<Longrightarrow> searching ok mem p p"
  by (simp add: searching_def search_pre_def pool_ok_def)

lemma searching_pre: "search_pre N ok E p \<Longrightarrow> searching ok mem p q \<Longrightarrow> search_pre N ok E q"
  by (auto simp: searching_def search_pre_def pool_ok_def)

lemma searching_trans: "searching ok mem p q \<Longrightarrow> searching ok mem q r \<Longrightarrow> searching ok mem p r"
  by (simp add: searching_def)

lemma searching_hdr:
  "search_pre N ok E p \<Longrightarrow> own_pins st (me p) \<Longrightarrow> searching ok mem p (p\<lparr>hdr := st\<rparr>)"
  by (simp add: searching_def search_pre_def)

lemma searching_pol:
  "search_pre N ok E p \<Longrightarrow> own_pins st (me p) \<Longrightarrow> ok s \<Longrightarrow> mem s = mem (pol p) \<Longrightarrow>
    searching ok mem p (p\<lparr>hdr := st, pol := s\<rparr>)"
  by (simp add: searching_def)

lemma search_pre_own_pins: "search_pre N ok E p \<Longrightarrow> own_pins (E t (hdr p)) (me p)"
  by (auto simp: search_pre_def pool_ok_def own_pins_respected)

lemma victim_ok_step:
  assumes "searching ok mem p q" "victim_ok N ok mem q R"
  shows "victim_ok N ok mem p R"
  using assms
  by (auto simp: victim_ok_def victim_taken_def searching_def claimed_def
      split: run.splits prod.splits option.splits)

text \<open>
  The continuation of a search in a later state: it is enough that the step there was part
  of a search.
\<close>

lemma victim_ok_continue:
  assumes "search_pre N ok E p" "searching ok mem p q"
    and "search_pre N ok E q \<Longrightarrow> victim_ok N ok mem q R"
  shows "victim_ok N ok mem p R"
  using assms searching_pre victim_ok_step by blast

lemma victim_ok_Raise: "searching ok mem p q \<Longrightarrow> victim_ok N ok mem p (Raise (t, q) e)"
  and victim_ok_Spin: "searching ok mem p q \<Longrightarrow> victim_ok N ok mem p (Spin (t, q))"
  by (simp_all add: victim_ok_def)

text \<open>Lowering usage counts leaves every pin in place.\<close>

lemma own_pins_same_refcount:
  "own_pins st m \<Longrightarrow> BUF_STATE_GET_REFCOUNT s = BUF_STATE_GET_REFCOUNT (st b) \<Longrightarrow> own_pins (st(b := s)) m"
  by (auto simp: own_pins_def)

text \<open>The compare-and-exchange that takes the victim, and what the policies do after it.\<close>

lemma claim_search:
  assumes pre: "search_pre N ok E p" and b: "b < N" "b \<in> mem (pol p)"
    and free: "BUF_STATE_GET_REFCOUNT s = 0" "\<not> bit s 22" and s: "E t (hdr p) b = s"
    and pol: "ok pol'" "mem pol' \<subseteq> mem (pol p)" "mem (pol p) \<subseteq> insert b (mem pol')"
  obtains q where
    "claim_victim b (p\<lparr>hdr := (E t (hdr p))(b := s + BUF_REFCOUNT_ONE), pol := pol'\<rparr>) = Some q"
    "victim_taken N ok mem p q (b, s + BUF_REFCOUNT_ONE)"
    "hdr q = (E t (hdr p))(b := s + BUF_REFCOUNT_ONE)" "pol q = pol'" "ctl q = ctl p"
proof -
  let ?p = "p\<lparr>hdr := (E t (hdr p))(b := s + BUF_REFCOUNT_ONE), pol := pol'\<rparr>"
  have "prc_inv (me ?p)" "reserved (me ?p)" "own_pins (E t (hdr p)) (me ?p)"
    "case strategy ?p of None \<Rightarrow> True | Some r \<Rightarrow> ring_ok N r"
    using pre search_pre_own_pins [OF pre] by (auto simp: search_pre_def pool_ok_def)
  from claim_victim_ok [OF this, of b] b free s
  obtain q where "claim_victim b ?p = Some q" "claimed ?p q (b, s + BUF_REFCOUNT_ONE)"
    "hdr q = hdr ?p" "pol q = pol ?p" "ctl q = ctl ?p" "latches q = latches ?p"
    "case strategy q of None \<Rightarrow> strategy ?p = None | Some r \<Rightarrow> ring_ok N r"
    by auto
  with b pol that [of q] show ?thesis
    by (simp add: victim_taken_def claimed_def split: option.splits)
qed

text \<open>Waiting for a header lock is part of a search.\<close>

lemma wait_searching:
  assumes pre: "search_pre N ok E p" and own: "own_pins st (me p)"
  shows "case WaitBufHdrUnlocked n E t st b of
      Done (t', st') s \<Rightarrow> searching ok mem p (p\<lparr>hdr := st'\<rparr>) \<and> s = st' b \<and> \<not> bit s 22
    | Raise _ _ \<Rightarrow> False | Spin (t', st') \<Rightarrow> searching ok mem p (p\<lparr>hdr := st'\<rparr>) | Crash \<Rightarrow> False"
proof -
  have "respects_pins (me p) E" using pre by (simp add: search_pre_def)
  from WaitBufHdrUnlocked_own_pins [OF this own, where n = n and t = t and b = b] show ?thesis
    by (auto intro!: searching_hdr [OF pre] split: run.splits prod.splits)
qed

section \<open>A backend that starts\<close>

text \<open>
  A backend that has just attached holds no pin, so nothing constrains the others; used at
  concrete inputs of the properties.
\<close>

definition fresh_backend :: backend where
  "fresh_backend = ReservePrivateRefCountEntry InitPrivateRefCount"

definition fresh_pool :: "states \<Rightarrow> 'p \<Rightarrow> 'p pool" where
  "fresh_pool st s =
     \<lparr>hdr = st, ctl = \<lparr>completePasses = 0, numBufferAllocs = 0, bgwprocno = -1\<rparr>, pol = s,
      strategy = None, me = fresh_backend, latches = []\<rparr>"

lemma fresh_pool_fields [simp]:
  "hdr (fresh_pool st s) = st" "pol (fresh_pool st s) = s" "strategy (fresh_pool st s) = None"
  "me (fresh_pool st s) = fresh_backend"
  by (simp_all add: fresh_pool_def)

lemma fresh_backend_ok: "prc_inv fresh_backend" "reserved fresh_backend" "refs fresh_backend = Map.empty"
  using Reserve_ok [OF InitPrivateRefCount_inv(1)]
  by (simp_all add: fresh_backend_def InitPrivateRefCount_inv(2))

lemma upt_small: "[0..<2] = [0, 1]" "[0..<3] = [0, 1, 2]"
  by (simp_all add: upt_rec numeral_2_eq_2 numeral_3_eq_3)

lemma fresh_search_pre: "ok s \<Longrightarrow> search_pre N ok E (fresh_pool st s)"
  using fresh_backend_ok
  by (simp add: search_pre_def pool_ok_def fresh_pool_def respects_pins_def own_pins_def)

end
