(* ===== verification/Clock_Sweep.thy ===== *)
theory Clock_Sweep
  imports Victim_Search
begin

unbundle bit_operations_syntax

text \<open>
  The clock sweep of \<^verbatim>\<open>freelist.c\<close>, the default policy. Its hand \<open>nextVictimBuffer\<close> is
  shared without a lock: the parameter \<open>H\<close> is what the other backends do to it, \<open>H t\<close>
  applied before the \<open>t\<close>-th atomic access as \<open>E t\<close> is to the header words. The hand keeps
  its 32-bit width; the remainder modulo \<open>NBuffers\<close> is the clock position.
\<close>

record ClockSweepState =
  nextVictimBuffer :: uint32

type_synonym hand_interference = "nat \<Rightarrow> uint32 \<Rightarrow> uint32"

section \<open>The operations\<close>

definition ClockSweepInitialize :: "nat \<Rightarrow> bool \<Rightarrow> ClockSweepState \<Rightarrow> ClockSweepState option" where
  "ClockSweepInitialize NBuffers found s = (if \<not> found then Some (s\<lparr>nextVictimBuffer := 0\<rparr>) else Some s)"

text \<open>The loop that wraps the hand and counts the pass, under the strategy spinlock.\<close>

fun ClockSweepTick_wrap ::
    "nat \<Rightarrow> nat \<Rightarrow> hand_interference \<Rightarrow> nat \<Rightarrow> ClockSweepState pool \<Rightarrow> uint32
     \<Rightarrow> (nat \<times> ClockSweepState pool, unit) run" where
  "ClockSweepTick_wrap 0 NBuffers H t p expected = Spin (t, p)"
| "ClockSweepTick_wrap (Suc fuel) NBuffers H t p expected =
     (let wrapped = expected mod of_nat NBuffers; found = H t (nextVictimBuffer (pol p))
      in if found = expected
         then Done (Suc t, p\<lparr>pol := (pol p)\<lparr>nextVictimBuffer := wrapped\<rparr>,
                           ctl := (ctl p)\<lparr>completePasses := completePasses (ctl p) + 1\<rparr>\<rparr>) ()
         else ClockSweepTick_wrap fuel NBuffers H (Suc t)
                (p\<lparr>pol := (pol p)\<lparr>nextVictimBuffer := found\<rparr>\<rparr>) found)"

definition ClockSweepTick ::
    "nat \<Rightarrow> nat \<Rightarrow> hand_interference \<Rightarrow> nat \<Rightarrow> ClockSweepState pool
     \<Rightarrow> (nat \<times> ClockSweepState pool, uint32) run" where
  "ClockSweepTick fuel NBuffers H t p =
     (let victim = H t (nextVictimBuffer (pol p));
          p1 = p\<lparr>pol := (pol p)\<lparr>nextVictimBuffer := victim + 1\<rparr>\<rparr>
      in if victim \<ge> of_nat NBuffers
         then let originalVictim = victim; victim = victim mod of_nat NBuffers
              in if victim = 0
                 then (case ClockSweepTick_wrap fuel NBuffers H (Suc t) p1 (originalVictim + 1) of
                         Done s _ \<Rightarrow> Done s victim
                       | Raise s e \<Rightarrow> Raise s e
                       | Spin s \<Rightarrow> Spin s
                       | Crash \<Rightarrow> Crash)
                 else Done (Suc t, p1) victim
         else Done (Suc t, p1) victim)"

text \<open>What the inner loop ends with: the victim, or on to the next buffer with a try counter.\<close>

datatype sweep = Victim victim | NextBuffer int

fun ClockSweepGetBuffer_inner ::
    "nat \<Rightarrow> nat \<Rightarrow> interference \<Rightarrow> nat \<Rightarrow> ClockSweepState pool \<Rightarrow> nat \<Rightarrow> uint64 \<Rightarrow> int
     \<Rightarrow> (nat \<times> ClockSweepState pool, sweep) run" where
  "ClockSweepGetBuffer_inner 0 NBuffers E t p buf old_buf_state trycounter = Spin (t, p)"
| "ClockSweepGetBuffer_inner (Suc fuel) NBuffers E t p buf old_buf_state trycounter =
     (if BUF_STATE_GET_REFCOUNT old_buf_state \<noteq> 0
      then (if trycounter - 1 = 0 then Raise (t, p) NoUnpinnedBuffersAvailable
            else Done (t, p) (NextBuffer (trycounter - 1)))
      else if old_buf_state AND BM_LOCKED \<noteq> 0
      then (case WaitBufHdrUnlocked fuel E t (hdr p) buf of
              Done (t1, st1) s \<Rightarrow>
                ClockSweepGetBuffer_inner fuel NBuffers E t1 (p\<lparr>hdr := st1\<rparr>) buf s trycounter
            | Raise (t1, st1) e \<Rightarrow> Raise (t1, p\<lparr>hdr := st1\<rparr>) e
            | Spin (t1, st1) \<Rightarrow> Spin (t1, p\<lparr>hdr := st1\<rparr>)
            | Crash \<Rightarrow> Crash)
      else if BUF_STATE_GET_USAGECOUNT old_buf_state \<noteq> 0
      then let local_buf_state = old_buf_state - BUF_USAGECOUNT_ONE;
               (success, found, st1) =
                 pg_atomic_compare_exchange_u64 (E t (hdr p)) buf old_buf_state local_buf_state
           in if success then Done (Suc t, p\<lparr>hdr := st1\<rparr>) (NextBuffer (int NBuffers))
              else ClockSweepGetBuffer_inner fuel NBuffers E (Suc t) (p\<lparr>hdr := st1\<rparr>) buf found trycounter
      else let local_buf_state = old_buf_state + BUF_REFCOUNT_ONE;
               (success, found, st1) =
                 pg_atomic_compare_exchange_u64 (E t (hdr p)) buf old_buf_state local_buf_state
           in if success
              then (case claim_victim buf (p\<lparr>hdr := st1\<rparr>) of
                      None \<Rightarrow> Crash
                    | Some q \<Rightarrow> Done (Suc t, q) (Victim (buf, local_buf_state)))
              else ClockSweepGetBuffer_inner fuel NBuffers E (Suc t) (p\<lparr>hdr := st1\<rparr>) buf found trycounter)"

fun ClockSweepGetBuffer_loop ::
    "nat \<Rightarrow> nat \<Rightarrow> hand_interference \<Rightarrow> interference \<Rightarrow> nat \<Rightarrow> ClockSweepState pool \<Rightarrow> int
     \<Rightarrow> (nat \<times> ClockSweepState pool, victim) run" where
  "ClockSweepGetBuffer_loop 0 NBuffers H E t p trycounter = Spin (t, p)"
| "ClockSweepGetBuffer_loop (Suc fuel) NBuffers H E t p trycounter =
     (case ClockSweepTick fuel NBuffers H t p of
        Done (t1, p1) victim \<Rightarrow>
          if unat victim \<ge> NBuffers then Crash
          else let buf = unat victim; st1 = E t1 (hdr p1)
          in (case ClockSweepGetBuffer_inner fuel NBuffers E (Suc t1) (p1\<lparr>hdr := st1\<rparr>) buf (st1 buf) trycounter of
                Done s (Victim v) \<Rightarrow> Done s v
              | Done (t2, p2) (NextBuffer k) \<Rightarrow> ClockSweepGetBuffer_loop fuel NBuffers H E t2 p2 k
              | Raise s e \<Rightarrow> Raise s e
              | Spin s \<Rightarrow> Spin s
              | Crash \<Rightarrow> Crash)
      | Raise s e \<Rightarrow> Raise s e
      | Spin s \<Rightarrow> Spin s
      | Crash \<Rightarrow> Crash)"

definition ClockSweepGetBuffer ::
    "hand_interference \<Rightarrow> nat \<Rightarrow> nat \<Rightarrow> interference \<Rightarrow> nat \<Rightarrow> ClockSweepState pool
     \<Rightarrow> (nat \<times> ClockSweepState pool, victim) run" where
  "ClockSweepGetBuffer H NBuffers fuel E t p =
     ClockSweepGetBuffer_loop fuel NBuffers H E t p (int NBuffers)"

section \<open>Searching under interference\<close>

text \<open>Every buffer is always a candidate; the hand may hold any value.\<close>

definition clock_ok :: "nat \<Rightarrow> ClockSweepState \<Rightarrow> bool" where
  "clock_ok NBuffers s \<longleftrightarrow> 0 < NBuffers \<and> NBuffers < 2 ^ 31"

abbreviation clock_mem :: "nat \<Rightarrow> ClockSweepState \<Rightarrow> nat set" where
  "clock_mem N s \<equiv> {..<N}"

text \<open>A tick moves the hand and possibly counts a pass.\<close>

definition clock_hand_moved :: "ClockSweepState pool \<Rightarrow> ClockSweepState pool \<Rightarrow> bool" where
  "clock_hand_moved p q \<longleftrightarrow>
     hdr q = hdr p \<and> strategy q = strategy p \<and> me q = me p \<and>
     numBufferAllocs (ctl q) = numBufferAllocs (ctl p) \<and> bgwprocno (ctl q) = bgwprocno (ctl p) \<and>
     latches q = latches p"

lemma clock_hand_moved_searching:
  "search_pre N (clock_ok N) E p \<Longrightarrow> clock_hand_moved p q \<Longrightarrow> searching (clock_ok N) (clock_mem N) p q"
  by (simp add: searching_def search_pre_def pool_ok_def clock_ok_def clock_hand_moved_def)

lemma ClockSweepTick_wrap_moves:
  "case ClockSweepTick_wrap fuel N H t p e of
     Done (t', q) _ \<Rightarrow> clock_hand_moved p q | Spin (t', q) \<Rightarrow> clock_hand_moved p q | _ \<Rightarrow> False"
proof (induction fuel arbitrary: t p e)
  case (Suc fuel)
  let ?f = "H t (nextVictimBuffer (pol p))"
  from Suc.IH [where t = "Suc t" and p = "p\<lparr>pol := (pol p)\<lparr>nextVictimBuffer := ?f\<rparr>\<rparr>" and e = ?f] show ?case
    by (auto simp: Let_def clock_hand_moved_def split: run.splits prod.splits)
qed (simp add: clock_hand_moved_def)

lemma unat_mod_of_nat:
  assumes "0 < N" "N < 2 ^ 31"
  shows "unat ((w :: uint32) mod of_nat N) = unat w mod N"
  using assms by (simp add: unat_mod_distrib unat_of_nat take_bit_eq_mod)

lemma ClockSweepTick_moves:
  assumes "0 < N" "N < 2 ^ 31"
  shows "case ClockSweepTick fuel N H t p of
     Done (t', q) v \<Rightarrow> clock_hand_moved p q \<and> unat v < N | Spin (t', q) \<Rightarrow> clock_hand_moved p q | _ \<Rightarrow> False"
proof -
  let ?v = "H t (nextVictimBuffer (pol p))"
  let ?p = "p\<lparr>pol := (pol p)\<lparr>nextVictimBuffer := ?v + 1\<rparr>\<rparr>"
  note W = ClockSweepTick_wrap_moves [where fuel = fuel and N = N and H = H and t = "Suc t" and p = ?p and e = "?v + 1"]
  have m: "unat (?v mod of_nat N) < N" using assms by (simp add: unat_mod_of_nat)
  have "unat ?v < N" if "\<not> of_nat N \<le> ?v"
    using that assms by (simp add: word_le_nat_alt unat_of_nat take_bit_eq_mod)
  then show ?thesis using m W assms(1)
    by (auto simp: ClockSweepTick_def Let_def clock_hand_moved_def split: run.splits prod.splits)
qed

definition sweep_ok :: "nat \<Rightarrow> ClockSweepState pool \<Rightarrow> (nat \<times> ClockSweepState pool, sweep) run \<Rightarrow> bool" where
  "sweep_ok N p R \<longleftrightarrow>
     (case R of
        Done (t', q) (Victim v) \<Rightarrow> victim_taken N (clock_ok N) (clock_mem N) p q v
      | Done (t', q) (NextBuffer k) \<Rightarrow> searching (clock_ok N) (clock_mem N) p q
      | Raise (t', q) e \<Rightarrow> searching (clock_ok N) (clock_mem N) p q
      | Spin (t', q) \<Rightarrow> searching (clock_ok N) (clock_mem N) p q
      | Crash \<Rightarrow> False)"

lemma sweep_ok_step:
  assumes "searching (clock_ok N) (clock_mem N) p q" "sweep_ok N q R"
  shows "sweep_ok N p R"
  using assms
  by (auto simp: sweep_ok_def victim_taken_def searching_def claimed_def
      split: run.splits prod.splits sweep.splits option.splits)

lemma ClockSweepGetBuffer_inner_ok:
  assumes "search_pre N (clock_ok N) E p" "b < N"
  shows "sweep_ok N p (ClockSweepGetBuffer_inner fuel N E t p b old k)"
  using assms(1)
proof (induction fuel arbitrary: t p old)
  case 0
  then show ?case by (simp add: sweep_ok_def searching_refl)
next
  case (Suc fuel)
  let ?st = "E t (hdr p)"
  note pre = Suc.prems(1)
  have own: "own_pins ?st (me p)" using pre by (rule search_pre_own_pins)
  have refl: "searching (clock_ok N) (clock_mem N) p p" using pre by (rule searching_refl)
  have cont: "sweep_ok N p (ClockSweepGetBuffer_inner fuel N E t' (p\<lparr>hdr := st\<rparr>) b old' k)"
    if "own_pins st (me p)" for st t' old'
    using sweep_ok_step [OF searching_hdr [OF pre that] Suc.IH [OF searching_pre [OF pre searching_hdr [OF pre that]]]] .
  consider (pinned) "BUF_STATE_GET_REFCOUNT old \<noteq> 0" | (locked) "BUF_STATE_GET_REFCOUNT old = 0" "bit old 22"
    | (used) "BUF_STATE_GET_REFCOUNT old = 0" "\<not> bit old 22" "BUF_STATE_GET_USAGECOUNT old \<noteq> 0"
    | (free) "BUF_STATE_GET_REFCOUNT old = 0" "\<not> bit old 22" "BUF_STATE_GET_USAGECOUNT old = 0" by blast
  then show ?case
  proof cases
    case pinned
    with refl show ?thesis by (simp add: sweep_ok_def)
  next
    case locked
    have own0: "own_pins (hdr p) (me p)" using pre by (simp add: search_pre_def pool_ok_def)
    note W = wait_searching [OF pre own0, where n = fuel and t = t and b = b and mem = "clock_mem N"]
    show ?thesis using locked W
      by (auto simp: searching_def sweep_ok_def [of _ _ "Spin _"] intro!: cont split: run.splits prod.splits)
  next
    case used
    have "own_pins (?st(b := old - BUF_USAGECOUNT_ONE)) (me p)" if "?st b = old"
      using own that used by (intro own_pins_same_refcount) (simp_all add: unuse_refcount)
    with used cont [OF own] show ?thesis
      by (auto simp: Let_def pg_atomic_compare_exchange_u64_def sweep_ok_def [of _ _ "Done _ _"]
          intro!: searching_hdr [OF pre])
  next
    case free
    show ?thesis
    proof (cases "?st b = old")
      case True
      have "clock_ok N (pol p)" using pre by (simp add: search_pre_def)
      then obtain q where "claim_victim b (p\<lparr>hdr := ?st(b := old + BUF_REFCOUNT_ONE), pol := pol p\<rparr>) = Some q"
        "victim_taken N (clock_ok N) (clock_mem N) p q (b, old + BUF_REFCOUNT_ONE)"
        using claim_search [OF pre assms(2), where mem = "clock_mem N" and s = old and t = t and pol' = "pol p"]
          assms(2) free True by auto
      with free True show ?thesis
        by (simp add: Let_def pg_atomic_compare_exchange_u64_def sweep_ok_def)
    next
      case False
      with free cont [OF own] show ?thesis by (simp add: Let_def pg_atomic_compare_exchange_u64_def)
    qed
  qed
qed

lemma ClockSweepGetBuffer_loop_ok:
  assumes "search_pre N (clock_ok N) E p"
  shows "victim_ok N (clock_ok N) (clock_mem N) p (ClockSweepGetBuffer_loop fuel N H E t p k)"
  using assms
proof (induction fuel arbitrary: t p k)
  case 0
  then show ?case by (auto intro: victim_ok_Spin searching_refl)
next
  case (Suc fuel)
  note pre = Suc.prems(1)
  have N: "0 < N" "N < 2 ^ 31" using pre by (auto simp: search_pre_def clock_ok_def)
  note tick = ClockSweepTick_moves [OF N, where fuel = fuel and H = H and t = t and p = p]
  show ?case
  proof (cases "ClockSweepTick fuel N H t p")
    case (Done s v)
    obtain t1 p1 where s: "s = (t1, p1)" by (cases s)
    have go: "searching (clock_ok N) (clock_mem N) p p1" and v: "unat v < N"
      using tick Done s clock_hand_moved_searching [OF pre] by auto
    note pre1 = searching_pre [OF pre go]
    let ?p = "p1\<lparr>hdr := E t1 (hdr p1)\<rparr>"
    have go1: "searching (clock_ok N) (clock_mem N) p1 ?p" by (rule searching_hdr [OF pre1 search_pre_own_pins [OF pre1]])
    note pre2 = searching_pre [OF pre1 go1] and go2 = searching_trans [OF go go1]
    let ?R = "ClockSweepGetBuffer_inner fuel N E (Suc t1) ?p (unat v) (E t1 (hdr p1) (unat v)) k"
    have inner: "sweep_ok N p ?R"
      by (rule sweep_ok_step [OF go2 ClockSweepGetBuffer_inner_ok [OF pre2 v]])
    have "victim_ok N (clock_ok N) (clock_mem N) p (ClockSweepGetBuffer_loop fuel N H E t2 p2 k')"
      if "?R = Done (t2, p2) (NextBuffer k')" for t2 p2 k'
      using victim_ok_continue [OF pre _ Suc.IH] inner that by (auto simp: sweep_ok_def)
    with inner Done s v show ?thesis
      by (auto simp: Let_def sweep_ok_def victim_ok_def [of _ _ _ _ "Done _ _"] intro: victim_ok_Raise victim_ok_Spin
          split: run.splits sweep.splits)
  next
    case (Spin s)
    with tick pre show ?thesis by (cases s) (auto intro: victim_ok_Spin clock_hand_moved_searching)
  qed (use tick in auto)
qed

section \<open>The victim of an undisturbed search\<close>

definition still :: hand_interference where "still = (\<lambda>_ h. h)"

definition clock_pos :: "nat \<Rightarrow> ClockSweepState \<Rightarrow> nat" where
  "clock_pos NBuffers s = unat (nextVictimBuffer s) mod NBuffers"

text \<open>The order in which the hand meets the buffers.\<close>

definition clock_order :: "nat \<Rightarrow> ClockSweepState \<Rightarrow> nat list" where
  "clock_order NBuffers s = [clock_pos NBuffers s..<NBuffers] @ [0..<clock_pos NBuffers s]"

text \<open>Between ticks no wrap is pending.\<close>

definition clock_hand_ok :: "nat \<Rightarrow> ClockSweepState \<Rightarrow> bool" where
  "clock_hand_ok NBuffers s \<longleftrightarrow>
     0 < NBuffers \<and> NBuffers < 2 ^ 31 \<and> unat (nextVictimBuffer s) \<le> NBuffers"

abbreviation usage :: "states \<Rightarrow> nat \<Rightarrow> nat" where
  "usage st b \<equiv> unat (BUF_STATE_GET_USAGECOUNT (st b))"

lemma clock_order_facts:
  assumes "0 < N"
  shows "set (clock_order N s) = {..<N}" "distinct (clock_order N s)" "length (clock_order N s) = N"
    "clock_order N s = clock_pos N s # tl (clock_order N s)"
proof -
  have "clock_pos N s < N" using assms by (simp add: clock_pos_def)
  then show "set (clock_order N s) = {..<N}" "distinct (clock_order N s)" "length (clock_order N s) = N"
    "clock_order N s = clock_pos N s # tl (clock_order N s)"
    by (auto simp: clock_order_def upt_conv_Cons)
qed

lemma clock_order_rotate:
  assumes "0 < N" "clock_pos N s' = (clock_pos N s + 1) mod N"
  shows "clock_order N s' = rotate1 (clock_order N s)"
proof -
  have p: "clock_pos N s < N" using assms by (simp add: clock_pos_def)
  show ?thesis
  proof (cases "Suc (clock_pos N s) < N")
    case True
    with assms p show ?thesis by (simp add: clock_order_def upt_conv_Cons [of "clock_pos N s"])
  next
    case False
    with p have eq: "Suc (clock_pos N s) = N" by simp
    then have "[clock_pos N s..<N] = [clock_pos N s]" "[0..<N] = [0..<clock_pos N s] @ [clock_pos N s]"
      using upt_Suc_append [of 0 "clock_pos N s"] p by (simp_all add: upt_conv_Cons)
    moreover from eq assms have "clock_pos N s' = 0" by simp
    ultimately show ?thesis by (simp add: clock_order_def)
  qed
qed

lemma unat_hand_Suc:
  assumes "unat (h :: uint32) \<le> N" "N < 2 ^ 31"
  shows "unat (h + 1) = unat h + 1"
proof -
  have "unat h + unat (1 :: uint32) < 2 ^ LENGTH(32)" using assms by simp
  then show ?thesis by (subst unat_add_lem [THEN iffD1]) simp_all
qed

lemma ClockSweepTick_still:
  assumes h: "clock_hand_ok N (pol p)" and fuel: "0 < fuel"
  shows "\<exists>t' s c v. ClockSweepTick fuel N still t p = Done (t', p\<lparr>pol := s, ctl := c\<rparr>) v \<and>
    unat v = clock_pos N (pol p) \<and> clock_hand_ok N s \<and> clock_pos N s = (clock_pos N (pol p) + 1) mod N"
proof -
  let ?h = "nextVictimBuffer (pol p)"
  have N: "0 < N" "N < 2 ^ 31" "unat ?h \<le> N" using h by (auto simp: clock_hand_ok_def)
  have Nw: "unat (of_nat N :: uint32) = N" using N by (simp add: unat_of_nat take_bit_eq_mod)
  have suc: "unat (?h + 1) = unat ?h + 1" using unat_hand_Suc N by blast
  show ?thesis
  proof (cases "unat ?h < N")
    case True
    then have lt: "\<not> of_nat N \<le> ?h" using Nw by (simp add: word_le_nat_alt)
    let ?s = "(pol p)\<lparr>nextVictimBuffer := ?h + 1\<rparr>"
    have "ClockSweepTick fuel N still t p = Done (Suc t, p\<lparr>pol := ?s, ctl := ctl p\<rparr>) ?h"
      using lt by (simp add: ClockSweepTick_def still_def Let_def)
    moreover have "clock_hand_ok N ?s" using N True suc by (simp add: clock_hand_ok_def)
    ultimately show ?thesis using True suc N by (fastforce simp: clock_pos_def)
  next
    case False
    then have eq: "unat ?h = N" using N by simp
    then have ge: "of_nat N \<le> ?h" using Nw by (simp add: word_le_nat_alt)
    have m0: "?h mod of_nat N = 0" using eq N unat_mod_of_nat [of N ?h] by (simp add: word_unat_eq_iff)
    let ?s = "(pol p)\<lparr>nextVictimBuffer := (?h + 1) mod of_nat N\<rparr>"
    let ?c = "(ctl p)\<lparr>completePasses := completePasses (ctl p) + 1\<rparr>"
    obtain n where n: "fuel = Suc n" using fuel by (cases fuel) auto
    have "ClockSweepTick fuel N still t p = Done (Suc (Suc t), p\<lparr>pol := ?s, ctl := ?c\<rparr>) 0"
      using ge m0 n by (simp add: ClockSweepTick_def still_def Let_def)
    moreover have v: "unat ((?h + 1) mod of_nat N) = Suc N mod N"
      using unat_mod_of_nat [OF N(1,2)] suc eq by simp
    then have "clock_hand_ok N ?s" using N by (simp add: clock_hand_ok_def less_imp_le)
    moreover have "clock_pos N ?s = (clock_pos N (pol p) + 1) mod N" using v eq N by (simp add: clock_pos_def mod_Suc)
    moreover have "unat (0 :: uint32) = clock_pos N (pol p)" using eq by (simp add: clock_pos_def)
    ultimately show ?thesis by blast
  qed
qed

text \<open>One round of the sweep over \<open>bs\<close> lowers the usage count of every unpinned buffer there.\<close>

definition clock_lower :: "nat list \<Rightarrow> states \<Rightarrow> states" where
  "clock_lower bs st = (\<lambda>b. if b \<in> set bs \<and> unpinned st b then st b - BUF_USAGECOUNT_ONE else st b)"

lemma clock_lower_Nil [simp]: "clock_lower [] st = st"
  by (simp add: clock_lower_def)

lemma clock_lower_pinned [simp]: "\<not> unpinned st z \<Longrightarrow> clock_lower (z # zs) st = clock_lower zs st"
  by (auto simp: clock_lower_def)

lemma clock_lower_used:
  assumes "unpinned st z" "z \<notin> set zs"
  shows "clock_lower zs (st(z := st z - BUF_USAGECOUNT_ONE)) = clock_lower (z # zs) st"
  using assms by (auto simp: clock_lower_def fun_eq_iff)

lemma ClockSweepGetBuffer_inner_quiet:
  assumes "0 < n" "\<not> bit (hdr p b) 22"
  shows "ClockSweepGetBuffer_inner n N quiet t p b (hdr p b) k =
    (if \<not> unpinned (hdr p) b
     then (if k = 1 then Raise (t, p) NoUnpinnedBuffersAvailable else Done (t, p) (NextBuffer (k - 1)))
     else if usage (hdr p) b \<noteq> 0
     then Done (Suc t, p\<lparr>hdr := (hdr p)(b := hdr p b - BUF_USAGECOUNT_ONE)\<rparr>) (NextBuffer (int N))
     else (case claim_victim b (p\<lparr>hdr := pin_state b (hdr p)\<rparr>) of
             None \<Rightarrow> Crash | Some q \<Rightarrow> Done (Suc t, q) (Victim (b, hdr p b + BUF_REFCOUNT_ONE))))"
  using assms
  by (cases n) (simp_all add: quiet_def Let_def pg_atomic_compare_exchange_u64_def pin_state_def unat_eq_zero)

text \<open>One tick of the loop, by the state of the buffer under the hand.\<close>

declare ClockSweepGetBuffer_loop.simps [simp del]

lemma clock_step:
  assumes h: "clock_hand_ok N (pol p)" and o: "clock_order N (pol p) = z # zs"
    and unl: "\<not> bit (hdr p z) 22" and n: "0 < n"
  obtains t' s c where "clock_hand_ok N s" "clock_order N s = zs @ [z]"
    "\<And>k. \<not> unpinned (hdr p) z \<Longrightarrow> ClockSweepGetBuffer_loop (Suc n) N still quiet t p k =
       (if k = 1 then Raise (t', p\<lparr>pol := s, ctl := c\<rparr>) NoUnpinnedBuffersAvailable
        else ClockSweepGetBuffer_loop n N still quiet t' (p\<lparr>pol := s, ctl := c\<rparr>) (k - 1))"
    "\<And>k. unpinned (hdr p) z \<Longrightarrow> usage (hdr p) z \<noteq> 0 \<Longrightarrow> ClockSweepGetBuffer_loop (Suc n) N still quiet t p k =
       ClockSweepGetBuffer_loop n N still quiet (Suc t')
         (p\<lparr>pol := s, ctl := c, hdr := (hdr p)(z := hdr p z - BUF_USAGECOUNT_ONE)\<rparr>) (int N)"
    "\<And>k. unpinned (hdr p) z \<Longrightarrow> usage (hdr p) z = 0 \<Longrightarrow> ClockSweepGetBuffer_loop (Suc n) N still quiet t p k =
       (case claim_victim z (p\<lparr>pol := s, ctl := c, hdr := pin_state z (hdr p)\<rparr>) of
          None \<Rightarrow> Crash | Some q \<Rightarrow> Done (Suc t', q) (z, hdr p z + BUF_REFCOUNT_ONE))"
proof -
  have N: "0 < N" using h by (simp add: clock_hand_ok_def)
  obtain t' s c v where tick: "ClockSweepTick n N still t p = Done (t', p\<lparr>pol := s, ctl := c\<rparr>) v"
    "unat v = clock_pos N (pol p)" "clock_hand_ok N s" "clock_pos N s = (clock_pos N (pol p) + 1) mod N"
    using ClockSweepTick_still [OF h n] by blast
  have z: "clock_pos N (pol p) = z" using clock_order_facts(4) [OF N, of "pol p"] o by simp
  moreover have "clock_pos N (pol p) < N" using N by (simp add: clock_pos_def)
  ultimately have zN: "z < N" by simp
  have o': "clock_order N s = zs @ [z]" using clock_order_rotate [OF N tick(4)] o by simp
  have unl': "\<not> bit (hdr (p\<lparr>pol := s, ctl := c\<rparr>) z) 22" using unl by simp
  note step = ClockSweepGetBuffer_inner_quiet [OF n unl', of N "Suc t'", simplified]
  show ?thesis
    by (rule that [OF tick(3) o', of "Suc t'" c])
      (use tick z zN step in \<open>simp_all add: ClockSweepGetBuffer_loop.simps quiet_def split: option.splits\<close>)
qed

text \<open>
  The hand passes any stretch of buffers that are pinned or in use. The try counter stays
  above the number of pinned buffers still ahead of the next unpinned one.
\<close>

lemma clock_scan:
  assumes "clock_hand_ok N (pol p)" "clock_order N (pol p) = zs @ ws" and n: "0 < n"
    and "\<And>b. b < N \<Longrightarrow> \<not> bit (hdr p b) 22"
    and "\<And>z. z \<in> set zs \<Longrightarrow> unpinned (hdr p) z \<Longrightarrow> usage (hdr p) z \<noteq> 0"
    and "\<exists>b \<in> set (zs @ ws). unpinned (hdr p) b"
    and "k > int (length (takeWhile (\<lambda>b. \<not> unpinned (hdr p) b) (zs @ ws)))"
  shows "\<exists>t' s c k'. ClockSweepGetBuffer_loop (length zs + n) N still quiet t p k =
      ClockSweepGetBuffer_loop n N still quiet t' (p\<lparr>pol := s, ctl := c, hdr := clock_lower zs (hdr p)\<rparr>) k' \<and>
    clock_hand_ok N s \<and> clock_order N s = ws @ zs \<and>
    k' > int (length (takeWhile (\<lambda>b. \<not> unpinned (hdr p) b) (ws @ zs)))"
  using assms(1,2,4-)
proof (induction zs arbitrary: p ws k t)
  case Nil
  then show ?case by (intro exI [of _ t] exI [of _ "pol p"] exI [of _ "ctl p"] exI [of _ k]) simp
next
  case (Cons z zs)
  have N: "0 < N" using Cons.prems(1) by (simp add: clock_hand_ok_def)
  have o: "clock_order N (pol p) = z # zs @ ws" using Cons.prems by auto
  have zN: "z < N" and dist: "distinct (z # zs @ ws)" and len: "length (z # zs @ ws) = N"
    using clock_order_facts [OF N, of "pol p"] unfolding o by auto
  have unl: "\<not> bit (hdr p z) 22" using Cons.prems(3) zN by simp
  have n': "0 < length zs + n" using n by simp
  obtain t' s c where s: "clock_hand_ok N s" "clock_order N s = (zs @ ws) @ [z]"
    "\<And>k. \<not> unpinned (hdr p) z \<Longrightarrow> ClockSweepGetBuffer_loop (Suc (length zs + n)) N still quiet t p k =
       (if k = 1 then Raise (t', p\<lparr>pol := s, ctl := c\<rparr>) NoUnpinnedBuffersAvailable
        else ClockSweepGetBuffer_loop (length zs + n) N still quiet t' (p\<lparr>pol := s, ctl := c\<rparr>) (k - 1))"
    "\<And>k. unpinned (hdr p) z \<Longrightarrow> usage (hdr p) z \<noteq> 0 \<Longrightarrow>
       ClockSweepGetBuffer_loop (Suc (length zs + n)) N still quiet t p k =
       ClockSweepGetBuffer_loop (length zs + n) N still quiet (Suc t')
         (p\<lparr>pol := s, ctl := c, hdr := (hdr p)(z := hdr p z - BUF_USAGECOUNT_ONE)\<rparr>) (int N)"
    by (rule clock_step [OF Cons.prems(1) o unl n', of t]) (rule that)
  show ?case
  proof (cases "unpinned (hdr p) z")
    case False
    let ?p = "p\<lparr>pol := s, ctl := c\<rparr>"
    have ex: "\<exists>b \<in> set (zs @ ws). unpinned (hdr p) b" using Cons.prems(5) False by auto
    then obtain u where "u \<in> set (zs @ ws)" "unpinned (hdr p) u" by blast
    then have tw: "takeWhile (\<lambda>b. \<not> unpinned (hdr p) b) ((zs @ ws) @ [z]) = takeWhile (\<lambda>b. \<not> unpinned (hdr p) b) (zs @ ws)"
      by (intro takeWhile_append1 [of u]) auto
    have "\<exists>t'' s' c' k'. ClockSweepGetBuffer_loop (length zs + n) N still quiet t' ?p (k - 1) =
        ClockSweepGetBuffer_loop n N still quiet t'' (?p\<lparr>pol := s', ctl := c', hdr := clock_lower zs (hdr ?p)\<rparr>) k' \<and>
      clock_hand_ok N s' \<and> clock_order N s' = (ws @ [z]) @ zs \<and>
      k' > int (length (takeWhile (\<lambda>b. \<not> unpinned (hdr ?p) b) ((ws @ [z]) @ zs)))"
      by (rule Cons.IH) (use s(1,2) Cons.prems False ex tw in auto)
    moreover have "k \<noteq> 1" using Cons.prems(6) False by auto
    ultimately show ?thesis using s(3) [OF False] False by simp
  next
    case True
    let ?st = "(hdr p)(z := hdr p z - BUF_USAGECOUNT_ONE)"
    let ?p = "p\<lparr>pol := s, ctl := c, hdr := ?st\<rparr>"
    have used: "usage (hdr p) z \<noteq> 0" using Cons.prems(4) True by simp
    then have nz: "BUF_STATE_GET_USAGECOUNT (hdr p z) \<noteq> 0" by auto
    have zn: "z \<notin> set zs" using dist by simp
    have pin: "unpinned ?st b = unpinned (hdr p) b" for b using nz by (simp add: bufstate_simps)
    have "length (takeWhile (\<lambda>b. \<not> unpinned ?st b) (zs @ ws @ [z])) \<le> length (zs @ ws)"
      using True length_takeWhile_le [of "\<lambda>b. \<not> unpinned (hdr p) b" "zs @ ws"]
      unfolding pin append_assoc [symmetric] takeWhile_append by auto
    then have k: "int N > int (length (takeWhile (\<lambda>b. \<not> unpinned ?st b) (zs @ ws @ [z])))"
      using len by simp
    have unl': "\<not> bit (?st b) 22" if "b < N" for b using Cons.prems(3) that nz by (simp add: bufstate_simps)
    have "\<exists>t'' s' c' k'. ClockSweepGetBuffer_loop (length zs + n) N still quiet (Suc t') ?p (int N) =
        ClockSweepGetBuffer_loop n N still quiet t'' (?p\<lparr>pol := s', ctl := c', hdr := clock_lower zs (hdr ?p)\<rparr>) k' \<and>
      clock_hand_ok N s' \<and> clock_order N s' = (ws @ [z]) @ zs \<and>
      k' > int (length (takeWhile (\<lambda>b. \<not> unpinned (hdr ?p) b) ((ws @ [z]) @ zs)))"
      by (rule Cons.IH) (use s(1,2) Cons.prems(4) True k zn unl' pin nz in \<open>auto simp: bufstate_simps\<close>)
    then show ?thesis
      using s(4) [OF True used] clock_lower_used [of "hdr p" z zs] True zn pin by simp
  qed
qed

text \<open>\<open>u\<close> full rounds, as long as every unpinned buffer has a usage count of at least \<open>u\<close>.\<close>

definition clock_lower_by :: "nat \<Rightarrow> nat \<Rightarrow> states \<Rightarrow> states" where
  "clock_lower_by N u st =
     (\<lambda>b. if b < N \<and> unpinned st b then st b - of_nat u * BUF_USAGECOUNT_ONE else st b)"

lemma unuse_many:
  "u \<le> unat (BUF_STATE_GET_USAGECOUNT s) \<Longrightarrow>
    BUF_STATE_GET_REFCOUNT (s - of_nat u * BUF_USAGECOUNT_ONE) = BUF_STATE_GET_REFCOUNT s \<and>
    unat (BUF_STATE_GET_USAGECOUNT (s - of_nat u * BUF_USAGECOUNT_ONE)) = unat (BUF_STATE_GET_USAGECOUNT s) - u \<and>
    (\<forall>k \<ge> 22. bit (s - of_nat u * BUF_USAGECOUNT_ONE) k = bit s k)"
proof (induction u)
  case (Suc u)
  let ?s = "s - of_nat u * BUF_USAGECOUNT_ONE"
  have "BUF_STATE_GET_USAGECOUNT ?s \<noteq> 0" using Suc by auto
  moreover have eq: "s - of_nat (Suc u) * BUF_USAGECOUNT_ONE = ?s - BUF_USAGECOUNT_ONE" by (simp add: algebra_simps)
  ultimately show ?case unfolding eq using Suc by (simp add: bufstate_simps)
qed simp

definition clock_min :: "nat \<Rightarrow> nat \<Rightarrow> states \<Rightarrow> bool" where
  "clock_min N u st \<longleftrightarrow> (\<forall>b < N. unpinned st b \<longrightarrow> u \<le> usage st b)"

lemma clock_lower_by_fields:
  assumes "clock_min N u st"
  shows "BUF_STATE_GET_REFCOUNT (clock_lower_by N u st b) = BUF_STATE_GET_REFCOUNT (st b)"
    "22 \<le> k \<Longrightarrow> bit (clock_lower_by N u st b) k = bit (st b) k"
    "b < N \<Longrightarrow> unpinned st b \<Longrightarrow> usage (clock_lower_by N u st) b = usage st b - u"
  using unuse_many [of u "st b"] assms by (auto simp: clock_lower_by_def clock_min_def)

lemma clock_lower_by_Suc:
  assumes "clock_min N u st" "set ys = {..<N}"
  shows "clock_lower ys (clock_lower_by N u st) = clock_lower_by N (Suc u) st"
proof
  fix b
  show "clock_lower ys (clock_lower_by N u st) b = clock_lower_by N (Suc u) st b"
    using clock_lower_by_fields(1) [OF assms(1), of b] assms(2)
    by (simp add: clock_lower_def) (simp add: clock_lower_by_def algebra_simps)
qed

lemma clock_rounds:
  assumes "clock_hand_ok N (pol p)" "0 < n"
    and unl: "\<And>b. b < N \<Longrightarrow> \<not> bit (hdr p b) 22"
    and "clock_min N u (hdr p)"
    and ex: "\<exists>b < N. unpinned (hdr p) b"
    and k: "k > int (length (takeWhile (\<lambda>b. \<not> unpinned (hdr p) b) (clock_order N (pol p))))"
  shows "\<exists>t' s c k'. ClockSweepGetBuffer_loop (u * N + n) N still quiet t p k =
      ClockSweepGetBuffer_loop n N still quiet t' (p\<lparr>pol := s, ctl := c, hdr := clock_lower_by N u (hdr p)\<rparr>) k' \<and>
    clock_hand_ok N s \<and> clock_order N s = clock_order N (pol p) \<and>
    k' > int (length (takeWhile (\<lambda>b. \<not> unpinned (hdr p) b) (clock_order N (pol p))))"
  using assms(2,4)
proof (induction u arbitrary: n)
  case 0
  have "clock_lower_by N 0 (hdr p) = hdr p" by (auto simp: clock_lower_by_def)
  with assms(1) k show ?case
    by (intro exI [of _ t] exI [of _ "pol p"] exI [of _ "ctl p"] exI [of _ k]) simp
next
  case (Suc u)
  let ?o = "clock_order N (pol p)" and ?st = "clock_lower_by N u (hdr p)"
  have N: "0 < N" using assms(1) by (simp add: clock_hand_ok_def)
  note facts = clock_order_facts [OF N, of "pol p"]
  have ge: "clock_min N u (hdr p)" using Suc.prems(2) by (auto simp: clock_min_def)
  note f = clock_lower_by_fields [OF ge]
  have pos: "0 < N + n" using N by simp
  obtain t1 s1 c1 k1 where 1: "ClockSweepGetBuffer_loop (u * N + (N + n)) N still quiet t p k =
      ClockSweepGetBuffer_loop (N + n) N still quiet t1 (p\<lparr>pol := s1, ctl := c1, hdr := ?st\<rparr>) k1"
    "clock_hand_ok N s1" "clock_order N s1 = ?o"
    "k1 > int (length (takeWhile (\<lambda>b. \<not> unpinned (hdr p) b) ?o))"
    using Suc.IH [OF pos ge] by blast
  let ?p = "p\<lparr>pol := s1, ctl := c1, hdr := ?st\<rparr>"
  have used: "usage ?st z \<noteq> 0" if "z < N" "unpinned (hdr p) z" for z
    using f(3) [OF that] Suc.prems(2) that by (auto simp: clock_min_def)
  have "\<exists>t' s c k'. ClockSweepGetBuffer_loop (length ?o + n) N still quiet t1 ?p k1 =
      ClockSweepGetBuffer_loop n N still quiet t' (?p\<lparr>pol := s, ctl := c, hdr := clock_lower ?o (hdr ?p)\<rparr>) k' \<and>
    clock_hand_ok N s \<and> clock_order N s = [] @ ?o \<and>
    k' > int (length (takeWhile (\<lambda>b. \<not> unpinned (hdr ?p) b) ([] @ ?o)))"
    by (rule clock_scan) (use 1 facts ex used f(1) f(2) unl Suc.prems(1) in auto)
  then show ?case
    using 1(1) facts(3) f(1) clock_lower_by_Suc [OF ge facts(1)] by (simp add: algebra_simps)
qed

lemma clock_take:
  assumes pre: "search_pre N (clock_ok N) quiet p" and h: "clock_hand_ok N (pol p)"
    and o: "clock_order N (pol p) = z # zs" and n: "0 < n"
    and u: "\<not> bit (hdr p z) 22" "unpinned (hdr p) z" "usage (hdr p) z = 0"
  shows "\<exists>t' q. ClockSweepGetBuffer_loop (Suc n) N still quiet t p k = Done (t', q) (z, hdr p z + BUF_REFCOUNT_ONE) \<and>
    hdr q = pin_state z (hdr p) \<and> clock_hand_ok N (pol q) \<and> clock_order N (pol q) = zs @ [z]"
proof -
  have N: "0 < N" using h by (simp add: clock_hand_ok_def)
  obtain t' s c where s: "clock_hand_ok N s" "clock_order N s = zs @ [z]"
    "ClockSweepGetBuffer_loop (Suc n) N still quiet t p k =
       (case claim_victim z (p\<lparr>pol := s, ctl := c, hdr := pin_state z (hdr p)\<rparr>) of
          None \<Rightarrow> Crash | Some q \<Rightarrow> Done (Suc t', q) (z, hdr p z + BUF_REFCOUNT_ONE))"
    using u by (elim clock_step [OF h o _ n, of t]) (blast intro: that)
  let ?p = "p\<lparr>pol := s, ctl := c\<rparr>"
  have pre': "search_pre N (clock_ok N) quiet ?p" using pre by (simp add: search_pre_def pool_ok_def clock_ok_def)
  have zN: "z < N" "z \<in> clock_mem N (pol ?p)" using clock_order_facts(1) [OF N, of "pol p"] o by auto
  have "quiet 0 (hdr ?p) z = hdr p z" "clock_ok N (pol ?p)"
    using pre' by (simp_all add: quiet_def search_pre_def)
  from claim_search [OF pre' zN u(2,1) this subset_refl subset_insertI]
  obtain q where q: "claim_victim z (?p\<lparr>hdr := (hdr p)(z := hdr p z + BUF_REFCOUNT_ONE), pol := pol ?p\<rparr>) = Some q"
    "hdr q = (hdr p)(z := hdr p z + BUF_REFCOUNT_ONE)" "pol q = s"
    by (auto simp: quiet_def)
  have eq: "?p\<lparr>hdr := (hdr p)(z := hdr p z + BUF_REFCOUNT_ONE), pol := pol ?p\<rparr> =
      p\<lparr>pol := s, ctl := c, hdr := pin_state z (hdr p)\<rparr>"
    by (simp add: pin_state_def)
  from q(1) [unfolded eq] q(2,3) s show ?thesis by (simp add: pin_state_def)
qed

lemma clock_all_pinned:
  assumes "clock_hand_ok N (pol p)" "\<And>b. b < N \<Longrightarrow> \<not> bit (hdr p b) 22 \<and> \<not> unpinned (hdr p) b" "Suc m < fuel"
  shows "\<exists>t' s c. ClockSweepGetBuffer_loop fuel N still quiet t p (int (Suc m)) =
      Raise (t', p\<lparr>pol := s, ctl := c\<rparr>) NoUnpinnedBuffersAvailable"
  using assms
proof (induction m arbitrary: p fuel t)
  case 0
  have N: "0 < N" using 0(1) by (simp add: clock_hand_ok_def)
  obtain n where n: "fuel = Suc n" "0 < n" using 0(3) by (cases fuel) auto
  define z where "z = clock_pos N (pol p)"
  have z: "z < N" using N by (simp add: z_def clock_pos_def)
  note o = clock_order_facts(4) [OF N, of "pol p", folded z_def]
  have unl: "\<not> bit (hdr p z) 22" and pin: "\<not> unpinned (hdr p) z" using 0(2) z by auto
  show ?case unfolding n(1) by (rule clock_step [OF 0(1) o unl n(2), of t]) (use pin in auto)
next
  case (Suc m)
  have N: "0 < N" using Suc.prems(1) by (simp add: clock_hand_ok_def)
  obtain n where n: "fuel = Suc n" "0 < n" "Suc m < n" using Suc.prems(3) by (cases fuel) auto
  define z where "z = clock_pos N (pol p)"
  have z: "z < N" using N by (simp add: z_def clock_pos_def)
  note o = clock_order_facts(4) [OF N, of "pol p", folded z_def]
  have unl: "\<not> bit (hdr p z) 22" and pin: "\<not> unpinned (hdr p) z" using Suc.prems(2) z by auto
  obtain t' s c where s: "clock_hand_ok N s"
    "ClockSweepGetBuffer_loop (Suc n) N still quiet t p (int (Suc (Suc m))) =
       ClockSweepGetBuffer_loop n N still quiet t' (p\<lparr>pol := s, ctl := c\<rparr>) (int (Suc m))"
    by (rule clock_step [OF Suc.prems(1) o unl n(2), of t]) (use pin in \<open>simp add: that\<close>)
  from Suc.IH [of "p\<lparr>pol := s, ctl := c\<rparr>" n t'] s(1) Suc.prems(2) n(3)
  show ?case unfolding n(1) s(2) by auto
qed

text \<open>
  The reference definition: of the unpinned buffers, the first in clock order with the
  least usage count.
\<close>

definition clock_victim :: "states \<Rightarrow> nat list \<Rightarrow> nat option" where
  "clock_victim st ys =
     (case filter (unpinned st) ys of [] \<Rightarrow> None | us \<Rightarrow> Some (arg_min_list (usage st) us))"

lemma clock_victim_split:
  assumes "clock_victim st ys = Some v"
  obtains zs ws where "ys = zs @ v # ws" "unpinned st v"
    "\<And>z. z \<in> set zs \<Longrightarrow> unpinned st z \<Longrightarrow> usage st v < usage st z"
    "\<And>z. z \<in> set ys \<Longrightarrow> unpinned st z \<Longrightarrow> usage st v \<le> usage st z"
proof -
  let ?us = "filter (unpinned st) ys"
  have v: "v = arg_min_list (usage st) ?us" and ne: "?us \<noteq> []"
    using assms by (auto simp: clock_victim_def split: list.splits)
  obtain as bs where us: "?us = as @ v # bs" "\<forall>a \<in> set as. usage st v < usage st a" "\<forall>b \<in> set bs. usage st v \<le> usage st b"
    using arg_min_list_split [OF ne, of "usage st"] v by auto
  obtain zs ws where ys: "ys = zs @ v # ws" "filter (unpinned st) zs = as" "filter (unpinned st) ws = bs" "unpinned st v"
    using filter_split [OF us(1)] by blast
  have lt: "usage st v < usage st z" if "z \<in> set zs" "unpinned st z" for z using that us(2) ys(2) by auto
  have "usage st v \<le> usage st z" if "z \<in> set ys" "unpinned st z" for z
    using that us(3) ys lt less_imp_le by fastforce
  with ys lt that show ?thesis by blast
qed

lemma own_pins_lower:
  "own_pins st m \<Longrightarrow> own_pins (clock_lower zs st) m" "own_pins st m \<Longrightarrow> own_pins (clock_lower_by N u st) m"
  by (auto simp: own_pins_def clock_lower_def clock_lower_by_def)

text \<open>The last, partial round.\<close>

lemma clock_last_round:
  assumes pre: "search_pre N (clock_ok N) quiet p" and h: "clock_hand_ok N (pol p)"
    and unl: "\<And>b. b < N \<Longrightarrow> \<not> bit (hdr p b) 22"
    and o: "clock_order N (pol p) = zs @ v # ws" and v: "unpinned (hdr p) v" "usage (hdr p) v = 0"
    and zs: "\<And>z. z \<in> set zs \<Longrightarrow> unpinned (hdr p) z \<Longrightarrow> usage (hdr p) z \<noteq> 0" and fuel: "N < fuel"
    and k: "k > int (length (takeWhile (\<lambda>b. \<not> unpinned (hdr p) b) (clock_order N (pol p))))"
  shows "\<exists>t' q. ClockSweepGetBuffer_loop fuel N still quiet t p k = Done (t', q) (v, hdr q v) \<and>
    hdr q = pin_state v (clock_lower zs (hdr p)) \<and> clock_hand_ok N (pol q) \<and> last (clock_order N (pol q)) = v"
proof -
  let ?st = "clock_lower zs (hdr p)"
  have N: "0 < N" using h by (simp add: clock_hand_ok_def)
  note facts = clock_order_facts [OF N, of "pol p", unfolded o]
  have vz: "v \<notin> set zs" "v < N" using facts by auto
  then have same: "?st v = hdr p v" by (simp add: clock_lower_def)
  define m where "m = fuel - length zs - 1"
  have m: "fuel = length zs + Suc m" "0 < m" using facts(3) fuel by (auto simp: m_def)
  have ex: "\<exists>b \<in> set (zs @ v # ws). unpinned (hdr p) b" using v(1) by auto
  have k': "k > int (length (takeWhile (\<lambda>b. \<not> unpinned (hdr p) b) (zs @ v # ws)))" using k o by simp
  obtain t1 s c k1 where s: "ClockSweepGetBuffer_loop (length zs + Suc m) N still quiet t p k =
      ClockSweepGetBuffer_loop (Suc m) N still quiet t1 (p\<lparr>pol := s, ctl := c, hdr := ?st\<rparr>) k1"
    "clock_hand_ok N s" "clock_order N s = (v # ws) @ zs"
    using clock_scan [OF h o zero_less_Suc unl zs ex k', where t = t] by blast
  let ?p = "p\<lparr>pol := s, ctl := c, hdr := ?st\<rparr>"
  have pre': "search_pre N (clock_ok N) quiet ?p"
    using pre by (simp add: search_pre_def pool_ok_def clock_ok_def own_pins_lower)
  have "clock_order N (pol ?p) = v # ws @ zs" "clock_hand_ok N (pol ?p)" "\<not> bit (hdr ?p v) 22"
    "unpinned (hdr ?p) v" "usage (hdr ?p) v = 0"
    using s(2,3) same unl vz v by simp_all
  from clock_take [OF pre' this(2,1) m(2) this(3-5), of t1 k1] same show ?thesis
    unfolding m(1) s(1) by (auto simp: pin_state_def)
qed

text \<open>The search takes the reference victim in its round number \<open>usage v + 1\<close>.\<close>

lemma clock_finds_victim:
  assumes pre: "search_pre N (clock_ok N) quiet p" and h: "clock_hand_ok N (pol p)"
    and unl: "\<And>b. b < N \<Longrightarrow> \<not> bit (hdr p b) 22"
    and v: "clock_victim (hdr p) (clock_order N (pol p)) = Some v" and fuel: "(usage (hdr p) v + 1) * N < fuel"
  shows "\<exists>t' q. ClockSweepGetBuffer_loop fuel N still quiet t p (int N) = Done (t', q) (v, hdr q v) \<and>
    hdr q = pin_state v (clock_lower (takeWhile (\<lambda>b. b \<noteq> v) (clock_order N (pol p)))
      (clock_lower_by N (usage (hdr p) v) (hdr p))) \<and>
    clock_hand_ok N (pol q) \<and> last (clock_order N (pol q)) = v"
proof -
  let ?o = "clock_order N (pol p)" and ?u = "usage (hdr p) v"
  let ?st = "clock_lower_by N ?u (hdr p)"
  have N: "0 < N" using h by (simp add: clock_hand_ok_def)
  note facts = clock_order_facts [OF N, of "pol p"]
  obtain zs ws where o: "?o = zs @ v # ws" and vu: "unpinned (hdr p) v"
    and zs: "\<And>z. z \<in> set zs \<Longrightarrow> unpinned (hdr p) z \<Longrightarrow> ?u < usage (hdr p) z"
    and all: "\<And>z. z \<in> set ?o \<Longrightarrow> unpinned (hdr p) z \<Longrightarrow> ?u \<le> usage (hdr p) z"
    using clock_victim_split [OF v] by blast
  have mn: "clock_min N ?u (hdr p)" using all facts(1) by (auto simp: clock_min_def)
  note f = clock_lower_by_fields [OF mn]
  have sub: "v < N" "set zs \<subseteq> {..<N}" and tw: "takeWhile (\<lambda>b. b \<noteq> v) ?o = zs"
    using facts(1,2) unfolding o by (auto intro: dropWhile_takeWhile_at(2))
  have len: "int N > int (length (takeWhile (\<lambda>b. \<not> unpinned (hdr p) b) ?o))"
    using facts(3) vu length_takeWhile_mem [of v ?o "\<lambda>b. \<not> unpinned (hdr p) b"] o by simp
  define n where "n = fuel - ?u * N"
  have n: "fuel = ?u * N + n" "N < n" "0 < n" using fuel N by (auto simp: n_def algebra_simps)
  have ex: "\<exists>b < N. unpinned (hdr p) b" using vu sub by blast
  obtain t1 s c k1 where s: "ClockSweepGetBuffer_loop (?u * N + n) N still quiet t p (int N) =
      ClockSweepGetBuffer_loop n N still quiet t1 (p\<lparr>pol := s, ctl := c, hdr := ?st\<rparr>) k1"
    "clock_hand_ok N s" "clock_order N s = ?o"
    "k1 > int (length (takeWhile (\<lambda>b. \<not> unpinned (hdr p) b) ?o))"
    using clock_rounds [OF h n(3) unl mn ex len, where t = t] by blast
  let ?p = "p\<lparr>pol := s, ctl := c, hdr := ?st\<rparr>"
  have pre': "search_pre N (clock_ok N) quiet ?p"
    using pre by (simp add: search_pre_def pool_ok_def clock_ok_def own_pins_lower)
  have z0: "usage (hdr ?p) z \<noteq> 0" if "z \<in> set zs" "unpinned (hdr ?p) z" for z
  proof -
    have z: "z < N" "unpinned (hdr p) z" using that sub f(1) by auto
    then show ?thesis using f(3) [OF z] zs [OF that(1) z(2)] by simp
  qed
  have "clock_hand_ok N (pol ?p)" "clock_order N (pol ?p) = zs @ v # ws" "unpinned (hdr ?p) v" "usage (hdr ?p) v = 0"
    "k1 > int (length (takeWhile (\<lambda>b. \<not> unpinned (hdr ?p) b) (clock_order N (pol ?p))))"
    using s(2-4) o vu sub(1) f(1) f(3) [OF sub(1) vu] by simp_all
  from clock_last_round [OF pre' this(1) _ this(2-4) z0 n(2) this(5), where t = t1] f(2) unl
  show ?thesis unfolding tw n(1) s(1) by simp
qed

section \<open>Properties\<close>

text \<open>
  C18: whatever the other backends do to the hand and, short of taking away this backend's
  own pins, to the header words, \<open>ClockSweepGetBuffer\<close> never looks up a buffer outside the
  array and never fails to track the pin; if it returns, the victim was unpinned and now
  carries exactly this backend's pin.
\<close>

theorem ClockSweepGetBuffer_safe:
  assumes "search_pre N (clock_ok N) E p"
  shows "victim_ok N (clock_ok N) (\<lambda>s. {..<N}) p (ClockSweepGetBuffer H N fuel E t p)"
  using ClockSweepGetBuffer_loop_ok [OF assms] by (simp add: ClockSweepGetBuffer_def)

theorem ClockSweepGetBuffer_safe_witness:
  "victim_ok 2 (clock_ok 2) (\<lambda>s. {..<2}) (fresh_pool (\<lambda>_. 0) \<lparr>nextVictimBuffer = 1\<rparr>)
     (ClockSweepGetBuffer (\<lambda>t h. h + of_nat t) 2 7 quiet 0 (fresh_pool (\<lambda>_. 0) \<lparr>nextVictimBuffer = 1\<rparr>))"
  by (rule ClockSweepGetBuffer_safe, rule fresh_search_pre) (simp add: clock_ok_def)



text \<open>
  C23: a tick that is not disturbed returns the clock position, moves the hand by one modulo
  \<open>NBuffers\<close>, and keeps the count of passes exact: \<open>completePasses * NBuffers + nextVictimBuffer\<close>,
  the number of buffers passed since startup that \<open>StrategySyncStart\<close> reports from, grows by
  exactly one (as long as the pass counter does not overflow its 32 bits).
\<close>

theorem ClockSweepTick_counts:
  assumes h: "clock_hand_ok N (pol p)" and N: "1 < N" and fuel: "0 < fuel"
    and passes: "unat (completePasses (ctl p)) + 1 < 2 ^ 32"
  shows "\<exists>t' q v. ClockSweepTick fuel N still t p = Done (t', q) v \<and>
    unat v = clock_pos N (pol p) \<and> clock_hand_ok N (pol q) \<and> clock_pos N (pol q) = (clock_pos N (pol p) + 1) mod N \<and>
    unat (completePasses (ctl q)) * N + unat (nextVictimBuffer (pol q)) =
      unat (completePasses (ctl p)) * N + unat (nextVictimBuffer (pol p)) + 1"
proof -
  let ?h = "nextVictimBuffer (pol p)"
  have Nb: "0 < N" "N < 2 ^ 31" "unat ?h \<le> N" using h by (auto simp: clock_hand_ok_def)
  have Nw: "unat (of_nat N :: uint32) = N" using Nb by (simp add: unat_of_nat take_bit_eq_mod)
  have suc: "unat (?h + 1) = unat ?h + 1" using unat_hand_Suc Nb by blast
  obtain t' s c v where tick: "ClockSweepTick fuel N still t p = Done (t', p\<lparr>pol := s, ctl := c\<rparr>) v"
    "unat v = clock_pos N (pol p)" "clock_hand_ok N s" "clock_pos N s = (clock_pos N (pol p) + 1) mod N"
    using ClockSweepTick_still [OF h fuel] by blast
  obtain n where n: "fuel = Suc n" using fuel by (cases fuel) auto
  have "unat (completePasses c) * N + unat (nextVictimBuffer s) = unat (completePasses (ctl p)) * N + unat ?h + 1"
  proof (cases "of_nat N \<le> ?h")
    case False
    then have e: "p\<lparr>pol := (pol p)\<lparr>nextVictimBuffer := ?h + 1\<rparr>\<rparr> = p\<lparr>pol := s, ctl := c\<rparr>"
      using tick(1) by (auto simp: ClockSweepTick_def still_def Let_def)
    from arg_cong [OF e, of pol] arg_cong [OF e, of ctl] suc show ?thesis by auto
  next
    case True
    then have eq: "unat ?h = N" using Nb Nw by (simp add: word_le_nat_alt)
    have m0: "?h mod of_nat N = 0" using eq Nb unat_mod_of_nat [of N ?h] by (simp add: word_unat_eq_iff)
    have w: "unat ((?h + 1) mod of_nat N) = 1"
      using unat_mod_of_nat [OF Nb(1,2), of "?h + 1"] suc eq N by (simp add: mod_Suc)
    have cp: "unat (completePasses (ctl p) + 1) = unat (completePasses (ctl p)) + 1"
      using passes by (simp add: unat_word_ariths)
    have e: "p\<lparr>pol := (pol p)\<lparr>nextVictimBuffer := (?h + 1) mod of_nat N\<rparr>,
        ctl := (ctl p)\<lparr>completePasses := completePasses (ctl p) + 1\<rparr>\<rparr> = p\<lparr>pol := s, ctl := c\<rparr>"
      using tick(1) True m0 n by (simp add: ClockSweepTick_def still_def Let_def)
    then have "nextVictimBuffer s = (?h + 1) mod of_nat N" "completePasses c = completePasses (ctl p) + 1"
      using arg_cong [OF e, of pol] arg_cong [OF e, of ctl] by auto
    with w cp eq show ?thesis by simp
  qed
  with tick show ?thesis by fastforce
qed

theorem ClockSweepTick_counts_witness:
  "\<exists>t' q v. ClockSweepTick 1 3 still 0 (fresh_pool (\<lambda>_. 0) \<lparr>nextVictimBuffer = 3\<rparr>) = Done (t', q) v \<and>
     unat v = 0 \<and> unat (completePasses (ctl q)) * 3 + unat (nextVictimBuffer (pol q)) = 4"
  using ClockSweepTick_counts [of 3 "fresh_pool (\<lambda>_. 0) \<lparr>nextVictimBuffer = 3\<rparr>" 1 0]
  by (auto simp: clock_hand_ok_def clock_pos_def fresh_pool_def)

end
