(* ===== verification/Sieve.thy ===== *)
theory Sieve
  imports Victim_Search
begin

unbundle bit_operations_syntax

text \<open>
  The SIEVE policy of \<^verbatim>\<open>freelist.c\<close>: the buffers in insertion order, in the arrays
  \<open>SieveNext\<close> and \<open>SievePrev\<close> with sentinel \<open>NBuffers\<close>, and a hand that walks from older to
  newer buffers; the visited mark of a buffer is that its usage count is not zero. The
  abstraction is the list from the oldest to the newest buffer, and the circular order in
  which the hand meets the buffers.
\<close>

record SieveState =
  sieve_hand :: nat
  sieve_bgw_sync_seq :: uint32
  SieveNext :: "nat \<Rightarrow> nat"
  SievePrev :: "nat \<Rightarrow> nat"

section \<open>The operations\<close>

definition SieveInitialize :: "nat \<Rightarrow> bool \<Rightarrow> SieveState \<Rightarrow> SieveState option" where
  "SieveInitialize NBuffers found s =
     (if found then Some s
      else do {
        let s = s\<lparr>sieve_hand := 0, sieve_bgw_sync_seq := 0\<rparr>;
        nx \<leftarrow> arr_set (NBuffers + 1) (SieveNext s) NBuffers (NBuffers - 1);
        pv \<leftarrow> arr_set (NBuffers + 1) (SievePrev s) NBuffers 0;
        foldM (\<lambda>i s. do {
            nx \<leftarrow> arr_set (NBuffers + 1) (SieveNext s) i (if i < NBuffers - 1 then i + 1 else NBuffers);
            pv \<leftarrow> arr_set (NBuffers + 1) (SievePrev s) i (if i > 0 then i - 1 else NBuffers);
            Some (s\<lparr>SieveNext := nx, SievePrev := pv\<rparr>)
          }) [0..<NBuffers] (s\<lparr>SieveNext := nx, SievePrev := pv\<rparr>)
      })"

definition SieveAdvanceHand :: "nat \<Rightarrow> SieveState \<Rightarrow> SieveState option" where
  "SieveAdvanceHand NBuffers s = do {
     next \<leftarrow> arr_get (NBuffers + 1) (SieveNext s) (sieve_hand s);
     next \<leftarrow> (if next = NBuffers then arr_get (NBuffers + 1) (SievePrev s) NBuffers else Some next);
     Some (s\<lparr>sieve_hand := next\<rparr>)
   }"

definition SieveUnlinkAndAdvance :: "nat \<Rightarrow> nat \<Rightarrow> SieveState \<Rightarrow> SieveState option" where
  "SieveUnlinkAndAdvance NBuffers buf_id s = do {
     let n = NBuffers + 1;
     newer \<leftarrow> arr_get n (SieveNext s) buf_id;
     older \<leftarrow> arr_get n (SievePrev s) buf_id;
     let s = (if sieve_hand s = buf_id
              then let new_hand = newer;
                       new_hand = (if new_hand = NBuffers then older else new_hand)
                   in s\<lparr>sieve_hand := new_hand\<rparr>
              else s);
     s \<leftarrow> (if newer = NBuffers
           then do { nx \<leftarrow> arr_set n (SieveNext s) NBuffers older; Some (s\<lparr>SieveNext := nx\<rparr>) }
           else do { pv \<leftarrow> arr_set n (SievePrev s) newer older; Some (s\<lparr>SievePrev := pv\<rparr>) });
     s \<leftarrow> (if older = NBuffers
           then do { pv \<leftarrow> arr_set n (SievePrev s) NBuffers newer; Some (s\<lparr>SievePrev := pv\<rparr>) }
           else do { nx \<leftarrow> arr_set n (SieveNext s) older newer; Some (s\<lparr>SieveNext := nx\<rparr>) });
     nx \<leftarrow> arr_set n (SieveNext s) buf_id NBuffers;
     pv \<leftarrow> arr_set n (SievePrev s) buf_id NBuffers;
     Some (s\<lparr>SieveNext := nx, SievePrev := pv\<rparr>)
   }"

definition SieveNotifyInsert :: "nat \<Rightarrow> nat \<Rightarrow> SieveState \<Rightarrow> SieveState option" where
  "SieveNotifyInsert NBuffers buf_id s = do {
     let n = NBuffers + 1;
     nx \<leftarrow> arr_get n (SieveNext s) buf_id;
     pv \<leftarrow> arr_get n (SievePrev s) buf_id;
     hd \<leftarrow> arr_get n (SieveNext s) NBuffers;
     s \<leftarrow> (if nx \<noteq> NBuffers \<or> pv \<noteq> NBuffers \<or> hd = buf_id
           then SieveUnlinkAndAdvance NBuffers buf_id s else Some s);
     old_head \<leftarrow> arr_get n (SieveNext s) NBuffers;
     nx \<leftarrow> arr_set n (SieveNext s) buf_id NBuffers;
     pv \<leftarrow> arr_set n (SievePrev s) buf_id old_head;
     let s = s\<lparr>SieveNext := nx, SievePrev := pv\<rparr>;
     s \<leftarrow> (if old_head \<noteq> NBuffers
           then do { nx \<leftarrow> arr_set n (SieveNext s) old_head buf_id; Some (s\<lparr>SieveNext := nx\<rparr>) }
           else do { pv \<leftarrow> arr_set n (SievePrev s) NBuffers buf_id; Some (s\<lparr>SievePrev := pv\<rparr>) });
     nx \<leftarrow> arr_set n (SieveNext s) NBuffers buf_id;
     let s = s\<lparr>SieveNext := nx\<rparr>;
     Some (if sieve_hand s = NBuffers then s\<lparr>sieve_hand := buf_id\<rparr> else s)
   }"

text \<open>The body of \<open>SieveNotifyInvalidate\<close> is commented out in the source.\<close>

definition SieveNotifyInvalidate :: "nat \<Rightarrow> nat \<Rightarrow> SieveState \<Rightarrow> SieveState option" where
  "SieveNotifyInvalidate NBuffers buf_id s = Some s"

fun SieveGetBuffer_loop ::
    "nat \<Rightarrow> nat \<Rightarrow> interference \<Rightarrow> nat \<Rightarrow> SieveState pool \<Rightarrow> int
     \<Rightarrow> (nat \<times> SieveState pool, victim) run" where
  "SieveGetBuffer_loop 0 NBuffers E t p trycounter = Spin (t, p)"
| "SieveGetBuffer_loop (Suc fuel) NBuffers E t p trycounter =
     (if sieve_hand (pol p) = NBuffers then Raise (t, p) NoBuffersInSieveQueue
      else if sieve_hand (pol p) > NBuffers then Crash
      else let candidate = sieve_hand (pol p); st1 = E t (hdr p); old_buf_state = st1 candidate
      in if old_buf_state AND BM_LOCKED \<noteq> 0
      then (case SieveAdvanceHand NBuffers (pol p) of
              None \<Rightarrow> Crash
            | Some s \<Rightarrow> SieveGetBuffer_loop fuel NBuffers E (Suc t) (p\<lparr>hdr := st1, pol := s\<rparr>) trycounter)
      else if BUF_STATE_GET_REFCOUNT old_buf_state \<noteq> 0
      then (case SieveAdvanceHand NBuffers (pol p) of
              None \<Rightarrow> Crash
            | Some s \<Rightarrow>
                if trycounter - 1 = 0 then Raise (Suc t, p\<lparr>hdr := st1, pol := s\<rparr>) NoUnpinnedBuffersAvailable
                else SieveGetBuffer_loop fuel NBuffers E (Suc t) (p\<lparr>hdr := st1, pol := s\<rparr>) (trycounter - 1))
      else if BUF_STATE_GET_USAGECOUNT old_buf_state \<noteq> 0
      then let new_buf_state = old_buf_state AND NOT BUF_USAGECOUNT_MASK;
               (_, _, st2) =
                 pg_atomic_compare_exchange_u64 (E (Suc t) st1) candidate old_buf_state new_buf_state
           in (case SieveAdvanceHand NBuffers (pol p) of
                 None \<Rightarrow> Crash
               | Some s \<Rightarrow>
                   SieveGetBuffer_loop fuel NBuffers E (Suc (Suc t)) (p\<lparr>hdr := st2, pol := s\<rparr>) (int NBuffers))
      else let new_buf_state = old_buf_state + BUF_REFCOUNT_ONE;
               (success, found, st2) =
                 pg_atomic_compare_exchange_u64 (E (Suc t) st1) candidate old_buf_state new_buf_state
      in if success
         then (case do { s \<leftarrow> SieveUnlinkAndAdvance NBuffers candidate (pol p);
                         claim_victim candidate (p\<lparr>hdr := st2, pol := s\<rparr>) } of
                 None \<Rightarrow> Crash
               | Some q \<Rightarrow> Done (Suc (Suc t), q) (candidate, new_buf_state))
         else SieveGetBuffer_loop fuel NBuffers E (Suc (Suc t)) (p\<lparr>hdr := st2\<rparr>) (int NBuffers))"

definition SieveGetBuffer ::
    "nat \<Rightarrow> nat \<Rightarrow> interference \<Rightarrow> nat \<Rightarrow> SieveState pool \<Rightarrow> (nat \<times> SieveState pool, victim) run" where
  "SieveGetBuffer NBuffers fuel E t p = SieveGetBuffer_loop fuel NBuffers E t p (int NBuffers)"

section \<open>The list and the hand a state holds\<close>

definition sieve_queue :: "nat \<Rightarrow> SieveState \<Rightarrow> nat list" where
  "sieve_queue NBuffers s = walk NBuffers (SieveNext s) NBuffers (SievePrev s NBuffers)"

text \<open>The order in which the hand meets the buffers: from the hand on, then from the oldest.\<close>

definition sieve_order :: "nat \<Rightarrow> SieveState \<Rightarrow> nat list" where
  "sieve_order NBuffers s =
     dropWhile (\<lambda>b. b \<noteq> sieve_hand s) (sieve_queue NBuffers s) @
     takeWhile (\<lambda>b. b \<noteq> sieve_hand s) (sieve_queue NBuffers s)"

definition sieve_rep :: "nat \<Rightarrow> SieveState \<Rightarrow> nat list \<Rightarrow> bool" where
  "sieve_rep NBuffers s xs \<longleftrightarrow>
     queue (SieveNext s) (SievePrev s) NBuffers xs \<and> (\<forall>x \<in> set xs. x < NBuffers) \<and>
     (\<forall>x < NBuffers. x \<notin> set xs \<longrightarrow> SieveNext s x = NBuffers \<and> SievePrev s x = NBuffers) \<and>
     (if xs = [] then sieve_hand s = NBuffers else sieve_hand s \<in> set xs)"

definition sieve_ok :: "nat \<Rightarrow> SieveState \<Rightarrow> bool" where
  "sieve_ok NBuffers s \<longleftrightarrow> (\<exists>xs. sieve_rep NBuffers s xs)"

lemma sieve_rep_distinct: "sieve_rep N s xs \<Longrightarrow> distinct xs"
  by (auto simp: sieve_rep_def queue_def)

lemma sieve_rep_length: "sieve_rep N s xs \<Longrightarrow> length xs \<le> N"
proof -
  assume r: "sieve_rep N s xs"
  then have "set xs \<subseteq> {..<N}" "distinct xs" by (auto simp: sieve_rep_def queue_def)
  then show ?thesis using card_mono [of "{..<N}" "set xs"] by (simp add: distinct_card)
qed

lemma sieve_rep_queue: "sieve_rep N s xs \<Longrightarrow> sieve_queue N s = xs"
  using sieve_rep_length [of N s xs] by (simp add: sieve_queue_def sieve_rep_def queue_walk)

lemma sieve_okD: "sieve_ok N s \<Longrightarrow> sieve_rep N s (sieve_queue N s)"
  by (auto simp: sieve_ok_def dest: sieve_rep_queue)

lemma sieve_rep_ok: "sieve_rep N s xs \<Longrightarrow> sieve_ok N s \<and> sieve_queue N s = xs"
  by (auto simp: sieve_ok_def dest: sieve_rep_queue)

lemma sieve_order_set: "set (sieve_order N s) = set (sieve_queue N s)"
  unfolding sieve_order_def set_append
  by (subst (3) takeWhile_dropWhile_id [symmetric, of _ "\<lambda>b. b \<noteq> sieve_hand s"]) (simp only: set_append Un_commute)

lemma sieve_order_at:
  assumes "sieve_rep N s (as @ sieve_hand s # bs)"
  shows "sieve_order N s = sieve_hand s # bs @ as"
  using sieve_rep_distinct [OF assms] sieve_rep_queue [OF assms]
  by (simp add: sieve_order_def dropWhile_takeWhile_at)

text \<open>Advancing the hand rotates the order by one and leaves the list alone.\<close>

lemma SieveAdvanceHand_rep:
  assumes r: "sieve_rep N s xs" and "xs \<noteq> []"
  obtains s' where "SieveAdvanceHand N s = Some s'" "sieve_rep N s' xs"
    "sieve_order N s' = rotate1 (sieve_order N s)" "sieve_bgw_sync_seq s' = sieve_bgw_sync_seq s"
proof -
  have q: "queue (SieveNext s) (SievePrev s) N xs" and h: "sieve_hand s \<in> set xs"
    using assms by (auto simp: sieve_rep_def)
  then obtain as bs where xs: "xs = as @ sieve_hand s # bs" "sieve_hand s \<notin> set as"
    by (auto dest: split_list_first)
  let ?n = "if bs = [] then hd xs else hd bs"
  have d: "distinct xs" and N: "N \<notin> set xs" and hN: "sieve_hand s < N"
    using q r h by (auto simp: queue_def sieve_rep_def)
  have nx: "SieveNext s (sieve_hand s) = hd (bs @ [N])" using queue_neighbours [OF q [unfolded xs(1)]] by simp
  have tl: "SievePrev s N = hd xs" using queue_tail [OF q] assms(2) by simp
  have bsN: "bs \<noteq> [] \<Longrightarrow> hd bs \<noteq> N" using N xs by (cases bs) auto
  have eq: "SieveAdvanceHand N s = Some (s\<lparr>sieve_hand := ?n\<rparr>)"
    using hN nx tl bsN by (auto simp: SieveAdvanceHand_def)
  have n: "?n \<in> set xs" using hd_in_set [OF assms(2)] hd_in_set [of bs] xs(1) by auto
  have r': "sieve_rep N (s\<lparr>sieve_hand := ?n\<rparr>) xs" using r n assms(2) by (simp add: sieve_rep_def)
  have "sieve_order N s = sieve_hand s # bs @ as" using sieve_order_at r xs by simp
  moreover have "sieve_order N (s\<lparr>sieve_hand := ?n\<rparr>) = bs @ as @ [sieve_hand s]"
  proof (cases bs)
    case Nil
    then show ?thesis using sieve_order_at [of N "s\<lparr>sieve_hand := ?n\<rparr>" "[]" "tl xs"] r' assms(2) xs by simp
  next
    case (Cons b bs')
    then show ?thesis
      using sieve_order_at [of N "s\<lparr>sieve_hand := ?n\<rparr>" "as @ [sieve_hand s]" bs'] r' xs by simp
  qed
  ultimately show ?thesis using that [OF eq r'] by simp
qed

text \<open>
  Unlinking moves the hand off the buffer first: to the newer neighbour, or at the newest
  buffer to the older one.
\<close>

lemma SieveUnlinkAndAdvance_rep:
  assumes r: "sieve_rep N s xs" and x: "x \<in> set xs"
  obtains s' where "SieveUnlinkAndAdvance N x s = Some s'" "sieve_rep N s' (remove1 x xs)"
    "sieve_bgw_sync_seq s' = sieve_bgw_sync_seq s"
    "sieve_hand s \<noteq> x \<Longrightarrow> sieve_hand s' = sieve_hand s"
    "sieve_hand s = x \<Longrightarrow> sieve_hand s' = (if SieveNext s x = N then SievePrev s x else SieveNext s x)"
proof -
  let ?nx = "SieveNext s" and ?pv = "SievePrev s"
  let ?h = "if sieve_hand s = x then (if ?nx x = N then ?pv x else ?nx x) else sieve_hand s"
  let ?s = "s\<lparr>sieve_hand := ?h, SieveNext := unlink_next N N x ?nx ?pv, SievePrev := unlink_prev N N x ?nx ?pv\<rparr>"
  have q: "queue ?nx ?pv N xs" and b: "\<forall>x \<in> set xs. x < N" and d: "distinct xs"
    using r by (auto simp: sieve_rep_def queue_def)
  note nxm = queue_next_mem [OF q, of x] and pvm = queue_prev_mem [OF q, of x]
  have lt: "x < Suc N" "?nx x < Suc N" "?pv x < Suc N" using nxm pvm x b by (auto simp: less_Suc_eq)
  then have eq: "SieveUnlinkAndAdvance N x s = Some ?s"
    by (simp add: SieveUnlinkAndAdvance_def unlink_next_def unlink_prev_def Let_def)
  obtain as bs where xs: "xs = as @ x # bs" using x by (auto dest: split_list)
  note nb = queue_neighbours [OF q [unfolded xs]]
  have "(if remove1 x xs = [] then ?h = N else ?h \<in> set (remove1 x xs))"
    using r d nb b unfolding xs
    by (cases as rule: rev_cases; cases bs) (auto simp: sieve_rep_def remove1_append)
  moreover have "unlink_next N N x ?nx ?pv y = N \<and> unlink_prev N N x ?nx ?pv y = N"
    if "y < N" "y \<notin> set (remove1 x xs)" for y
    using that r x d unlink_frame [OF q x, of y] by (cases "y = x") (auto simp: sieve_rep_def set_remove1_eq)
  ultimately have "sieve_rep N ?s (remove1 x xs)"
    using queue_unlink [OF q x] b d by (auto simp: sieve_rep_def set_remove1_eq)
  with eq that show ?thesis by simp
qed

lemma sieve_member_test:
  assumes "sieve_rep N s xs" "x < N"
  shows "(SieveNext s x \<noteq> N \<or> SievePrev s x \<noteq> N \<or> SieveNext s N = x) \<longleftrightarrow> x \<in> set xs"
  using assms queue_member_test [of "SieveNext s" "SievePrev s" N xs x] by (auto simp: sieve_rep_def)

lemma SieveNotifyInsert_push:
  assumes r: "sieve_rep N s xs" and x: "x \<notin> set xs" "x < N"
  obtains s' where "SieveNotifyInsert N x s = Some s'" "sieve_rep N s' (xs @ [x])"
    "sieve_bgw_sync_seq s' = sieve_bgw_sync_seq s"
    "sieve_hand s' = (if xs = [] then x else sieve_hand s)"
proof -
  let ?s = "s\<lparr>SieveNext := push_next N x (SieveNext s), SievePrev := push_prev N x (SieveNext s) (SievePrev s),
    sieve_hand := (if sieve_hand s = N then x else sieve_hand s)\<rparr>"
  have q: "queue (SieveNext s) (SievePrev s) N xs" and lt: "SieveNext s N < Suc N"
    and h: "sieve_hand s = N \<longleftrightarrow> xs = []"
    using r queue_next_mem [of "SieveNext s" "SievePrev s" N xs N]
    by (auto simp: sieve_rep_def less_Suc_eq split: if_splits)
  have "SieveNotifyInsert N x s = Some ?s"
    using x lt sieve_member_test [OF r x(2)]
    by (simp add: SieveNotifyInsert_def push_next_def push_prev_def Let_def)
  moreover have "sieve_rep N ?s (xs @ [x])"
    using r x h queue_push [OF q x(1)] push_frame [OF q, of _ x] by (auto simp: sieve_rep_def)
  ultimately show ?thesis using that h by simp
qed

lemma SieveNotifyInsert_rep:
  assumes r: "sieve_rep N s xs" and x: "x < N"
  obtains s' where "SieveNotifyInsert N x s = Some s'" "sieve_rep N s' (remove1 x xs @ [x])"
    "sieve_bgw_sync_seq s' = sieve_bgw_sync_seq s"
proof (cases "x \<in> set xs")
  case False
  then show ?thesis using that SieveNotifyInsert_push [OF r False x] by (auto simp: remove1_idem)
next
  case True
  obtain s1 where s1: "SieveUnlinkAndAdvance N x s = Some s1" "sieve_rep N s1 (remove1 x xs)"
    "sieve_bgw_sync_seq s1 = sieve_bgw_sync_seq s"
    using SieveUnlinkAndAdvance_rep [OF r True] by blast
  have x1: "x \<notin> set (remove1 x xs)" using sieve_rep_distinct [OF r] by simp
  have "SieveNotifyInsert N x s = SieveNotifyInsert N x s1"
    using x sieve_member_test [OF r x] sieve_member_test [OF s1(2) x] True x1 s1(1)
    by (simp add: SieveNotifyInsert_def)
  moreover obtain s' where "SieveNotifyInsert N x s1 = Some s'" "sieve_rep N s' (remove1 x xs @ [x])"
    "sieve_bgw_sync_seq s' = sieve_bgw_sync_seq s1"
    using SieveNotifyInsert_push [OF s1(2) x1 x] by blast
  ultimately show ?thesis using that s1(3) by simp
qed

lemma SieveInitialize_rep:
  assumes "0 < N"
  obtains s' where "SieveInitialize N False s = Some s'" "sieve_rep N s' [0..<N]"
    "sieve_bgw_sync_seq s' = 0" "sieve_hand s' = 0"
proof -
  define I where "I i s' \<longleftrightarrow> sieve_hand s' = 0 \<and> sieve_bgw_sync_seq s' = 0 \<and>
    SieveNext s' N = N - 1 \<and> SievePrev s' N = 0 \<and>
    (\<forall>j < i. SieveNext s' j = (if Suc j < N then Suc j else N) \<and> SievePrev s' j = (if 0 < j then j - 1 else N))"
    for i and s' :: SieveState
  let ?s = "s\<lparr>sieve_hand := 0, sieve_bgw_sync_seq := 0, SieveNext := (SieveNext s)(N := N - 1),
    SievePrev := (SievePrev s)(N := 0)\<rparr>"
  define f where "f = (\<lambda>i (s :: SieveState). do {
      nx \<leftarrow> arr_set (N + 1) (SieveNext s) i (if i < N - 1 then i + 1 else N);
      pv \<leftarrow> arr_set (N + 1) (SievePrev s) i (if i > 0 then i - 1 else N);
      Some (s\<lparr>SieveNext := nx, SievePrev := pv\<rparr>) })"
  have "\<exists>s'. f i s = Some s' \<and> I (Suc i) s'" if "i < N" "I i s" for i s
    using that by (auto simp: f_def I_def less_Suc_eq)
  moreover have "I 0 ?s" by (simp add: I_def)
  ultimately obtain s' where s': "foldM f [0..<N] ?s = Some s'" "I N s'"
    using foldM_upto [of I ?s N f] by blast
  moreover have "sieve_rep N s' [0..<N]"
    using s'(2) assms queue_init [of N "SieveNext s'" "SievePrev s'"] by (simp add: sieve_rep_def I_def)
  ultimately show ?thesis using that by (simp add: SieveInitialize_def f_def I_def)
qed

section \<open>Searching under interference\<close>

abbreviation sieve_mem :: "nat \<Rightarrow> SieveState \<Rightarrow> nat set" where
  "sieve_mem N s \<equiv> set (sieve_queue N s)"

lemma SieveAdvanceHand_searching:
  assumes pre: "search_pre N (sieve_ok N) E p" and "sieve_hand (pol p) \<noteq> N"
  obtains s where "SieveAdvanceHand N (pol p) = Some s" "sieve_ok N s"
    "sieve_queue N s = sieve_queue N (pol p)" "sieve_order N s = rotate1 (sieve_order N (pol p))"
proof -
  have r: "sieve_rep N (pol p) (sieve_queue N (pol p))" and "sieve_queue N (pol p) \<noteq> []"
    using pre assms(2) sieve_okD [of N "pol p"] by (auto simp: search_pre_def sieve_rep_def)
  from SieveAdvanceHand_rep [OF this] sieve_rep_ok that show ?thesis by metis
qed

lemma Sieve_claim:
  assumes pre: "search_pre N (sieve_ok N) E p" and c: "c \<in> sieve_mem N (pol p)"
    and free: "BUF_STATE_GET_REFCOUNT s = 0" "\<not> bit s 22" and s: "E t (hdr p) c = s"
  shows "\<exists>pol' q. SieveUnlinkAndAdvance N c (pol p) = Some pol' \<and>
    claim_victim c (p\<lparr>hdr := (E t (hdr p))(c := s + BUF_REFCOUNT_ONE), pol := pol'\<rparr>) = Some q \<and>
    victim_taken N (sieve_ok N) (sieve_mem N) p q (c, s + BUF_REFCOUNT_ONE) \<and>
    hdr q = (E t (hdr p))(c := s + BUF_REFCOUNT_ONE) \<and> pol q = pol' \<and> ctl q = ctl p \<and>
    sieve_queue N pol' = remove1 c (sieve_queue N (pol p))"
proof -
  have ok: "sieve_ok N (pol p)" using pre by (simp add: search_pre_def)
  note r = sieve_okD [OF ok]
  have "c < N" using r c by (simp add: sieve_rep_def)
  obtain pol' where pol': "SieveUnlinkAndAdvance N c (pol p) = Some pol'"
    "sieve_rep N pol' (remove1 c (sieve_queue N (pol p)))"
    using SieveUnlinkAndAdvance_rep [OF r c] by blast
  have q': "sieve_ok N pol'" "sieve_queue N pol' = remove1 c (sieve_queue N (pol p))"
    using sieve_rep_ok [OF pol'(2)] by simp_all
  have "sieve_mem N pol' \<subseteq> sieve_mem N (pol p)" "sieve_mem N (pol p) \<subseteq> insert c (sieve_mem N pol')"
    using q' sieve_rep_distinct [OF r] by (auto simp: set_remove1_eq)
  from claim_search [where mem = "sieve_mem N", OF pre \<open>c < N\<close> c free s q'(1) this]
  obtain q where "claim_victim c (p\<lparr>hdr := (E t (hdr p))(c := s + BUF_REFCOUNT_ONE), pol := pol'\<rparr>) = Some q"
    "victim_taken N (sieve_ok N) (sieve_mem N) p q (c, s + BUF_REFCOUNT_ONE)"
    "hdr q = (E t (hdr p))(c := s + BUF_REFCOUNT_ONE)" "pol q = pol'" "ctl q = ctl p" .
  with pol'(1) q' show ?thesis by (intro exI [of _ pol'] exI [of _ q]) simp
qed

lemma SieveGetBuffer_loop_ok:
  assumes "search_pre N (sieve_ok N) E p"
  shows "victim_ok N (sieve_ok N) (sieve_mem N) p (SieveGetBuffer_loop fuel N E t p k)"
  using assms
proof (induction fuel arbitrary: t p k)
  case 0
  then show ?case by (auto intro: victim_ok_Spin searching_refl)
next
  case (Suc fuel)
  let ?st = "E t (hdr p)" and ?c = "sieve_hand (pol p)"
  note pre = Suc.prems(1)
  have r: "sieve_rep N (pol p) (sieve_queue N (pol p))"
    using pre sieve_okD by (simp add: search_pre_def)
  have own: "own_pins ?st (me p)" using pre by (rule search_pre_own_pins)
  have go: "searching (sieve_ok N) (sieve_mem N) p (p\<lparr>hdr := ?st\<rparr>)" using pre own by (rule searching_hdr)
  have own2: "own_pins (E (Suc t) ?st) (me p)"
    using search_pre_own_pins [OF searching_pre [OF pre go], of "Suc t"] by simp
  show ?case
  proof (cases "?c = N")
    case True
    with pre show ?thesis by (auto intro: victim_ok_Raise searching_refl)
  next
    case False
    then have c: "?c \<in> sieve_mem N (pol p)" "?c < N" using r by (auto simp: sieve_rep_def split: if_splits)
    obtain s where s: "SieveAdvanceHand N (pol p) = Some s" "sieve_ok N s" "sieve_queue N s = sieve_queue N (pol p)"
      using SieveAdvanceHand_searching [OF pre False] by blast
    have adv: "searching (sieve_ok N) (sieve_mem N) p (p\<lparr>hdr := st, pol := s\<rparr>)" if "own_pins st (me p)" for st
      using pre that s by (intro searching_pol) auto
    have cont: "victim_ok N (sieve_ok N) (sieve_mem N) p (SieveGetBuffer_loop fuel N E t' q k')"
      if "searching (sieve_ok N) (sieve_mem N) p q" for t' q k'
      using pre that Suc.IH by (rule victim_ok_continue)
    consider (locked) "bit (?st ?c) 22" | (pinned) "\<not> bit (?st ?c) 22" "BUF_STATE_GET_REFCOUNT (?st ?c) \<noteq> 0"
      | (visited) "\<not> bit (?st ?c) 22" "BUF_STATE_GET_REFCOUNT (?st ?c) = 0" "BUF_STATE_GET_USAGECOUNT (?st ?c) \<noteq> 0"
      | (free) "\<not> bit (?st ?c) 22" "BUF_STATE_GET_REFCOUNT (?st ?c) = 0" "BUF_STATE_GET_USAGECOUNT (?st ?c) = 0"
      by blast
    then show ?thesis
    proof cases
      case locked
      with c False s show ?thesis using cont [OF adv [OF own]] by (simp add: Let_def)
    next
      case pinned
      with c False s show ?thesis
        using cont [OF adv [OF own]] adv [OF own] by (simp add: Let_def victim_ok_Raise)
    next
      case visited
      let ?st2 = "snd (snd (pg_atomic_compare_exchange_u64 (E (Suc t) ?st) ?c (?st ?c)
        (?st ?c AND NOT BUF_USAGECOUNT_MASK)))"
      have "own_pins ?st2 (me p)"
        using own2 by (simp add: pg_atomic_compare_exchange_u64_def own_pins_same_refcount bufstate_simps)
      from cont [OF adv [OF this]] c False s visited show ?thesis
        by (simp add: Let_def case_prod_unfold)
    next
      case free
      let ?p = "p\<lparr>hdr := ?st\<rparr>"
      show ?thesis
      proof (cases "E (Suc t) ?st ?c = ?st ?c")
        case True
        then have "E (Suc t) (hdr ?p) ?c = ?st ?c" by simp
        from Sieve_claim [OF searching_pre [OF pre go] _ free(2,1) this] c(1)
        obtain pol' q where q: "SieveUnlinkAndAdvance N ?c (pol p) = Some pol'"
          "claim_victim ?c (p\<lparr>hdr := (E (Suc t) ?st)(?c := ?st ?c + BUF_REFCOUNT_ONE), pol := pol'\<rparr>) = Some q"
          "victim_taken N (sieve_ok N) (sieve_mem N) ?p q (?c, ?st ?c + BUF_REFCOUNT_ONE)"
          by auto
        then have "victim_ok N (sieve_ok N) (sieve_mem N) ?p (Done (Suc (Suc t), q) (?c, ?st ?c + BUF_REFCOUNT_ONE))"
          by (simp add: victim_ok_def)
        from victim_ok_step [OF go this] show ?thesis
          using q c False free True by (simp add: Let_def pg_atomic_compare_exchange_u64_def)
      next
        case neq: False
        with c free False show ?thesis
          using cont [OF searching_hdr [OF pre own2]]
          by (simp add: Let_def pg_atomic_compare_exchange_u64_def)
      qed
    qed
  qed
qed

section \<open>The victim of an undisturbed search\<close>

abbreviation visited :: "states \<Rightarrow> nat \<Rightarrow> bool" where
  "visited st b \<equiv> BUF_STATE_GET_USAGECOUNT (st b) \<noteq> 0"

text \<open>
  The reference definition of SIEVE over the order \<open>ys\<close> in which the hand meets the
  buffers: the first unpinned buffer that is not visited, or, if there is none, the first
  unpinned one (whose mark the first round has cleared). The marks of the unpinned buffers
  the hand passed on the way are cleared.
\<close>

definition sieve_victim :: "states \<Rightarrow> nat list \<Rightarrow> nat option" where
  "sieve_victim st ys =
     (case find (\<lambda>b. unpinned st b \<and> \<not> visited st b) ys of
        Some v \<Rightarrow> Some v
      | None \<Rightarrow> find (unpinned st) ys)"

definition sieve_passed :: "states \<Rightarrow> nat list \<Rightarrow> nat list" where
  "sieve_passed st ys = takeWhile (\<lambda>b. \<not> (unpinned st b \<and> \<not> visited st b)) ys"

definition sieve_clear :: "nat list \<Rightarrow> states \<Rightarrow> states" where
  "sieve_clear bs st =
     (\<lambda>b. if b \<in> set bs \<and> unpinned st b \<and> visited st b then st b AND NOT BUF_USAGECOUNT_MASK else st b)"

lemma sieve_clear_Nil [simp]: "sieve_clear [] st = st"
  by (simp add: sieve_clear_def)

lemma sieve_clear_pinned [simp]: "\<not> unpinned st z \<Longrightarrow> sieve_clear (z # zs) st = sieve_clear zs st"
  by (auto simp: sieve_clear_def)

lemma sieve_clear_visited:
  assumes "unpinned st z" "visited st z" "z \<notin> set zs"
  shows "sieve_clear zs (st(z := st z AND NOT BUF_USAGECOUNT_MASK)) = sieve_clear (z # zs) st"
  using assms by (auto simp: sieve_clear_def fun_eq_iff)

lemma sieve_clear_fields [simp]:
  "BUF_STATE_GET_REFCOUNT (sieve_clear zs st b) = BUF_STATE_GET_REFCOUNT (st b)"
  "22 \<le> k \<Longrightarrow> bit (sieve_clear zs st b) k = bit (st b) k"
  by (simp_all add: sieve_clear_def bufstate_simps)

lemma visited_sieve_clear:
  "visited (sieve_clear zs st) b \<longleftrightarrow> visited st b \<and> \<not> (b \<in> set zs \<and> unpinned st b)"
  by (auto simp: sieve_clear_def bufstate_simps)

lemma sieve_order_hand:
  assumes "sieve_ok N s" "sieve_order N s = z # zs"
  shows "sieve_hand s = z" "z < N" "z \<in> sieve_mem N s" "distinct (z # zs)" "length (z # zs) \<le> N"
proof -
  note r = sieve_okD [OF assms(1)]
  have "sieve_queue N s \<noteq> []" using assms(2) by (auto simp: sieve_order_def)
  then have "sieve_hand s \<in> sieve_mem N s" using r by (simp add: sieve_rep_def)
  then obtain as bs where xs: "sieve_queue N s = as @ sieve_hand s # bs" by (meson split_list)
  then have o: "z # zs = sieve_hand s # bs @ as" using sieve_order_at [of N s as bs] r assms(2) by simp
  then show "sieve_hand s = z" "z \<in> sieve_mem N s" using xs by auto
  then show "z < N" using r by (simp add: sieve_rep_def)
  show "distinct (z # zs)" using sieve_rep_distinct [OF r] xs o by auto
  show "length (z # zs) \<le> N" using sieve_rep_length [OF r] unfolding o xs by simp
qed

lemma SieveAdvanceHand_order:
  assumes "sieve_ok N s" "sieve_order N s = z # zs"
  obtains s' where "SieveAdvanceHand N s = Some s'" "sieve_ok N s'" "sieve_queue N s' = sieve_queue N s"
    "sieve_order N s' = zs @ [z]"
proof -
  have "sieve_queue N s \<noteq> []" using sieve_order_hand(3) [OF assms] by auto
  from SieveAdvanceHand_rep [OF sieve_okD [OF assms(1)] this]
  obtain s' where "SieveAdvanceHand N s = Some s'" "sieve_rep N s' (sieve_queue N s)"
    "sieve_order N s' = rotate1 (sieve_order N s)" by blast
  with assms(2) that sieve_rep_ok show ?thesis by (metis rotate1.simps(2))
qed

declare SieveGetBuffer_loop.simps [simp del]

lemma sieve_step:
  assumes ok: "sieve_ok N (pol p)" "sieve_order N (pol p) = z # zs" and unl: "\<not> bit (hdr p z) 22"
    and s: "SieveAdvanceHand N (pol p) = Some s"
  shows "\<not> unpinned (hdr p) z \<Longrightarrow> k \<noteq> 1 \<Longrightarrow> SieveGetBuffer_loop (Suc n) N quiet t p k =
      SieveGetBuffer_loop n N quiet (Suc t) (p\<lparr>pol := s\<rparr>) (k - 1)"
    and "\<not> unpinned (hdr p) z \<Longrightarrow> SieveGetBuffer_loop (Suc n) N quiet t p 1 =
      Raise (Suc t, p\<lparr>pol := s\<rparr>) NoUnpinnedBuffersAvailable"
    and "unpinned (hdr p) z \<Longrightarrow> visited (hdr p) z \<Longrightarrow> SieveGetBuffer_loop (Suc n) N quiet t p k =
      SieveGetBuffer_loop n N quiet (Suc (Suc t))
        (p\<lparr>hdr := (hdr p)(z := hdr p z AND NOT BUF_USAGECOUNT_MASK), pol := s\<rparr>) (int N)"
  using sieve_order_hand [OF ok] unl s
  by (simp_all add: SieveGetBuffer_loop.simps quiet_def Let_def pg_atomic_compare_exchange_u64_def)

text \<open>
  The hand passes any stretch of pinned or visited buffers. The try counter stays above the
  number of pinned buffers still ahead of the next unpinned one, so it never runs out.
\<close>

lemma sieve_scan:
  assumes "sieve_ok N (pol p)" "sieve_order N (pol p) = zs @ ws"
    and "\<And>b. b \<in> set (zs @ ws) \<Longrightarrow> \<not> bit (hdr p b) 22"
    and "\<And>z. z \<in> set zs \<Longrightarrow> unpinned (hdr p) z \<Longrightarrow> visited (hdr p) z"
    and "\<exists>b \<in> set (zs @ ws). unpinned (hdr p) b"
    and "k > int (length (takeWhile (\<lambda>b. \<not> unpinned (hdr p) b) (zs @ ws)))"
  shows "\<exists>t' s k'. SieveGetBuffer_loop (length zs + n) N quiet t p k =
      SieveGetBuffer_loop n N quiet t' (p\<lparr>hdr := sieve_clear zs (hdr p), pol := s\<rparr>) k' \<and>
    sieve_ok N s \<and> sieve_queue N s = sieve_queue N (pol p) \<and> sieve_order N s = ws @ zs \<and>
    k' > int (length (takeWhile (\<lambda>b. \<not> unpinned (hdr p) b) (ws @ zs)))"
  using assms
proof (induction zs arbitrary: p ws k t)
  case Nil
  then show ?case by (intro exI [of _ t] exI [of _ "pol p"] exI [of _ k]) simp
next
  case (Cons z zs)
  have ok: "sieve_ok N (pol p)" "sieve_order N (pol p) = z # zs @ ws" using Cons.prems by auto
  obtain s where s: "SieveAdvanceHand N (pol p) = Some s" "sieve_ok N s" "sieve_queue N s = sieve_queue N (pol p)"
    "sieve_order N s = (zs @ ws) @ [z]"
    using SieveAdvanceHand_order [OF ok] by blast
  note h = sieve_order_hand [OF ok]
  have unl: "\<not> bit (hdr p z) 22" using Cons.prems by simp
  note step = sieve_step [OF ok unl s(1)]
  show ?case
  proof (cases "unpinned (hdr p) z")
    case False
    let ?p = "p\<lparr>pol := s\<rparr>"
    have ex: "\<exists>b \<in> set (zs @ ws). unpinned (hdr p) b" using Cons.prems(5) False by auto
    then obtain u where "u \<in> set (zs @ ws)" "unpinned (hdr p) u" by blast
    then have tw: "takeWhile (\<lambda>b. \<not> unpinned (hdr p) b) ((zs @ ws) @ [z]) = takeWhile (\<lambda>b. \<not> unpinned (hdr p) b) (zs @ ws)"
      by (intro takeWhile_append1 [of u]) auto
    have "\<exists>t' s' k'. SieveGetBuffer_loop (length zs + n) N quiet (Suc t) ?p (k - 1) =
        SieveGetBuffer_loop n N quiet t' (?p\<lparr>hdr := sieve_clear zs (hdr ?p), pol := s'\<rparr>) k' \<and>
      sieve_ok N s' \<and> sieve_queue N s' = sieve_queue N (pol ?p) \<and> sieve_order N s' = (ws @ [z]) @ zs \<and>
      k' > int (length (takeWhile (\<lambda>b. \<not> unpinned (hdr ?p) b) ((ws @ [z]) @ zs)))"
      by (rule Cons.IH) (use s Cons.prems False ex tw in auto)
    moreover have "k \<noteq> 1" using Cons.prems(6) False by auto
    ultimately show ?thesis using step(1) [OF False] s(3) False by simp
  next
    case True
    let ?st = "(hdr p)(z := hdr p z AND NOT BUF_USAGECOUNT_MASK)"
    let ?p = "p\<lparr>hdr := ?st, pol := s\<rparr>"
    have vis: "visited (hdr p) z" using Cons.prems(4) True by simp
    have zn: "z \<notin> set zs" using h(4) by simp
    have pin: "unpinned ?st b = unpinned (hdr p) b" for b by (simp add: bufstate_simps)
    have "length (takeWhile (\<lambda>b. \<not> unpinned ?st b) (zs @ ws @ [z])) \<le> length (zs @ ws)"
      using True length_takeWhile_le [of "\<lambda>b. \<not> unpinned (hdr p) b" "zs @ ws"]
      unfolding pin append_assoc [symmetric] takeWhile_append by auto
    then have len: "int N > int (length (takeWhile (\<lambda>b. \<not> unpinned ?st b) (zs @ ws @ [z])))"
      using h(5) by simp
    have "\<exists>t' s' k'. SieveGetBuffer_loop (length zs + n) N quiet (Suc (Suc t)) ?p (int N) =
        SieveGetBuffer_loop n N quiet t' (?p\<lparr>hdr := sieve_clear zs (hdr ?p), pol := s'\<rparr>) k' \<and>
      sieve_ok N s' \<and> sieve_queue N s' = sieve_queue N (pol ?p) \<and> sieve_order N s' = (ws @ [z]) @ zs \<and>
      k' > int (length (takeWhile (\<lambda>b. \<not> unpinned (hdr ?p) b) ((ws @ [z]) @ zs)))"
      by (rule Cons.IH) (use s Cons.prems True len zn in \<open>auto simp: bufstate_simps\<close>)
    then show ?thesis
      using step(3) [OF True vis] s(3) sieve_clear_visited [of "hdr p" z zs] True vis zn pin by simp
  qed
qed

lemma sieve_take:
  assumes pre: "search_pre N (sieve_ok N) quiet p" and o: "sieve_order N (pol p) = z # zs"
    and u: "\<not> bit (hdr p z) 22" "unpinned (hdr p) z" "\<not> visited (hdr p) z"
  shows "\<exists>t' q. SieveGetBuffer_loop (Suc n) N quiet t p k = Done (t', q) (z, hdr p z + BUF_REFCOUNT_ONE) \<and>
    hdr q = pin_state z (hdr p) \<and> sieve_queue N (pol q) = remove1 z (sieve_queue N (pol p))"
proof -
  have ok: "sieve_ok N (pol p)" using pre by (simp add: search_pre_def)
  note h = sieve_order_hand [OF ok o]
  obtain pol' q where "SieveUnlinkAndAdvance N z (pol p) = Some pol'"
    "claim_victim z (p\<lparr>hdr := (hdr p)(z := hdr p z + BUF_REFCOUNT_ONE), pol := pol'\<rparr>) = Some q"
    "hdr q = (hdr p)(z := hdr p z + BUF_REFCOUNT_ONE)" "pol q = pol'"
    "sieve_queue N pol' = remove1 z (sieve_queue N (pol p))"
    using Sieve_claim [OF pre h(3) u(2,1), where t = 0] by (auto simp: quiet_def)
  with u h show ?thesis
    by (simp add: SieveGetBuffer_loop.simps quiet_def pin_state_def pg_atomic_compare_exchange_u64_def)
qed

text \<open>A stretch of pinned or visited buffers, then one that is neither.\<close>

lemma sieve_scan_take:
  assumes pre: "search_pre N (sieve_ok N) quiet p" and o: "sieve_order N (pol p) = zs @ v # ws"
    and unl: "\<And>b. b \<in> set (zs @ v # ws) \<Longrightarrow> \<not> bit (hdr p b) 22"
    and zs: "\<And>z. z \<in> set zs \<Longrightarrow> unpinned (hdr p) z \<Longrightarrow> visited (hdr p) z"
    and v: "unpinned (hdr p) v" "\<not> visited (hdr p) v"
    and k: "k > int (length (takeWhile (\<lambda>b. \<not> unpinned (hdr p) b) (zs @ v # ws)))"
  shows "\<exists>t' q. SieveGetBuffer_loop (length zs + Suc n) N quiet t p k =
      Done (t', q) (v, hdr p v + BUF_REFCOUNT_ONE) \<and>
    hdr q = pin_state v (sieve_clear zs (hdr p)) \<and> sieve_queue N (pol q) = remove1 v (sieve_queue N (pol p))"
proof -
  have ok: "sieve_ok N (pol p)" using pre by (simp add: search_pre_def)
  have ex: "\<exists>b \<in> set (zs @ v # ws). unpinned (hdr p) b" using v by auto
  obtain t' s k' where s: "SieveGetBuffer_loop (length zs + Suc n) N quiet t p k =
      SieveGetBuffer_loop (Suc n) N quiet t' (p\<lparr>hdr := sieve_clear zs (hdr p), pol := s\<rparr>) k'"
    "sieve_ok N s" "sieve_queue N s = sieve_queue N (pol p)" "sieve_order N s = (v # ws) @ zs"
    using sieve_scan [OF ok o unl zs ex k, where n = "Suc n" and t = t] by blast
  let ?p = "p\<lparr>hdr := sieve_clear zs (hdr p), pol := s\<rparr>"
  have "own_pins (sieve_clear zs (hdr p)) (me p)"
    using pre by (simp add: search_pre_def pool_ok_def own_pins_def)
  then have "searching (sieve_ok N) (sieve_mem N) p ?p" using s by (intro searching_pol [OF pre]) auto
  from searching_pre [OF pre this] have pre': "search_pre N (sieve_ok N) quiet ?p" .
  have "v \<notin> set zs" using zs v by auto
  then have same: "sieve_clear zs (hdr p) v = hdr p v" by (simp add: sieve_clear_def)
  have "sieve_order N (pol ?p) = v # ws @ zs" "\<not> bit (hdr ?p v) 22" "unpinned (hdr ?p) v" "\<not> visited (hdr ?p) v"
    using s(4) unl [of v] v same by simp_all
  from sieve_take [OF pre' this, of n t' k'] show ?thesis using s(1,3) same by simp
qed

lemma sieve_all_pinned:
  assumes "sieve_ok N (pol p)" "sieve_queue N (pol p) \<noteq> []"
    and "\<And>b. b \<in> sieve_mem N (pol p) \<Longrightarrow> \<not> bit (hdr p b) 22 \<and> \<not> unpinned (hdr p) b" and "m < fuel"
  shows "\<exists>t' s. SieveGetBuffer_loop fuel N quiet t p (int (Suc m)) =
      Raise (t', p\<lparr>pol := s\<rparr>) NoUnpinnedBuffersAvailable \<and>
    sieve_ok N s \<and> sieve_queue N s = sieve_queue N (pol p)"
  using assms
proof (induction m arbitrary: p fuel t)
  case 0
  obtain z zs where o: "sieve_order N (pol p) = z # zs"
    using sieve_order_set [of N "pol p"] 0(2) by (cases "sieve_order N (pol p)") auto
  note h = sieve_order_hand [OF 0(1) o]
  obtain s where "SieveAdvanceHand N (pol p) = Some s" "sieve_ok N s" "sieve_queue N s = sieve_queue N (pol p)"
    using SieveAdvanceHand_order [OF 0(1) o] by blast
  moreover obtain n where "fuel = Suc n" using 0(4) by (cases fuel) auto
  ultimately show ?case using sieve_step(2) [OF 0(1) o] 0(3) [OF h(3)] by auto
next
  case (Suc m)
  obtain z zs where o: "sieve_order N (pol p) = z # zs"
    using sieve_order_set [of N "pol p"] Suc.prems(2) by (cases "sieve_order N (pol p)") auto
  note h = sieve_order_hand [OF Suc.prems(1) o]
  obtain s where s: "SieveAdvanceHand N (pol p) = Some s" "sieve_ok N s" "sieve_queue N s = sieve_queue N (pol p)"
    using SieveAdvanceHand_order [OF Suc.prems(1) o] by blast
  obtain n where n: "fuel = Suc n" "m < n" using Suc.prems(4) by (cases fuel) auto
  have "\<exists>t' s'. SieveGetBuffer_loop n N quiet (Suc t) (p\<lparr>pol := s\<rparr>) (int (Suc m)) =
      Raise (t', (p\<lparr>pol := s\<rparr>)\<lparr>pol := s'\<rparr>) NoUnpinnedBuffersAvailable \<and>
      sieve_ok N s' \<and> sieve_queue N s' = sieve_queue N (pol (p\<lparr>pol := s\<rparr>))"
    by (rule Suc.IH) (use s Suc.prems n in auto)
  then show ?case
    using sieve_step(1) [OF Suc.prems(1) o _ s(1), of "int (Suc (Suc m))" n t] Suc.prems(3) [OF h(3)] s(3) n(1)
    by simp
qed

text \<open>
  The search takes the victim of the reference definition: in the first round, or after a
  full round that cleared every mark.
\<close>

lemma sieve_fuel: "length (xs :: nat list) \<le> m \<Longrightarrow> m < fuel \<Longrightarrow> \<exists>n. fuel = length xs + Suc n"
  by (rule exI [of _ "fuel - length xs - 1"]) simp

lemma sieve_first_round:
  assumes pre: "search_pre N (sieve_ok N) quiet p"
    and unl: "\<forall>b \<in> set (sieve_order N (pol p)). \<not> bit (hdr p b) 22"
    and v: "find (\<lambda>b. unpinned (hdr p) b \<and> \<not> visited (hdr p) b) (sieve_order N (pol p)) = Some v"
    and k: "k > int (length (takeWhile (\<lambda>b. \<not> unpinned (hdr p) b) (sieve_order N (pol p))))"
    and fuel: "N < fuel"
  shows "\<exists>t' q. SieveGetBuffer_loop fuel N quiet t p k = Done (t', q) (v, hdr p v + BUF_REFCOUNT_ONE) \<and>
    hdr q = pin_state v (sieve_clear (sieve_passed (hdr p) (sieve_order N (pol p))) (hdr p)) \<and>
    sieve_queue N (pol q) = remove1 v (sieve_queue N (pol p))"
proof -
  let ?P = "\<lambda>b. unpinned (hdr p) b \<and> \<not> visited (hdr p) b" and ?o = "sieve_order N (pol p)"
  let ?zs = "takeWhile (\<lambda>b. \<not> ?P b) ?o"
  from find_split [OF v] obtain ws where P: "unpinned (hdr p) v" "\<not> visited (hdr p) v" and ws: "?o = ?zs @ v # ws"
    by blast
  have zs: "unpinned (hdr p) z \<Longrightarrow> visited (hdr p) z" if "z \<in> set ?zs" for z
    using set_takeWhileD [OF that] by auto
  have len: "length ?o \<le> N"
    using sieve_order_hand(5) [of N "pol p"] pre by (cases ?o) (auto simp: search_pre_def)
  have "length ?zs \<le> N" using len find_takeWhile_less [OF v] by linarith
  then obtain n where n: "fuel = length ?zs + Suc n" using sieve_fuel [of ?zs N fuel] fuel by blast
  have unl': "\<not> bit (hdr p b) 22" if "b \<in> set (?zs @ v # ws)" for b
    using unl that unfolding ws [symmetric] by blast
  have k': "k > int (length (takeWhile (\<lambda>b. \<not> unpinned (hdr p) b) (?zs @ v # ws)))"
    using k unfolding ws [symmetric] .
  from sieve_scan_take [OF pre ws unl' zs P k', where n = n and t = t]
  show ?thesis unfolding n sieve_passed_def by blast
qed

lemma sieve_second_round:
  assumes pre: "search_pre N (sieve_ok N) quiet p"
    and unl: "\<forall>b \<in> set (sieve_order N (pol p)). \<not> bit (hdr p b) 22"
    and none: "find (\<lambda>b. unpinned (hdr p) b \<and> \<not> visited (hdr p) b) (sieve_order N (pol p)) = None"
    and v: "find (unpinned (hdr p)) (sieve_order N (pol p)) = Some v" and fuel: "2 * N < fuel"
  shows "\<exists>t' q. SieveGetBuffer_loop fuel N quiet t p (int N) =
      Done (t', q) (v, sieve_clear (sieve_order N (pol p)) (hdr p) v + BUF_REFCOUNT_ONE) \<and>
    hdr q = pin_state v (sieve_clear (sieve_order N (pol p)) (hdr p)) \<and>
    sieve_queue N (pol q) = remove1 v (sieve_queue N (pol p))"
proof -
  let ?o = "sieve_order N (pol p)"
  let ?st = "sieve_clear ?o (hdr p)"
  have ok: "sieve_ok N (pol p)" using pre by (simp add: search_pre_def)
  have len: "length ?o \<le> N" using sieve_order_hand(5) [OF ok] by (cases ?o) auto
  have o: "?o = ?o @ []" by simp
  have ex: "\<exists>b \<in> set (?o @ []). unpinned (hdr p) b" using find_Some_mem [OF v] by auto
  have tw: "int N > int (length (takeWhile (\<lambda>b. \<not> unpinned (hdr p) b) (?o @ [])))"
    using find_takeWhile_less [OF v] len by simp
  have unl': "\<not> bit (hdr p b) 22" if "b \<in> set (?o @ [])" for b using unl that by simp
  have vis: "unpinned (hdr p) z \<Longrightarrow> visited (hdr p) z" if "z \<in> set ?o" for z
    using none that by (auto simp: find_None_iff)
  obtain t' s k' where s: "SieveGetBuffer_loop (length ?o + (fuel - length ?o)) N quiet t p (int N) =
      SieveGetBuffer_loop (fuel - length ?o) N quiet t' (p\<lparr>hdr := ?st, pol := s\<rparr>) k'"
    "sieve_ok N s" "sieve_queue N s = sieve_queue N (pol p)" "sieve_order N s = [] @ ?o"
    "k' > int (length (takeWhile (\<lambda>b. \<not> unpinned (hdr p) b) ([] @ ?o)))"
    using sieve_scan [OF ok o unl' vis ex tw, where n = "fuel - length ?o" and t = t] by blast
  let ?p = "p\<lparr>hdr := ?st, pol := s\<rparr>"
  have "own_pins ?st (me p)" using pre by (simp add: search_pre_def pool_ok_def own_pins_def)
  then have "searching (sieve_ok N) (sieve_mem N) p ?p" using s by (intro searching_pol [OF pre]) auto
  from searching_pre [OF pre this] have pre': "search_pre N (sieve_ok N) quiet ?p" .
  have fresh: "(unpinned ?st b \<and> \<not> visited ?st b) = unpinned (hdr p) b" if "b \<in> set ?o" for b
    using that by (auto simp: visited_sieve_clear)
  have find: "find (\<lambda>b. unpinned ?st b \<and> \<not> visited ?st b) ?o = Some v"
  proof -
    have "find (\<lambda>b. unpinned ?st b \<and> \<not> visited ?st b) ?o = find (unpinned (hdr p)) ?o"
      by (rule find_cong [OF refl]) (rule fresh)
    from trans [OF this v] show ?thesis .
  qed
  have passed: "sieve_passed ?st ?o = takeWhile (\<lambda>b. \<not> unpinned (hdr p) b) ?o"
    unfolding sieve_passed_def using fresh by (intro takeWhile_cong) auto
  have keep: "sieve_clear (sieve_passed ?st ?o) ?st = ?st"
    unfolding passed by (auto simp: sieve_clear_def fun_eq_iff dest: set_takeWhileD)
  have "\<exists>t'' q. SieveGetBuffer_loop (fuel - length ?o) N quiet t' ?p k' =
      Done (t'', q) (v, hdr ?p v + BUF_REFCOUNT_ONE) \<and>
    hdr q = pin_state v (sieve_clear (sieve_passed (hdr ?p) (sieve_order N (pol ?p))) (hdr ?p)) \<and>
    sieve_queue N (pol q) = remove1 v (sieve_queue N (pol ?p))"
    by (rule sieve_first_round [OF pre']) (use s unl find len fuel in simp_all)
  then show ?thesis using s keep len fuel by simp
qed

section \<open>Properties\<close>

text \<open>The shared memory of the policy right after startup, with \<open>n\<close> buffers.\<close>

definition sieve_started :: "nat \<Rightarrow> SieveState" where
  "sieve_started n =
     the (SieveInitialize n False
       \<lparr>sieve_hand = 0, sieve_bgw_sync_seq = 0, SieveNext = (\<lambda>_. 0), SievePrev = (\<lambda>_. 0)\<rparr>)"

lemma sieve_started_ok:
  assumes "0 < n"
  shows "sieve_ok n (sieve_started n)" "sieve_queue n (sieve_started n) = [0..<n]"
    "sieve_hand (sieve_started n) = 0"
proof -
  obtain s where "SieveInitialize n False
      \<lparr>sieve_hand = 0, sieve_bgw_sync_seq = 0, SieveNext = (\<lambda>_. 0), SievePrev = (\<lambda>_. 0)\<rparr> = Some s"
    "sieve_rep n s [0..<n]" "sieve_hand s = 0"
    using SieveInitialize_rep [OF assms] by blast
  then show "sieve_ok n (sieve_started n)" "sieve_queue n (sieve_started n) = [0..<n]"
    "sieve_hand (sieve_started n) = 0"
    using sieve_rep_ok by (simp_all add: sieve_started_def)
qed

text \<open>
  C20: \<open>SieveInitialize\<close> on fresh shared memory links all buffers in index order with the
  hand on the oldest; \<open>SieveNotifyInsert\<close> puts a buffer at the newest end of the list,
  whether or not it was linked; \<open>SieveUnlinkAndAdvance\<close> removes a linked buffer. None of
  them leaves the arrays, and after each the hand stands on a linked buffer, or on the
  sentinel when the list is empty.
\<close>

theorem Sieve_hooks_refine:
  assumes "sieve_ok N s" "b < N"
  shows "(\<exists>s'. SieveNotifyInsert N b s = Some s' \<and> sieve_ok N s' \<and>
      sieve_queue N s' = remove1 b (sieve_queue N s) @ [b]) \<and>
    (b \<in> set (sieve_queue N s) \<longrightarrow> (\<exists>s'. SieveUnlinkAndAdvance N b s = Some s' \<and> sieve_ok N s' \<and>
      sieve_queue N s' = remove1 b (sieve_queue N s))) \<and>
    SieveNotifyInvalidate N b s = Some s \<and>
    (\<exists>s'. SieveInitialize N False s = Some s' \<and> sieve_ok N s' \<and> sieve_queue N s' = [0..<N] \<and> sieve_hand s' = 0)"
proof -
  note r = sieve_okD [OF assms(1)]
  have "0 < N" using assms(2) by simp
  obtain s1 where s1: "SieveNotifyInsert N b s = Some s1" "sieve_rep N s1 (remove1 b (sieve_queue N s) @ [b])"
    using SieveNotifyInsert_rep [OF r assms(2)] by blast
  have s2: "\<exists>s'. SieveUnlinkAndAdvance N b s = Some s' \<and> sieve_rep N s' (remove1 b (sieve_queue N s))"
    if "b \<in> set (sieve_queue N s)"
    using SieveUnlinkAndAdvance_rep [OF r that] by metis
  obtain s3 where "SieveInitialize N False s = Some s3" "sieve_rep N s3 [0..<N]" "sieve_hand s3 = 0"
    using SieveInitialize_rep [OF \<open>0 < N\<close>] by blast
  with s1 s2 show ?thesis using sieve_rep_ok by (fastforce simp: SieveNotifyInvalidate_def)
qed

theorem Sieve_hooks_refine_witness:
  "\<exists>s'. SieveNotifyInsert 3 1 (sieve_started 3) = Some s' \<and> sieve_ok 3 s' \<and> sieve_queue 3 s' = [0, 2, 1]"
  using Sieve_hooks_refine [of 3 "sieve_started 3" 1] sieve_started_ok [of 3] by (auto simp: upt_small)



text \<open>
  C1: undisturbed and with no header locked, \<open>SieveGetBuffer\<close> decides within \<open>2 * NBuffers
  + 1\<close> iterations and takes the victim of the reference definition \<open>sieve_victim\<close>: the first
  unpinned buffer from the hand on that is not visited, or after a full round the first
  unpinned one. It clears the marks of exactly the unpinned buffers the hand passed, pins
  the victim and removes it from the list. If every linked buffer is pinned the header words
  stay as they were and the search ends in an error.
\<close>

theorem SieveGetBuffer_victim:
  assumes pre: "search_pre N (sieve_ok N) quiet p"
    and unlocked: "\<forall>b \<in> set (sieve_queue N (pol p)). hdr p b AND BM_LOCKED = 0"
    and fuel: "2 * N < fuel"
  shows "case sieve_victim (hdr p) (sieve_order N (pol p)) of
      Some v \<Rightarrow> \<exists>t' q. SieveGetBuffer N fuel quiet t p = Done (t', q) (v, hdr q v) \<and>
        hdr q = pin_state v (sieve_clear (sieve_passed (hdr p) (sieve_order N (pol p))) (hdr p)) \<and>
        sieve_queue N (pol q) = remove1 v (sieve_queue N (pol p))
    | None \<Rightarrow> \<exists>t' s. SieveGetBuffer N fuel quiet t p =
          Raise (t', p\<lparr>pol := s\<rparr>) (if sieve_queue N (pol p) = [] then NoBuffersInSieveQueue
            else NoUnpinnedBuffersAvailable) \<and> sieve_queue N s = sieve_queue N (pol p)"
proof -
  let ?o = "sieve_order N (pol p)"
  let ?first = "find (\<lambda>b. unpinned (hdr p) b \<and> \<not> visited (hdr p) b) ?o"
  have ok: "sieve_ok N (pol p)" using pre by (simp add: search_pre_def)
  have unl: "\<forall>b \<in> set ?o. \<not> bit (hdr p b) 22" using unlocked by (simp add: sieve_order_set)
  have len: "length ?o \<le> N" using sieve_order_hand(5) [OF ok] by (cases ?o) auto
  consider (first) v where "?first = Some v" | (second) v where "?first = None" "find (unpinned (hdr p)) ?o = Some v"
    | (pinned) "?first = None" "find (unpinned (hdr p)) ?o = None" by fastforce
  then show ?thesis
  proof cases
    case first
    have v: "v \<in> set ?o" "unpinned (hdr p) v" "\<not> visited (hdr p) v" using find_Some_mem [OF first] by auto
    then have "v \<notin> set (sieve_passed (hdr p) ?o)" by (auto simp: sieve_passed_def dest: set_takeWhileD)
    then have same: "sieve_clear (sieve_passed (hdr p) ?o) (hdr p) v = hdr p v" by (simp add: sieve_clear_def)
    have "find (unpinned (hdr p)) ?o \<noteq> None" using v by (auto simp: find_None_iff)
    then have "length (takeWhile (\<lambda>b. \<not> unpinned (hdr p) b) ?o) < length ?o"
      using find_takeWhile_less by fastforce
    then have k: "int N > int (length (takeWhile (\<lambda>b. \<not> unpinned (hdr p) b) ?o))" using len by linarith
    have "N < fuel" using fuel by simp
    from sieve_first_round [OF pre unl first k this, where t = t] show ?thesis
      using first same by (auto simp: sieve_victim_def SieveGetBuffer_def pin_state_def)
  next
    case second
    have "sieve_passed (hdr p) ?o = ?o"
      unfolding sieve_passed_def using second(1) by (intro takeWhile_eq_all_conv [THEN iffD2]) (auto simp: find_None_iff)
    with sieve_second_round [OF pre unl second fuel, where t = t] show ?thesis
      using second by (auto simp: sieve_victim_def SieveGetBuffer_def pin_state_def)
  next
    case pinned
    show ?thesis
    proof (cases "sieve_queue N (pol p) = []")
      case True
      then have "sieve_hand (pol p) = N" using sieve_okD [OF ok] by (simp add: sieve_rep_def)
      with True pinned fuel show ?thesis
        by (cases fuel) (auto simp: sieve_victim_def SieveGetBuffer_def SieveGetBuffer_loop.simps
            intro!: exI [of _ "pol p"])
    next
      case False
      then obtain m where N: "N = Suc m"
        using sieve_rep_length [OF sieve_okD [OF ok]] by (cases N) auto
      have all: "\<And>b. b \<in> sieve_mem N (pol p) \<Longrightarrow> \<not> bit (hdr p b) 22 \<and> \<not> unpinned (hdr p) b"
        using pinned(2) unlocked by (auto simp: find_None_iff sieve_order_set)
      from sieve_all_pinned [OF ok False all, of m fuel t] show ?thesis
        using pinned False fuel N by (auto simp: sieve_victim_def SieveGetBuffer_def)
    qed
  qed
qed

theorem SieveGetBuffer_victim_witness:
  "\<exists>t' q. SieveGetBuffer 2 5 quiet 0 (fresh_pool (\<lambda>_. BUF_USAGECOUNT_ONE) (sieve_started 2)) =
     Done (t', q) (0, 1) \<and> hdr q 1 = 0 \<and> sieve_queue 2 (pol q) = [1]"
proof -
  let ?p = "fresh_pool (\<lambda>_. BUF_USAGECOUNT_ONE) (sieve_started 2)"
  have o: "sieve_order 2 (sieve_started 2) = [0, 1]"
    using sieve_started_ok [of 2] by (simp add: sieve_order_def upt_small)
  have pre: "search_pre 2 (sieve_ok 2) quiet ?p" by (rule fresh_search_pre) (simp add: sieve_started_ok)
  have c: "unpinned (\<lambda>_. BUF_USAGECOUNT_ONE) b" "visited (\<lambda>_. BUF_USAGECOUNT_ONE) b"
    "BUF_USAGECOUNT_ONE AND NOT BUF_USAGECOUNT_MASK = 0" for b
    by (simp_all add: BUF_STATE_GET_REFCOUNT_def BUF_STATE_GET_USAGECOUNT_def layout_defs)
  have "\<forall>b \<in> set (sieve_queue 2 (pol ?p)). hdr ?p b AND BM_LOCKED = 0"
    by (simp add: layout_defs bit_simps)
  from SieveGetBuffer_victim [OF pre this, of 5 0] show ?thesis
    using o c sieve_started_ok [of 2]
    by (auto simp: sieve_victim_def sieve_passed_def sieve_clear_def pin_state_def upt_small BUF_REFCOUNT_ONE_def)
qed

end
