(* ===== verification/LRU.thy ===== *)
theory LRU
  imports Victim_Search
begin

unbundle bit_operations_syntax

text \<open>
  The LRU policy of \<^verbatim>\<open>freelist.c\<close>: a doubly linked list of all buffers in the arrays
  \<open>LRUNext\<close> and \<open>LRUPrev\<close> of \<open>NBuffers + 1\<close> elements, element \<open>NBuffers\<close> being the
  sentinel, protected by \<open>buffer_strategy_lock\<close>. The abstraction is the list from the least
  to the most recently used buffer. Array accesses are checked: \<open>None\<close> and \<open>Crash\<close> stand
  for accesses outside the arrays.
\<close>

record LRUState =
  lru_bgw_sync_seq :: uint32
  LRUNext :: "nat \<Rightarrow> nat"
  LRUPrev :: "nat \<Rightarrow> nat"

section \<open>The operations\<close>

definition LRUInitialize :: "nat \<Rightarrow> bool \<Rightarrow> LRUState \<Rightarrow> LRUState option" where
  "LRUInitialize NBuffers found s =
     (if found then Some s
      else do {
        let s = s\<lparr>lru_bgw_sync_seq := 0\<rparr>;
        nx \<leftarrow> arr_set (NBuffers + 1) (LRUNext s) NBuffers (NBuffers - 1);
        pv \<leftarrow> arr_set (NBuffers + 1) (LRUPrev s) NBuffers 0;
        foldM (\<lambda>i s. do {
            nx \<leftarrow> arr_set (NBuffers + 1) (LRUNext s) i (if i < NBuffers - 1 then i + 1 else NBuffers);
            pv \<leftarrow> arr_set (NBuffers + 1) (LRUPrev s) i (if i > 0 then i - 1 else NBuffers);
            Some (s\<lparr>LRUNext := nx, LRUPrev := pv\<rparr>)
          }) [0..<NBuffers] (s\<lparr>LRUNext := nx, LRUPrev := pv\<rparr>)
      })"

definition LRUUnlink :: "nat \<Rightarrow> nat \<Rightarrow> LRUState \<Rightarrow> LRUState option" where
  "LRUUnlink NBuffers buf_id s = do {
     let n = NBuffers + 1;
     mru_nb \<leftarrow> arr_get n (LRUNext s) buf_id;
     lru_nb \<leftarrow> arr_get n (LRUPrev s) buf_id;
     s \<leftarrow> (if mru_nb = NBuffers
           then do { nx \<leftarrow> arr_set n (LRUNext s) NBuffers lru_nb; Some (s\<lparr>LRUNext := nx\<rparr>) }
           else do { pv \<leftarrow> arr_set n (LRUPrev s) mru_nb lru_nb; Some (s\<lparr>LRUPrev := pv\<rparr>) });
     s \<leftarrow> (if lru_nb = NBuffers
           then do { pv \<leftarrow> arr_set n (LRUPrev s) NBuffers mru_nb; Some (s\<lparr>LRUPrev := pv\<rparr>) }
           else do { nx \<leftarrow> arr_set n (LRUNext s) lru_nb mru_nb; Some (s\<lparr>LRUNext := nx\<rparr>) });
     nx \<leftarrow> arr_set n (LRUNext s) buf_id NBuffers;
     pv \<leftarrow> arr_set n (LRUPrev s) buf_id NBuffers;
     Some (s\<lparr>LRUNext := nx, LRUPrev := pv\<rparr>)
   }"

definition LRUInsertMRU :: "nat \<Rightarrow> nat \<Rightarrow> LRUState \<Rightarrow> LRUState option" where
  "LRUInsertMRU NBuffers buf_id s = do {
     let n = NBuffers + 1;
     old_head \<leftarrow> arr_get n (LRUNext s) NBuffers;
     nx \<leftarrow> arr_set n (LRUNext s) buf_id NBuffers;
     pv \<leftarrow> arr_set n (LRUPrev s) buf_id old_head;
     let s = s\<lparr>LRUNext := nx, LRUPrev := pv\<rparr>;
     s \<leftarrow> (if old_head = NBuffers
           then do { pv \<leftarrow> arr_set n (LRUPrev s) NBuffers buf_id; Some (s\<lparr>LRUPrev := pv\<rparr>) }
           else do { nx \<leftarrow> arr_set n (LRUNext s) old_head buf_id; Some (s\<lparr>LRUNext := nx\<rparr>) });
     nx \<leftarrow> arr_set n (LRUNext s) NBuffers buf_id;
     Some (s\<lparr>LRUNext := nx\<rparr>)
   }"

definition LRU_IN_LIST :: "nat \<Rightarrow> nat \<Rightarrow> LRUState \<Rightarrow> bool option" where
  "LRU_IN_LIST NBuffers buf_id s = do {
     nx \<leftarrow> arr_get (NBuffers + 1) (LRUNext s) buf_id;
     pv \<leftarrow> arr_get (NBuffers + 1) (LRUPrev s) buf_id;
     hd \<leftarrow> arr_get (NBuffers + 1) (LRUNext s) NBuffers;
     Some (nx \<noteq> NBuffers \<or> pv \<noteq> NBuffers \<or> hd = buf_id)
   }"

definition LRUNotifyHit :: "nat \<Rightarrow> nat \<Rightarrow> LRUState \<Rightarrow> LRUState option" where
  "LRUNotifyHit NBuffers buf_id s = do {
     i \<leftarrow> LRU_IN_LIST NBuffers buf_id s;
     if i then do { s \<leftarrow> LRUUnlink NBuffers buf_id s; LRUInsertMRU NBuffers buf_id s } else Some s
   }"

definition LRUNotifyInsert :: "nat \<Rightarrow> nat \<Rightarrow> LRUState \<Rightarrow> LRUState option" where
  "LRUNotifyInsert NBuffers buf_id s = do {
     i \<leftarrow> LRU_IN_LIST NBuffers buf_id s;
     s \<leftarrow> (if i then LRUUnlink NBuffers buf_id s else Some s);
     LRUInsertMRU NBuffers buf_id s
   }"

definition LRUNotifyInvalidate :: "nat \<Rightarrow> nat \<Rightarrow> LRUState \<Rightarrow> LRUState option" where
  "LRUNotifyInvalidate NBuffers buf_id s = do {
     i \<leftarrow> LRU_IN_LIST NBuffers buf_id s;
     if i then LRUUnlink NBuffers buf_id s else Some s
   }"

fun LRUGetBuffer_loop ::
    "nat \<Rightarrow> nat \<Rightarrow> interference \<Rightarrow> nat \<Rightarrow> LRUState pool \<Rightarrow> nat \<Rightarrow> int
     \<Rightarrow> (nat \<times> LRUState pool, victim) run" where
  "LRUGetBuffer_loop 0 NBuffers E t p candidate_id trycounter = Spin (t, p)"
| "LRUGetBuffer_loop (Suc fuel) NBuffers E t p candidate_id trycounter =
     (if candidate_id = NBuffers then Raise (t, p) NoBuffersInLRUQueue
      else if candidate_id > NBuffers then Crash
      else let st1 = E t (hdr p); old_buf_state = st1 candidate_id; p1 = p\<lparr>hdr := st1\<rparr>
      in if old_buf_state AND BM_LOCKED \<noteq> 0
      then (case WaitBufHdrUnlocked fuel E (Suc t) st1 candidate_id of
              Done (t2, st2) _ \<Rightarrow> LRUGetBuffer_loop fuel NBuffers E t2 (p\<lparr>hdr := st2\<rparr>) candidate_id trycounter
            | Raise (t2, st2) e \<Rightarrow> Raise (t2, p\<lparr>hdr := st2\<rparr>) e
            | Spin (t2, st2) \<Rightarrow> Spin (t2, p\<lparr>hdr := st2\<rparr>)
            | Crash \<Rightarrow> Crash)
      else if BUF_STATE_GET_REFCOUNT old_buf_state \<noteq> 0
      then (let candidate_id = LRUNext (pol p) candidate_id;
                candidate_id = (if candidate_id = NBuffers then LRUPrev (pol p) NBuffers else candidate_id);
                trycounter = trycounter - 1
            in if trycounter = 0 then Raise (Suc t, p1) NoUnpinnedBuffers
               else LRUGetBuffer_loop fuel NBuffers E (Suc t) p1 candidate_id trycounter)
      else let new_buf_state = old_buf_state + BUF_REFCOUNT_ONE;
               (success, found, st2) =
                 pg_atomic_compare_exchange_u64 (E (Suc t) st1) candidate_id old_buf_state new_buf_state
      in if success
         then (case do { s \<leftarrow> LRUUnlink NBuffers candidate_id (pol p);
                         claim_victim candidate_id (p\<lparr>hdr := st2, pol := s\<rparr>) } of
                 None \<Rightarrow> Crash
               | Some q \<Rightarrow> Done (Suc (Suc t), q) (candidate_id, new_buf_state))
         else LRUGetBuffer_loop fuel NBuffers E (Suc (Suc t)) (p\<lparr>hdr := st2\<rparr>) candidate_id (int NBuffers))"

definition LRUGetBuffer ::
    "nat \<Rightarrow> nat \<Rightarrow> interference \<Rightarrow> nat \<Rightarrow> LRUState pool \<Rightarrow> (nat \<times> LRUState pool, victim) run" where
  "LRUGetBuffer NBuffers fuel E t p =
     LRUGetBuffer_loop fuel NBuffers E t p (LRUPrev (pol p) NBuffers) (int NBuffers)"

section \<open>The list a state holds\<close>

definition lru_queue :: "nat \<Rightarrow> LRUState \<Rightarrow> nat list" where
  "lru_queue NBuffers s = walk NBuffers (LRUNext s) NBuffers (LRUPrev s NBuffers)"

text \<open>
  The representation invariant: the arrays hold a list of buffer ids, and every buffer
  outside the list has its links cleared.
\<close>

definition lru_rep :: "nat \<Rightarrow> LRUState \<Rightarrow> nat list \<Rightarrow> bool" where
  "lru_rep NBuffers s xs \<longleftrightarrow>
     queue (LRUNext s) (LRUPrev s) NBuffers xs \<and> (\<forall>x \<in> set xs. x < NBuffers) \<and>
     (\<forall>x < NBuffers. x \<notin> set xs \<longrightarrow> LRUNext s x = NBuffers \<and> LRUPrev s x = NBuffers)"

definition lru_ok :: "nat \<Rightarrow> LRUState \<Rightarrow> bool" where
  "lru_ok NBuffers s \<longleftrightarrow> (\<exists>xs. lru_rep NBuffers s xs)"

lemma lru_rep_queue: "lru_rep N s xs \<Longrightarrow> lru_queue N s = xs"
proof -
  assume r: "lru_rep N s xs"
  then have "set xs \<subseteq> {..<N}" "distinct xs" by (auto simp: lru_rep_def queue_def)
  then have "length xs \<le> N" using card_mono [of "{..<N}" "set xs"] by (simp add: distinct_card)
  with r show ?thesis by (simp add: lru_queue_def lru_rep_def queue_walk)
qed

lemma lru_okD: "lru_ok N s \<Longrightarrow> lru_rep N s (lru_queue N s)"
  by (auto simp: lru_ok_def dest: lru_rep_queue)

lemma lru_mem_less: "lru_ok N s \<Longrightarrow> c \<in> set (lru_queue N s) \<Longrightarrow> c < N"
  using lru_okD by (auto simp: lru_rep_def)

lemma lru_rep_ok: "lru_rep N s xs \<Longrightarrow> lru_ok N s \<and> lru_queue N s = xs"
  by (auto simp: lru_ok_def dest: lru_rep_queue)

lemma lru_rep_distinct: "lru_rep N s xs \<Longrightarrow> distinct xs"
  by (auto simp: lru_rep_def queue_def)

lemma LRUUnlink_eq:
  assumes "lru_rep N s xs" "x \<in> set xs"
  shows "LRUUnlink N x s = Some (s\<lparr>LRUNext := unlink_next N N x (LRUNext s) (LRUPrev s),
    LRUPrev := unlink_prev N N x (LRUNext s) (LRUPrev s)\<rparr>)"
proof -
  have q: "queue (LRUNext s) (LRUPrev s) N xs" and b: "\<forall>x \<in> set xs. x < N"
    using assms by (auto simp: lru_rep_def)
  then have "x < Suc N" "LRUNext s x < Suc N" "LRUPrev s x < Suc N"
    using queue_next_mem [OF q, of x] queue_prev_mem [OF q, of x] assms(2) by (auto simp: less_Suc_eq)
  then show ?thesis
    by (simp add: LRUUnlink_def unlink_next_def unlink_prev_def Let_def)
qed

lemma LRUUnlink_rep:
  assumes r: "lru_rep N s xs" and x: "x \<in> set xs"
  obtains s' where "LRUUnlink N x s = Some s'" "lru_rep N s' (remove1 x xs)"
    "lru_bgw_sync_seq s' = lru_bgw_sync_seq s"
proof -
  have q: "queue (LRUNext s) (LRUPrev s) N xs" using r by (simp add: lru_rep_def)
  then have d: "set (remove1 x xs) = set xs - {x}" by (simp add: queue_distinct set_remove1_eq)
  have "unlink_next N N x (LRUNext s) (LRUPrev s) y = N \<and> unlink_prev N N x (LRUNext s) (LRUPrev s) y = N"
    if "y < N" "y \<notin> set (remove1 x xs)" for y
    using that r x d unlink_frame [OF q x, of y] by (cases "y = x") (auto simp: lru_rep_def)
  with r d queue_unlink [OF q x] that [OF LRUUnlink_eq [OF r x]] show ?thesis
    by (auto simp: lru_rep_def)
qed

lemma LRUInsertMRU_rep:
  assumes r: "lru_rep N s xs" and x: "x \<notin> set xs" "x < N"
  obtains s' where "LRUInsertMRU N x s = Some s'" "lru_rep N s' (xs @ [x])"
    "lru_bgw_sync_seq s' = lru_bgw_sync_seq s"
proof -
  let ?s = "s\<lparr>LRUNext := push_next N x (LRUNext s), LRUPrev := push_prev N x (LRUNext s) (LRUPrev s)\<rparr>"
  have q: "queue (LRUNext s) (LRUPrev s) N xs" and "LRUNext s N < Suc N"
    using r queue_next_mem [of "LRUNext s" "LRUPrev s" N xs N] by (auto simp: lru_rep_def less_Suc_eq)
  then have "LRUInsertMRU N x s = Some ?s"
    using x by (simp add: LRUInsertMRU_def push_next_def push_prev_def Let_def)
  moreover have "lru_rep N ?s (xs @ [x])"
    using r x queue_push [OF q x(1)] push_frame [OF q, of _ x] by (auto simp: lru_rep_def)
  ultimately show ?thesis using that by simp
qed

lemma LRU_IN_LIST_rep:
  assumes "lru_rep N s xs" "x < N"
  shows "LRU_IN_LIST N x s = Some (x \<in> set xs)"
  using assms queue_member_test [of "LRUNext s" "LRUPrev s" N xs x]
  by (auto simp: LRU_IN_LIST_def lru_rep_def)

section \<open>The hooks refine list operations\<close>

lemma LRUNotifyHit_rep:
  assumes r: "lru_rep N s xs" and b: "b < N"
  obtains s' where "LRUNotifyHit N b s = Some s'"
    "lru_rep N s' (if b \<in> set xs then remove1 b xs @ [b] else xs)"
    "lru_bgw_sync_seq s' = lru_bgw_sync_seq s"
proof (cases "b \<in> set xs")
  case True
  obtain s1 where s1: "LRUUnlink N b s = Some s1" "lru_rep N s1 (remove1 b xs)"
    "lru_bgw_sync_seq s1 = lru_bgw_sync_seq s"
    using LRUUnlink_rep [OF r True] by blast
  have "b \<notin> set (remove1 b xs)" using lru_rep_distinct [OF r] by simp
  then obtain s2 where "LRUInsertMRU N b s1 = Some s2" "lru_rep N s2 (remove1 b xs @ [b])"
    "lru_bgw_sync_seq s2 = lru_bgw_sync_seq s1"
    using LRUInsertMRU_rep [OF s1(2) _ b] by blast
  with s1 True that show ?thesis by (simp add: LRUNotifyHit_def LRU_IN_LIST_rep [OF r b])
next
  case False
  with r that show ?thesis by (simp add: LRUNotifyHit_def LRU_IN_LIST_rep [OF r b])
qed

lemma LRUNotifyInsert_rep:
  assumes r: "lru_rep N s xs" and b: "b < N"
  obtains s' where "LRUNotifyInsert N b s = Some s'" "lru_rep N s' (remove1 b xs @ [b])"
    "lru_bgw_sync_seq s' = lru_bgw_sync_seq s"
proof -
  obtain s1 where s1: "(if b \<in> set xs then LRUUnlink N b s else Some s) = Some s1"
    "lru_rep N s1 (remove1 b xs)" "lru_bgw_sync_seq s1 = lru_bgw_sync_seq s"
    by (cases "b \<in> set xs") (use LRUUnlink_rep [OF r] r in \<open>auto simp: remove1_idem\<close>)
  have "b \<notin> set (remove1 b xs)" using lru_rep_distinct [OF r] by simp
  then obtain s2 where "LRUInsertMRU N b s1 = Some s2" "lru_rep N s2 (remove1 b xs @ [b])"
    "lru_bgw_sync_seq s2 = lru_bgw_sync_seq s1"
    using LRUInsertMRU_rep [OF s1(2) _ b] by blast
  with s1 that show ?thesis by (simp add: LRUNotifyInsert_def LRU_IN_LIST_rep [OF r b])
qed

lemma LRUNotifyInvalidate_rep:
  assumes r: "lru_rep N s xs" and b: "b < N"
  obtains s' where "LRUNotifyInvalidate N b s = Some s'" "lru_rep N s' (remove1 b xs)"
    "lru_bgw_sync_seq s' = lru_bgw_sync_seq s"
  by (cases "b \<in> set xs") (use that LRUUnlink_rep [OF r] r in
    \<open>auto simp: LRUNotifyInvalidate_def LRU_IN_LIST_rep [OF r b] remove1_idem\<close>)

lemma LRUInitialize_rep:
  assumes "0 < N"
  obtains s' where "LRUInitialize N False s = Some s'" "lru_rep N s' [0..<N]"
    "lru_bgw_sync_seq s' = 0"
proof -
  define I where "I i s' \<longleftrightarrow> lru_bgw_sync_seq s' = 0 \<and> LRUNext s' N = N - 1 \<and> LRUPrev s' N = 0 \<and>
    (\<forall>j < i. LRUNext s' j = (if Suc j < N then Suc j else N) \<and> LRUPrev s' j = (if 0 < j then j - 1 else N))"
    for i and s' :: LRUState
  let ?s = "s\<lparr>lru_bgw_sync_seq := 0, LRUNext := (LRUNext s)(N := N - 1), LRUPrev := (LRUPrev s)(N := 0)\<rparr>"
  define f where "f = (\<lambda>i (s :: LRUState). do {
      nx \<leftarrow> arr_set (N + 1) (LRUNext s) i (if i < N - 1 then i + 1 else N);
      pv \<leftarrow> arr_set (N + 1) (LRUPrev s) i (if i > 0 then i - 1 else N);
      Some (s\<lparr>LRUNext := nx, LRUPrev := pv\<rparr>) })"
  have "\<exists>s'. f i s = Some s' \<and> I (Suc i) s'" if "i < N" "I i s" for i s
    using that by (auto simp: f_def I_def less_Suc_eq)
  moreover have "I 0 ?s" by (simp add: I_def)
  ultimately obtain s' where s': "foldM f [0..<N] ?s = Some s'" "I N s'"
    using foldM_upto [of I ?s N f] by blast
  moreover have "lru_rep N s' [0..<N]"
    using s'(2) assms queue_init [of N "LRUNext s'" "LRUPrev s'"] by (simp add: lru_rep_def I_def)
  ultimately show ?thesis using that by (simp add: LRUInitialize_def f_def I_def)
qed

section \<open>Searching under interference\<close>

lemma lru_next_candidate:
  assumes r: "lru_rep N s xs" and c: "c \<in> set xs"
  shows "(if LRUNext s c = N then LRUPrev s N else LRUNext s c) \<in> set xs"
proof -
  have q: "queue (LRUNext s) (LRUPrev s) N xs" using r by (simp add: lru_rep_def)
  have "LRUPrev s N = hd xs" using queue_tail [OF q] c by auto
  moreover have "xs \<noteq> []" using c by auto
  ultimately show ?thesis using queue_next_mem [OF q, of c] c by auto
qed

lemma LRU_claim:
  assumes pre: "search_pre N (lru_ok N) E p" and c: "c \<in> set (lru_queue N (pol p))"
    and free: "BUF_STATE_GET_REFCOUNT s = 0" "\<not> bit s 22" and s: "E t (hdr p) c = s"
  shows "\<exists>pol' q. LRUUnlink N c (pol p) = Some pol' \<and>
    claim_victim c (p\<lparr>hdr := (E t (hdr p))(c := s + BUF_REFCOUNT_ONE), pol := pol'\<rparr>) = Some q \<and>
    victim_taken N (lru_ok N) (\<lambda>s. set (lru_queue N s)) p q (c, s + BUF_REFCOUNT_ONE) \<and>
    hdr q = (E t (hdr p))(c := s + BUF_REFCOUNT_ONE) \<and> pol q = pol' \<and> ctl q = ctl p \<and>
    lru_queue N pol' = remove1 c (lru_queue N (pol p))"
proof -
  have ok: "lru_ok N (pol p)" using pre by (simp add: search_pre_def)
  from lru_okD [OF this] have r: "lru_rep N (pol p) (lru_queue N (pol p))" .
  then have "c < N" using c by (auto simp: lru_rep_def)
  obtain pol' where pol': "LRUUnlink N c (pol p) = Some pol'" "lru_rep N pol' (remove1 c (lru_queue N (pol p)))"
    using LRUUnlink_rep [OF r c] by blast
  have q': "lru_ok N pol'" "lru_queue N pol' = remove1 c (lru_queue N (pol p))"
    using lru_rep_ok [OF pol'(2)] by simp_all
  have d: "distinct (lru_queue N (pol p))" using r by (rule lru_rep_distinct)
  have "set (lru_queue N pol') \<subseteq> set (lru_queue N (pol p))"
    "set (lru_queue N (pol p)) \<subseteq> insert c (set (lru_queue N pol'))"
    using q' d by (auto simp: set_remove1_eq)
  from claim_search [where mem = "\<lambda>s. set (lru_queue N s)", OF pre \<open>c < N\<close> c free s q'(1) this]
  obtain q where "claim_victim c (p\<lparr>hdr := (E t (hdr p))(c := s + BUF_REFCOUNT_ONE), pol := pol'\<rparr>) = Some q"
    "victim_taken N (lru_ok N) (\<lambda>s. set (lru_queue N s)) p q (c, s + BUF_REFCOUNT_ONE)"
    "hdr q = (E t (hdr p))(c := s + BUF_REFCOUNT_ONE)" "pol q = pol'" "ctl q = ctl p" .
  with pol'(1) q' show ?thesis by (intro exI [of _ pol'] exI [of _ q]) simp
qed

lemma LRUGetBuffer_loop_ok:
  assumes "search_pre N (lru_ok N) E p" "c = N \<or> c \<in> set (lru_queue N (pol p))"
  shows "victim_ok N (lru_ok N) (\<lambda>s. set (lru_queue N s)) p (LRUGetBuffer_loop fuel N E t p c k)"
  using assms
proof (induction fuel arbitrary: t p c k)
  case 0
  then show ?case by (auto intro: victim_ok_Spin searching_refl)
next
  case (Suc fuel)
  let ?mem = "\<lambda>s. set (lru_queue N s)" and ?st = "E t (hdr p)"
  note pre = Suc.prems(1)
  have "lru_ok N (pol p)" using pre by (simp add: search_pre_def)
  from lru_okD [OF this] have r: "lru_rep N (pol p) (lru_queue N (pol p))" .
  have own: "own_pins ?st (me p)" using pre by (rule search_pre_own_pins)
  have go: "searching (lru_ok N) ?mem p (p\<lparr>hdr := ?st\<rparr>)" using pre own by (rule searching_hdr)
  show ?case
  proof (cases "c = N")
    case True
    with pre show ?thesis by (auto intro: victim_ok_Raise searching_refl)
  next
    case False
    with Suc.prems(2) r have c: "c \<in> set (lru_queue N (pol p))" "c < N" by (auto simp: lru_rep_def)
    let ?n = "if LRUNext (pol p) c = N then LRUPrev (pol p) N else LRUNext (pol p) c"
    have n: "?n \<in> set (lru_queue N (pol p))" using r c(1) by (rule lru_next_candidate)
    have cont: "victim_ok N (lru_ok N) ?mem p (LRUGetBuffer_loop fuel N E t' (p\<lparr>hdr := st\<rparr>) c' k')"
      if "own_pins st (me p)" "c' \<in> set (lru_queue N (pol p))" for t' st c' k'
      by (rule victim_ok_continue [OF pre searching_hdr [OF pre that(1)]])
        (use Suc.IH that(2) in auto)
    consider (locked) "bit (?st c) 22" | (pinned) "\<not> bit (?st c) 22" "BUF_STATE_GET_REFCOUNT (?st c) \<noteq> 0"
      | (free) "\<not> bit (?st c) 22" "BUF_STATE_GET_REFCOUNT (?st c) = 0" by blast
    then show ?thesis
    proof cases
      case locked
      note W = wait_searching [OF pre own, where n = fuel and t = "Suc t" and b = c and mem = ?mem]
      show ?thesis
        using c False locked W
        by (auto simp: Let_def searching_def intro!: cont victim_ok_Spin split: run.splits prod.splits)
    next
      case pinned
      with c False show ?thesis
        using cont [OF own n] go by (simp add: Let_def victim_ok_Raise)
    next
      case free
      let ?p = "p\<lparr>hdr := ?st\<rparr>"
      have own2: "own_pins (E (Suc t) ?st) (me p)"
        using search_pre_own_pins [OF searching_pre [OF pre go], of "Suc t"] by simp
      show ?thesis
      proof (cases "E (Suc t) ?st c = ?st c")
        case True
        have "E (Suc t) (hdr ?p) c = ?st c" using True by simp
        from LRU_claim [OF searching_pre [OF pre go] _ free(2,1) this] c(1)
        obtain pol' q where q: "LRUUnlink N c (pol p) = Some pol'"
          "claim_victim c (p\<lparr>hdr := (E (Suc t) ?st)(c := ?st c + BUF_REFCOUNT_ONE), pol := pol'\<rparr>) = Some q"
          "victim_taken N (lru_ok N) ?mem ?p q (c, ?st c + BUF_REFCOUNT_ONE)"
          by auto
        then have "victim_ok N (lru_ok N) ?mem ?p (Done (Suc (Suc t), q) (c, ?st c + BUF_REFCOUNT_ONE))"
          by (simp add: victim_ok_def)
        from victim_ok_step [OF go this] show ?thesis
          using q c False free True by (simp add: Let_def pg_atomic_compare_exchange_u64_def)
      next
        case False
        with c free \<open>c \<noteq> N\<close> show ?thesis
          using cont [OF own2 c(1)] by (simp add: Let_def pg_atomic_compare_exchange_u64_def)
      qed
    qed
  qed
qed

lemma LRUGetBuffer_ok:
  assumes "search_pre N (lru_ok N) E p"
  shows "victim_ok N (lru_ok N) (\<lambda>s. set (lru_queue N s)) p (LRUGetBuffer N fuel E t p)"
proof -
  have "lru_ok N (pol p)" using assms by (simp add: search_pre_def)
  from lru_okD [OF this] have "lru_rep N (pol p) (lru_queue N (pol p))" .
  then show ?thesis
    using assms queue_tail [of "LRUNext (pol p)" "LRUPrev (pol p)" N "lru_queue N (pol p)"]
    by (auto simp: LRUGetBuffer_def lru_rep_def intro!: LRUGetBuffer_loop_ok)
qed

section \<open>The victim of an undisturbed search\<close>

text \<open>One pinned buffer is skipped at a time.\<close>

declare LRUGetBuffer_loop.simps [simp del]

lemma LRU_skip:
  assumes r: "lru_rep N (pol p) xs" and c: "c \<in> set xs"
    and "\<not> bit (hdr p c) 22" "BUF_STATE_GET_REFCOUNT (hdr p c) \<noteq> 0" "k \<noteq> 1"
  shows "LRUGetBuffer_loop (Suc fuel) N quiet t p c k =
    LRUGetBuffer_loop fuel N quiet (Suc t) p
      (if LRUNext (pol p) c = N then LRUPrev (pol p) N else LRUNext (pol p) c) (k - 1)"
proof -
  have "c < N" using r c by (simp add: lru_rep_def)
  with assms(3-5) show ?thesis by (simp add: LRUGetBuffer_loop.simps quiet_def Let_def)
qed

lemma LRU_take:
  assumes pre: "search_pre N (lru_ok N) quiet p" and c: "c \<in> set (lru_queue N (pol p))"
    and u: "\<not> bit (hdr p c) 22" "BUF_STATE_GET_REFCOUNT (hdr p c) = 0"
  shows "\<exists>t' q. LRUGetBuffer_loop (Suc fuel) N quiet t p c k = Done (t', q) (c, hdr p c + BUF_REFCOUNT_ONE) \<and>
    hdr q = pin_state c (hdr p) \<and> lru_queue N (pol q) = remove1 c (lru_queue N (pol p))"
proof -
  have "lru_ok N (pol p)" using pre by (simp add: search_pre_def)
  from lru_mem_less [OF this c] have "c < N" .
  obtain pol' q where "LRUUnlink N c (pol p) = Some pol'"
    "claim_victim c (p\<lparr>hdr := (hdr p)(c := hdr p c + BUF_REFCOUNT_ONE), pol := pol'\<rparr>) = Some q"
    "hdr q = (hdr p)(c := hdr p c + BUF_REFCOUNT_ONE)" "pol q = pol'"
    "lru_queue N pol' = remove1 c (lru_queue N (pol p))"
    using LRU_claim [OF pre c u(2,1), where t = 0] by (auto simp: quiet_def)
  with u \<open>c < N\<close> show ?thesis
    by (simp add: LRUGetBuffer_loop.simps quiet_def pin_state_def pg_atomic_compare_exchange_u64_def)
qed

lemma LRU_find:
  assumes pre: "search_pre N (lru_ok N) quiet p" and xs: "lru_queue N (pol p) = as @ c # bs"
    and unlocked: "\<And>b. b \<in> set (c # bs) \<Longrightarrow> \<not> bit (hdr p b) 22"
    and f: "find (\<lambda>b. BUF_STATE_GET_REFCOUNT (hdr p b) = 0) (c # bs) = Some v"
    and k: "k > int (length bs)" and fuel: "fuel > length bs"
  shows "\<exists>t' q. LRUGetBuffer_loop fuel N quiet t p c k = Done (t', q) (v, hdr p v + BUF_REFCOUNT_ONE) \<and>
    hdr q = pin_state v (hdr p) \<and> lru_queue N (pol q) = remove1 v (lru_queue N (pol p))"
  using xs unlocked f k fuel
proof (induction bs arbitrary: as c k fuel t)
  case Nil
  then obtain n where n: "fuel = Suc n" by (cases fuel) auto
  have v: "c = v" "BUF_STATE_GET_REFCOUNT (hdr p v) = 0" using Nil.prems(3) by (auto split: if_splits)
  show ?case unfolding n v(1) by (rule LRU_take [OF pre]) (use Nil.prems v in auto)
next
  case (Cons b bs)
  have "lru_ok N (pol p)" using pre by (simp add: search_pre_def)
  from lru_okD [OF this] have r: "lru_rep N (pol p) (as @ c # b # bs)" using Cons.prems(1) by simp
  then have "LRUNext (pol p) c = b" "b \<noteq> N"
    using queue_neighbours [of "LRUNext (pol p)" "LRUPrev (pol p)" N as c "b # bs"]
    by (auto simp: lru_rep_def)
  moreover obtain n where n: "fuel = Suc n" using Cons.prems by (cases fuel) auto
  moreover have "\<exists>t' q. LRUGetBuffer_loop n N quiet (Suc t) p b (k - 1) =
      Done (t', q) (v, hdr p v + BUF_REFCOUNT_ONE) \<and> hdr q = pin_state v (hdr p) \<and>
      lru_queue N (pol q) = remove1 v (lru_queue N (pol p))"
    if "BUF_STATE_GET_REFCOUNT (hdr p c) \<noteq> 0"
    by (rule Cons.IH [of "as @ [c]"]) (use Cons.prems that n in auto)
  ultimately have skip: ?case if "BUF_STATE_GET_REFCOUNT (hdr p c) \<noteq> 0"
    using Cons.prems(2,4) that LRU_skip [OF r, of c k n t] by simp
  show ?case
  proof (cases "BUF_STATE_GET_REFCOUNT (hdr p c) = 0")
    case True
    then have v: "c = v" using Cons.prems(3) by simp
    show ?thesis unfolding n v by (rule LRU_take [OF pre]) (use Cons.prems True v in auto)
  qed (rule skip)
qed

lemma LRU_all_pinned:
  assumes r: "lru_rep N (pol p) xs" and c: "c \<in> set xs"
    and pinned: "\<And>b. b \<in> set xs \<Longrightarrow> \<not> bit (hdr p b) 22 \<and> BUF_STATE_GET_REFCOUNT (hdr p b) \<noteq> 0"
    and "m < fuel"
  shows "\<exists>t'. LRUGetBuffer_loop fuel N quiet t p c (int (Suc m)) = Raise (t', p) NoUnpinnedBuffers"
  using c assms(4)
proof (induction m arbitrary: c fuel t)
  case 0
  then obtain n where n: "fuel = Suc n" by (cases fuel) auto
  moreover have "c < N" using r 0 by (auto simp: lru_rep_def)
  ultimately show ?case using pinned [OF 0(1)] by (simp add: LRUGetBuffer_loop.simps quiet_def Let_def)
next
  case (Suc m)
  then obtain n where n: "fuel = Suc n" "m < n" by (cases fuel) auto
  show ?case
    unfolding n(1) using LRU_skip [OF r Suc.prems(1), of "int (Suc (Suc m))" n t]
      pinned [OF Suc.prems(1)] Suc.IH [OF lru_next_candidate [OF r Suc.prems(1)] n(2)]
    by simp
qed

lemma lru_queue_length: "lru_ok N s \<Longrightarrow> length (lru_queue N s) \<le> N"
proof -
  assume "lru_ok N s"
  then have "distinct (lru_queue N s)" "set (lru_queue N s) \<subseteq> {..<N}"
    using lru_mem_less lru_rep_distinct [OF lru_okD] by blast+
  then show ?thesis using card_mono [of "{..<N}" "set (lru_queue N s)"] by (simp add: distinct_card)
qed

section \<open>Properties\<close>

text \<open>
  C21: \<open>LRUInitialize\<close> on fresh shared memory builds the list of all buffers in index order,
  and the three hooks are the list operations of LRU: a hit moves a linked buffer to the
  most recently used end and ignores any other, an insert puts the buffer there whether or
  not it was linked, an invalidation removes it. None of them leaves the arrays, and all
  keep the representation invariant.
\<close>

theorem LRU_hooks_refine:
  assumes "lru_ok N s" "b < N"
  shows "(\<exists>s'. LRUNotifyHit N b s = Some s' \<and> lru_ok N s' \<and>
      lru_queue N s' = (if b \<in> set (lru_queue N s) then remove1 b (lru_queue N s) @ [b] else lru_queue N s)) \<and>
    (\<exists>s'. LRUNotifyInsert N b s = Some s' \<and> lru_ok N s' \<and> lru_queue N s' = remove1 b (lru_queue N s) @ [b]) \<and>
    (\<exists>s'. LRUNotifyInvalidate N b s = Some s' \<and> lru_ok N s' \<and> lru_queue N s' = remove1 b (lru_queue N s)) \<and>
    (\<exists>s'. LRUInitialize N False s = Some s' \<and> lru_ok N s' \<and> lru_queue N s' = [0..<N])"
proof -
  note r = lru_okD [OF assms(1)]
  have "0 < N" using assms(2) by simp
  obtain s1 where "LRUNotifyHit N b s = Some s1"
    "lru_rep N s1 (if b \<in> set (lru_queue N s) then remove1 b (lru_queue N s) @ [b] else lru_queue N s)"
    using LRUNotifyHit_rep [OF r assms(2)] by blast
  moreover obtain s2 where "LRUNotifyInsert N b s = Some s2" "lru_rep N s2 (remove1 b (lru_queue N s) @ [b])"
    using LRUNotifyInsert_rep [OF r assms(2)] by blast
  moreover obtain s3 where "LRUNotifyInvalidate N b s = Some s3" "lru_rep N s3 (remove1 b (lru_queue N s))"
    using LRUNotifyInvalidate_rep [OF r assms(2)] by blast
  moreover obtain s4 where "LRUInitialize N False s = Some s4" "lru_rep N s4 [0..<N]"
    using LRUInitialize_rep [OF \<open>0 < N\<close>] by blast
  ultimately show ?thesis using lru_rep_ok by blast
qed

text \<open>The shared memory of the policy right after startup, with \<open>n\<close> buffers.\<close>

definition lru_started :: "nat \<Rightarrow> LRUState" where
  "lru_started n = the (LRUInitialize n False \<lparr>lru_bgw_sync_seq = 0, LRUNext = (\<lambda>_. 0), LRUPrev = (\<lambda>_. 0)\<rparr>)"

lemma lru_started_ok: "0 < n \<Longrightarrow> lru_ok n (lru_started n) \<and> lru_queue n (lru_started n) = [0..<n]"
proof -
  assume "0 < n"
  then obtain s where "LRUInitialize n False \<lparr>lru_bgw_sync_seq = 0, LRUNext = (\<lambda>_. 0), LRUPrev = (\<lambda>_. 0)\<rparr> = Some s"
    "lru_rep n s [0..<n]"
    using LRUInitialize_rep by blast
  then show ?thesis using lru_rep_ok by (simp add: lru_started_def)
qed

theorem LRU_hooks_refine_witness:
  "\<exists>s'. LRUNotifyHit 3 0 (lru_started 3) = Some s' \<and> lru_ok 3 s' \<and> lru_queue 3 s' = [1, 2, 0]"
  using LRU_hooks_refine [of 3 "lru_started 3" 0] lru_started_ok [of 3] by (simp add: upt_small)



text \<open>
  C3: undisturbed and with no header locked, \<open>NBuffers + 1\<close> iterations decide: the victim is
  the first unpinned buffer from the least recently used end, it is pinned and unlinked and
  nothing else changes; with every linked buffer pinned the search ends in \<open>no unpinned
  buffers\<close>, with an empty list in \<open>no buffers in LRU queue\<close>.
\<close>

theorem LRUGetBuffer_victim:
  assumes pre: "search_pre N (lru_ok N) quiet p"
    and unlocked: "\<forall>b \<in> set (lru_queue N (pol p)). hdr p b AND BM_LOCKED = 0"
    and fuel: "N < fuel"
  shows "case find (\<lambda>b. BUF_STATE_GET_REFCOUNT (hdr p b) = 0) (lru_queue N (pol p)) of
      Some v \<Rightarrow> \<exists>t' q. LRUGetBuffer N fuel quiet t p = Done (t', q) (v, hdr p v + BUF_REFCOUNT_ONE) \<and>
        hdr q = pin_state v (hdr p) \<and> lru_queue N (pol q) = remove1 v (lru_queue N (pol p))
    | None \<Rightarrow> \<exists>t'. LRUGetBuffer N fuel quiet t p =
        Raise (t', p) (if lru_queue N (pol p) = [] then NoBuffersInLRUQueue else NoUnpinnedBuffers)"
proof -
  have ok: "lru_ok N (pol p)" using pre by (simp add: search_pre_def)
  note r = lru_okD [OF ok] and len = lru_queue_length [OF ok]
  have tail: "LRUPrev (pol p) N = (if lru_queue N (pol p) = [] then N else hd (lru_queue N (pol p)))"
    using r by (auto simp: lru_rep_def dest: queue_tail)
  show ?thesis
  proof (cases "lru_queue N (pol p)")
    case Nil
    with tail fuel show ?thesis by (cases fuel) (simp_all add: LRUGetBuffer_def LRUGetBuffer_loop.simps)
  next
    case (Cons c bs)
    then have N: "length bs < N" using len by simp
    have c: "LRUGetBuffer N fuel quiet t p = LRUGetBuffer_loop fuel N quiet t p c (int N)"
      using tail Cons by (simp add: LRUGetBuffer_def)
    show ?thesis
    proof (cases "find (\<lambda>b. BUF_STATE_GET_REFCOUNT (hdr p b) = 0) (lru_queue N (pol p))")
      case (Some v)
      have "\<exists>t' q. LRUGetBuffer_loop fuel N quiet t p c (int N) = Done (t', q) (v, hdr p v + BUF_REFCOUNT_ONE) \<and>
          hdr q = pin_state v (hdr p) \<and> lru_queue N (pol q) = remove1 v (lru_queue N (pol p))"
        by (rule LRU_find [OF pre, of "[]"]) (use Cons unlocked fuel N Some in auto)
      with Some show ?thesis by (simp add: c)
    next
      case None
      then have "\<And>b. b \<in> set (lru_queue N (pol p)) \<Longrightarrow>
          \<not> bit (hdr p b) 22 \<and> BUF_STATE_GET_REFCOUNT (hdr p b) \<noteq> 0"
        using unlocked by (auto simp: find_None_iff)
      from LRU_all_pinned [OF r _ this, of c "N - 1" fuel t] show ?thesis
        using Cons None N fuel by (simp add: c)
    qed
  qed
qed

theorem LRUGetBuffer_victim_witness:
  "\<exists>t' q. LRUGetBuffer 2 3 quiet 0 (fresh_pool (\<lambda>b. if b = 0 then 1 else 0) (lru_started 2)) =
     Done (t', q) (1, 1) \<and> lru_queue 2 (pol q) = [0]"
  using LRUGetBuffer_victim [of 2 "fresh_pool (\<lambda>b. if b = 0 then 1 else 0) (lru_started 2)" 3 0]
    fresh_search_pre [of "lru_ok 2" "lru_started 2" 2 quiet] lru_started_ok [of 2]
  by (auto simp: upt_small BUF_STATE_GET_REFCOUNT_def layout_defs bit_1_iff split: if_splits)

end
