(* ===== verification/LFU.thy ===== *)
theory LFU
  imports Victim_Search
begin

unbundle bit_operations_syntax

text \<open>
  The LFU policy of \<^verbatim>\<open>freelist.c\<close>: one doubly linked list per access frequency from 1 to
  \<open>LFU_MAX_FREQ\<close>, all in the arrays \<open>LFUNext\<close> and \<open>LFUPrev\<close> of \<open>NBuffers + LFU_MAX_FREQ\<close>
  elements, the sentinel of frequency \<open>f\<close> being element \<open>NBuffers + f - 1\<close>; \<open>LFUFreq\<close> holds
  the frequency of each buffer, 0 for a buffer in no list. The abstraction is the family of
  lists, each from the least to the most recently used buffer.
\<close>

definition LFU_MAX_FREQ :: nat where "LFU_MAX_FREQ = 1024"

definition LFU_SENTINEL :: "nat \<Rightarrow> nat \<Rightarrow> nat" where
  "LFU_SENTINEL NBuffers f = NBuffers + f - 1"

record LFUState =
  min_freq :: nat
  lfu_bgw_sync_seq :: uint32
  LFUFreq :: "nat \<Rightarrow> nat"
  LFUNext :: "nat \<Rightarrow> nat"
  LFUPrev :: "nat \<Rightarrow> nat"

section \<open>The operations\<close>

definition LFU_BUCKET_EMPTY :: "nat \<Rightarrow> nat \<Rightarrow> LFUState \<Rightarrow> bool option" where
  "LFU_BUCKET_EMPTY NBuffers f s = do {
     n \<leftarrow> arr_get (NBuffers + LFU_MAX_FREQ) (LFUNext s) (LFU_SENTINEL NBuffers f);
     Some (n = LFU_SENTINEL NBuffers f)
   }"

definition LFUInitialize :: "nat \<Rightarrow> bool \<Rightarrow> LFUState \<Rightarrow> LFUState option" where
  "LFUInitialize NBuffers found s =
     (if found then Some s
      else do {
        let n = NBuffers + LFU_MAX_FREQ;
        let s = s\<lparr>min_freq := 1, lfu_bgw_sync_seq := 0\<rparr>;
        s \<leftarrow> foldM (\<lambda>i s. do {
            let sn = LFU_SENTINEL NBuffers i;
            nx \<leftarrow> arr_set n (LFUNext s) sn sn;
            pv \<leftarrow> arr_set n (LFUPrev s) sn sn;
            Some (s\<lparr>LFUNext := nx, LFUPrev := pv\<rparr>)
          }) [1..<LFU_MAX_FREQ + 1] s;
        let sn = LFU_SENTINEL NBuffers 1;
        nx \<leftarrow> arr_set n (LFUNext s) sn (NBuffers - 1);
        pv \<leftarrow> arr_set n (LFUPrev s) sn 0;
        foldM (\<lambda>i s. do {
            fr \<leftarrow> arr_set NBuffers (LFUFreq s) i 1;
            nx \<leftarrow> arr_set n (LFUNext s) i (if i < NBuffers - 1 then i + 1 else sn);
            pv \<leftarrow> arr_set n (LFUPrev s) i (if i > 0 then i - 1 else sn);
            Some (s\<lparr>LFUFreq := fr, LFUNext := nx, LFUPrev := pv\<rparr>)
          }) [0..<NBuffers] (s\<lparr>LFUNext := nx, LFUPrev := pv\<rparr>)
      })"

definition LFUBucketUnlink :: "nat \<Rightarrow> nat \<Rightarrow> LFUState \<Rightarrow> LFUState option" where
  "LFUBucketUnlink NBuffers buf_id s = do {
     let n = NBuffers + LFU_MAX_FREQ;
     f \<leftarrow> arr_get NBuffers (LFUFreq s) buf_id;
     let sn = LFU_SENTINEL NBuffers f;
     next \<leftarrow> arr_get n (LFUNext s) buf_id;
     prev \<leftarrow> arr_get n (LFUPrev s) buf_id;
     s \<leftarrow> (if next = sn
           then do { nx \<leftarrow> arr_set n (LFUNext s) sn prev; Some (s\<lparr>LFUNext := nx\<rparr>) }
           else do { pv \<leftarrow> arr_set n (LFUPrev s) next prev; Some (s\<lparr>LFUPrev := pv\<rparr>) });
     s \<leftarrow> (if prev = sn
           then do { pv \<leftarrow> arr_set n (LFUPrev s) sn next; Some (s\<lparr>LFUPrev := pv\<rparr>) }
           else do { nx \<leftarrow> arr_set n (LFUNext s) prev next; Some (s\<lparr>LFUNext := nx\<rparr>) });
     nx \<leftarrow> arr_set n (LFUNext s) buf_id NBuffers;
     pv \<leftarrow> arr_set n (LFUPrev s) buf_id NBuffers;
     Some (s\<lparr>LFUNext := nx, LFUPrev := pv\<rparr>)
   }"

definition LFUBucketInsertMRU :: "nat \<Rightarrow> nat \<Rightarrow> nat \<Rightarrow> LFUState \<Rightarrow> LFUState option" where
  "LFUBucketInsertMRU NBuffers buf_id freq s = do {
     let n = NBuffers + LFU_MAX_FREQ;
     let sn = LFU_SENTINEL NBuffers freq;
     old_head \<leftarrow> arr_get n (LFUNext s) sn;
     nx \<leftarrow> arr_set n (LFUNext s) buf_id sn;
     pv \<leftarrow> arr_set n (LFUPrev s) buf_id old_head;
     let s = s\<lparr>LFUNext := nx, LFUPrev := pv\<rparr>;
     s \<leftarrow> (if old_head = sn
           then do { pv \<leftarrow> arr_set n (LFUPrev s) sn buf_id; Some (s\<lparr>LFUPrev := pv\<rparr>) }
           else do { nx \<leftarrow> arr_set n (LFUNext s) old_head buf_id; Some (s\<lparr>LFUNext := nx\<rparr>) });
     nx \<leftarrow> arr_set n (LFUNext s) sn buf_id;
     Some (s\<lparr>LFUNext := nx\<rparr>)
   }"

definition LFUNotifyInsert :: "nat \<Rightarrow> nat \<Rightarrow> LFUState \<Rightarrow> LFUState option" where
  "LFUNotifyInsert NBuffers buf_id s = do {
     f \<leftarrow> arr_get NBuffers (LFUFreq s) buf_id;
     s \<leftarrow> (if f \<noteq> 0 then LFUBucketUnlink NBuffers buf_id s else Some s);
     fr \<leftarrow> arr_set NBuffers (LFUFreq s) buf_id 1;
     s \<leftarrow> LFUBucketInsertMRU NBuffers buf_id 1 (s\<lparr>LFUFreq := fr\<rparr>);
     Some (s\<lparr>min_freq := 1\<rparr>)
   }"

definition LFUNotifyHit :: "nat \<Rightarrow> nat \<Rightarrow> LFUState \<Rightarrow> LFUState option" where
  "LFUNotifyHit NBuffers buf_id s = do {
     f \<leftarrow> arr_get NBuffers (LFUFreq s) buf_id;
     if f = 0 then Some s
     else do {
       let new_f = (if f < LFU_MAX_FREQ then f + 1 else LFU_MAX_FREQ);
       s \<leftarrow> LFUBucketUnlink NBuffers buf_id s;
       e \<leftarrow> LFU_BUCKET_EMPTY NBuffers f s;
       let s = (if f = min_freq s \<and> e then s\<lparr>min_freq := new_f\<rparr> else s);
       fr \<leftarrow> arr_set NBuffers (LFUFreq s) buf_id new_f;
       LFUBucketInsertMRU NBuffers buf_id new_f (s\<lparr>LFUFreq := fr\<rparr>)
     }
   }"

definition LFUNotifyInvalidate :: "nat \<Rightarrow> nat \<Rightarrow> LFUState \<Rightarrow> LFUState option" where
  "LFUNotifyInvalidate NBuffers buf_id s = do {
     f \<leftarrow> arr_get NBuffers (LFUFreq s) buf_id;
     if f \<noteq> 0
     then do {
       s \<leftarrow> LFUBucketUnlink NBuffers buf_id s;
       fr \<leftarrow> arr_set NBuffers (LFUFreq s) buf_id 0;
       Some (s\<lparr>LFUFreq := fr\<rparr>)
     }
     else Some s
   }"

text \<open>
  The three loops of \<open>LFUGetBuffer\<close>: the walk through one bucket, the loop over the
  frequencies from \<open>min_freq\<close> on, and the retry after a lost race (\<open>outer_retry\<close>).
\<close>

datatype lfu_scan = LfuTaken victim | LfuRetry | LfuExhausted

definition LFU_take :: "nat \<Rightarrow> nat \<Rightarrow> nat \<Rightarrow> LFUState pool \<Rightarrow> LFUState pool option" where
  "LFU_take NBuffers candidate f p = do {
     s \<leftarrow> LFUBucketUnlink NBuffers candidate (pol p);
     fr \<leftarrow> arr_set NBuffers (LFUFreq s) candidate 0;
     let s = s\<lparr>LFUFreq := fr\<rparr>;
     e \<leftarrow> LFU_BUCKET_EMPTY NBuffers f s;
     let s = (if e then s\<lparr>min_freq := f\<rparr> else s);
     claim_victim candidate (p\<lparr>pol := s\<rparr>)
   }"

fun LFUGetBuffer_bucket ::
    "nat \<Rightarrow> nat \<Rightarrow> interference \<Rightarrow> nat \<Rightarrow> LFUState pool \<Rightarrow> nat \<Rightarrow> nat
     \<Rightarrow> (nat \<times> LFUState pool, lfu_scan) run" where
  "LFUGetBuffer_bucket 0 NBuffers E t p f candidate = Spin (t, p)"
| "LFUGetBuffer_bucket (Suc fuel) NBuffers E t p f candidate =
     (if candidate = LFU_SENTINEL NBuffers f then Done (t, p) LfuExhausted
      else if candidate \<ge> NBuffers then Crash
      else let next_candidate = LFUNext (pol p) candidate; st1 = E t (hdr p); old_state = st1 candidate
      in if old_state AND BM_LOCKED \<noteq> 0 \<or> BUF_STATE_GET_REFCOUNT old_state \<noteq> 0
         then LFUGetBuffer_bucket fuel NBuffers E (Suc t) (p\<lparr>hdr := st1\<rparr>) f next_candidate
         else let new_state = old_state + BUF_REFCOUNT_ONE;
                  (success, found, st2) =
                    pg_atomic_compare_exchange_u64 (E (Suc t) st1) candidate old_state new_state
         in if success
            then (case LFU_take NBuffers candidate f (p\<lparr>hdr := st2\<rparr>) of
                    None \<Rightarrow> Crash
                  | Some q \<Rightarrow> Done (Suc (Suc t), q) (LfuTaken (candidate, new_state)))
            else Done (Suc (Suc t), p\<lparr>hdr := st2\<rparr>) LfuRetry)"

primrec LFUGetBuffer_for ::
    "nat list \<Rightarrow> nat \<Rightarrow> nat \<Rightarrow> interference \<Rightarrow> nat \<Rightarrow> LFUState pool \<Rightarrow> (nat \<times> LFUState pool, lfu_scan) run" where
  "LFUGetBuffer_for [] fuel NBuffers E t p = Done (t, p) LfuExhausted"
| "LFUGetBuffer_for (f # fs) fuel NBuffers E t p =
     (case arr_get (NBuffers + LFU_MAX_FREQ) (LFUPrev (pol p)) (LFU_SENTINEL NBuffers f) of
        None \<Rightarrow> Crash
      | Some candidate \<Rightarrow>
          (case LFUGetBuffer_bucket fuel NBuffers E t p f candidate of
             Done (t1, p1) LfuExhausted \<Rightarrow>
               (case LFU_BUCKET_EMPTY NBuffers f (pol p1) of
                  None \<Rightarrow> Crash
                | Some e \<Rightarrow>
                    LFUGetBuffer_for fs fuel NBuffers E t1
                      (if e then p1\<lparr>pol := (pol p1)\<lparr>min_freq := f + 1\<rparr>\<rparr> else p1))
           | Done s r \<Rightarrow> Done s r
           | Raise s e \<Rightarrow> Raise s e
           | Spin s \<Rightarrow> Spin s
           | Crash \<Rightarrow> Crash))"

fun LFUGetBuffer_loop ::
    "nat \<Rightarrow> nat \<Rightarrow> interference \<Rightarrow> nat \<Rightarrow> LFUState pool \<Rightarrow> (nat \<times> LFUState pool, victim) run" where
  "LFUGetBuffer_loop 0 NBuffers E t p = Spin (t, p)"
| "LFUGetBuffer_loop (Suc fuel) NBuffers E t p =
     (case LFUGetBuffer_for [min_freq (pol p)..<LFU_MAX_FREQ + 1] fuel NBuffers E t p of
        Done s (LfuTaken v) \<Rightarrow> Done s v
      | Done (t1, p1) LfuRetry \<Rightarrow> LFUGetBuffer_loop fuel NBuffers E t1 p1
      | Done s LfuExhausted \<Rightarrow> Raise s NoUnpinnedBuffersAvailable
      | Raise s e \<Rightarrow> Raise s e
      | Spin s \<Rightarrow> Spin s
      | Crash \<Rightarrow> Crash)"

definition LFUGetBuffer ::
    "nat \<Rightarrow> nat \<Rightarrow> interference \<Rightarrow> nat \<Rightarrow> LFUState pool \<Rightarrow> (nat \<times> LFUState pool, victim) run" where
  "LFUGetBuffer NBuffers fuel E t p = LFUGetBuffer_loop fuel NBuffers E t p"

section \<open>The lists a state holds\<close>

definition lfu_bucket :: "nat \<Rightarrow> LFUState \<Rightarrow> nat \<Rightarrow> nat list" where
  "lfu_bucket NBuffers s f =
     walk NBuffers (LFUNext s) (LFU_SENTINEL NBuffers f) (LFUPrev s (LFU_SENTINEL NBuffers f))"

definition freqs :: "nat set" where "freqs = {1..LFU_MAX_FREQ}"

definition lfu_links :: "nat \<Rightarrow> (nat \<Rightarrow> nat) \<Rightarrow> (nat \<Rightarrow> nat) \<Rightarrow> (nat \<Rightarrow> nat list) \<Rightarrow> bool" where
  "lfu_links NBuffers nx pv bs \<longleftrightarrow>
     (\<forall>f \<in> freqs. queue nx pv (LFU_SENTINEL NBuffers f) (bs f) \<and> (\<forall>x \<in> set (bs f). x < NBuffers)) \<and>
     (\<forall>f \<in> freqs. \<forall>g \<in> freqs. f \<noteq> g \<longrightarrow> set (bs f) \<inter> set (bs g) = {})"

definition lfu_rep :: "nat \<Rightarrow> LFUState \<Rightarrow> (nat \<Rightarrow> nat list) \<Rightarrow> bool" where
  "lfu_rep NBuffers s bs \<longleftrightarrow>
     lfu_links NBuffers (LFUNext s) (LFUPrev s) bs \<and> 1 \<le> min_freq s \<and>
     (\<forall>x < NBuffers. LFUFreq s x \<le> LFU_MAX_FREQ \<and> (\<forall>f \<in> freqs. LFUFreq s x = f \<longleftrightarrow> x \<in> set (bs f)))"

definition lfu_ok :: "nat \<Rightarrow> LFUState \<Rightarrow> bool" where
  "lfu_ok NBuffers s \<longleftrightarrow> lfu_rep NBuffers s (lfu_bucket NBuffers s)"

definition lfu_mem :: "nat \<Rightarrow> LFUState \<Rightarrow> nat set" where
  "lfu_mem NBuffers s = {b. b < NBuffers \<and> LFUFreq s b \<noteq> 0}"

lemma lfu_links_length: "lfu_links N nx pv bs \<Longrightarrow> f \<in> freqs \<Longrightarrow> length (bs f) \<le> N"
proof -
  assume "lfu_links N nx pv bs" "f \<in> freqs"
  then have "set (bs f) \<subseteq> {..<N}" "distinct (bs f)" by (auto simp: lfu_links_def queue_def)
  then show ?thesis using card_mono [of "{..<N}" "set (bs f)"] by (simp add: distinct_card)
qed

lemma lfu_rep_bucket: "lfu_rep N s bs \<Longrightarrow> f \<in> freqs \<Longrightarrow> lfu_bucket N s f = bs f"
  using lfu_links_length [of N "LFUNext s" "LFUPrev s" bs f]
  by (auto simp: lfu_bucket_def lfu_rep_def lfu_links_def queue_walk)

lemma lfu_rep_ok: "lfu_rep N s bs \<Longrightarrow> lfu_ok N s"
  using lfu_rep_bucket [of N s bs] by (simp add: lfu_ok_def lfu_rep_def lfu_links_def)

lemma LFU_SENTINEL_facts:
  assumes "f \<in> freqs"
  shows "N \<le> LFU_SENTINEL N f" "LFU_SENTINEL N f < N + LFU_MAX_FREQ"
    "g \<in> freqs \<Longrightarrow> LFU_SENTINEL N f = LFU_SENTINEL N g \<longleftrightarrow> f = g"
  using assms by (auto simp: LFU_SENTINEL_def freqs_def)

text \<open>Appending a buffer to one list, and moving it from whatever list it is in.\<close>

definition lfu_add :: "nat \<Rightarrow> nat \<Rightarrow> (nat \<Rightarrow> nat list) \<Rightarrow> nat \<Rightarrow> nat list" where
  "lfu_add x f bs = (\<lambda>g. if g = f then bs g @ [x] else bs g)"

definition lfu_move :: "nat \<Rightarrow> nat \<Rightarrow> (nat \<Rightarrow> nat list) \<Rightarrow> nat \<Rightarrow> nat list" where
  "lfu_move x f bs = lfu_add x f (\<lambda>g. remove1 x (bs g))"

lemma set_lfu_add: "set (lfu_add x f bs g) = (if g = f then insert x (set (bs g)) else set (bs g))"
  by (auto simp: lfu_add_def)

lemma lfu_linksD:
  assumes "lfu_links N nx pv bs" "f \<in> freqs"
  shows "queue nx pv (LFU_SENTINEL N f) (bs f)" "x \<in> set (bs f) \<Longrightarrow> x < N"
    "g \<in> freqs \<Longrightarrow> f \<noteq> g \<Longrightarrow> x \<in> set (bs f) \<Longrightarrow> x \<notin> set (bs g)" "distinct (bs f)"
proof -
  show q: "queue nx pv (LFU_SENTINEL N f) (bs f)" using assms by (simp add: lfu_links_def)
  show "x \<in> set (bs f) \<Longrightarrow> x < N" using assms by (simp add: lfu_links_def)
  show "g \<in> freqs \<Longrightarrow> f \<noteq> g \<Longrightarrow> x \<in> set (bs f) \<Longrightarrow> x \<notin> set (bs g)"
    using assms unfolding lfu_links_def by blast
  show "distinct (bs f)" using q by (rule queue_distinct)
qed

text \<open>Buckets of different frequencies share no node.\<close>

lemma lfu_disjoint:
  assumes "lfu_links N nx pv bs" "f \<in> freqs" "g \<in> freqs" "f \<noteq> g"
  shows "insert (LFU_SENTINEL N g) (set (bs g)) \<inter> insert (LFU_SENTINEL N f) (set (bs f)) = {}"
proof -
  have "x < N" if "x \<in> set (bs f) \<or> x \<in> set (bs g)" for x using that lfu_linksD(2) [OF assms(1)] assms(2,3) by blast
  moreover have "N \<le> LFU_SENTINEL N f" "N \<le> LFU_SENTINEL N g" "LFU_SENTINEL N f \<noteq> LFU_SENTINEL N g"
    using LFU_SENTINEL_facts(1,3) assms(2-4) by blast+
  moreover have "set (bs f) \<inter> set (bs g) = {}" using lfu_linksD(3) [OF assms(1-3,4)] by blast
  ultimately show ?thesis by fastforce
qed

lemma lfu_links_unlink:
  assumes l: "lfu_links N nx pv bs" and f: "f \<in> freqs" and x: "x \<in> set (bs f)"
  shows "lfu_links N (unlink_next c (LFU_SENTINEL N f) x nx pv) (unlink_prev c (LFU_SENTINEL N f) x nx pv)
    (\<lambda>g. remove1 x (bs g))"
proof -
  let ?nx = "unlink_next c (LFU_SENTINEL N f) x nx pv" and ?pv = "unlink_prev c (LFU_SENTINEL N f) x nx pv"
  note q = lfu_linksD(1) [OF l f]
  have "queue ?nx ?pv (LFU_SENTINEL N g) (remove1 x (bs g))" if g: "g \<in> freqs" for g
  proof (cases "g = f")
    case True
    then show ?thesis using queue_unlink [OF q x] by simp
  next
    case False
    then have "x \<notin> set (bs g)" using lfu_linksD(3) [OF l f g _ x] by simp
    then show ?thesis
      using unlink_other [OF q x lfu_linksD(1) [OF l g]] lfu_disjoint [OF l f g] False by (simp add: remove1_idem)
  qed
  moreover have "set (remove1 x (bs g)) \<subseteq> set (bs g)" for g by (rule set_remove1_subset)
  ultimately show ?thesis using l by (simp add: lfu_links_def) blast
qed

lemma lfu_links_push:
  assumes l: "lfu_links N nx pv bs" and f: "f \<in> freqs" and x: "x < N" "\<And>g. g \<in> freqs \<Longrightarrow> x \<notin> set (bs g)"
  shows "lfu_links N (push_next (LFU_SENTINEL N f) x nx) (push_prev (LFU_SENTINEL N f) x nx pv) (lfu_add x f bs)"
proof -
  let ?nx = "push_next (LFU_SENTINEL N f) x nx" and ?pv = "push_prev (LFU_SENTINEL N f) x nx pv"
  note q = lfu_linksD(1) [OF l f]
  have xs: "x \<noteq> LFU_SENTINEL N g" if "g \<in> freqs" for g using LFU_SENTINEL_facts(1) [OF that, of N] x(1) by auto
  have "queue ?nx ?pv (LFU_SENTINEL N g) (lfu_add x f bs g)" if g: "g \<in> freqs" for g
  proof (cases "g = f")
    case True
    then show ?thesis using queue_push [OF q x(2) [OF f] xs [OF f]] by (simp add: lfu_add_def)
  next
    case False
    then have "insert (LFU_SENTINEL N g) (set (bs g)) \<inter> insert (LFU_SENTINEL N f) (insert x (set (bs f))) = {}"
      using lfu_disjoint [OF l f g] x(2) [OF g] xs [OF g] by auto
    then show ?thesis using push_other [OF q lfu_linksD(1) [OF l g]] False by (simp add: lfu_add_def)
  qed
  moreover have "y < N" if "g \<in> freqs" "y \<in> set (lfu_add x f bs g)" for g y
    using that(2) x(1) lfu_linksD(2) [OF l that(1), of y] by (cases "g = f") (auto simp: set_lfu_add)
  moreover have "set (lfu_add x f bs g) \<inter> set (lfu_add x f bs h) = {}" if gh: "g \<in> freqs" "h \<in> freqs" "g \<noteq> h" for g h
    using lfu_linksD(3) [OF l gh] x(2) [OF gh(1)] x(2) [OF gh(2)] gh(3) unfolding set_lfu_add
    by (cases "g = f"; cases "h = f") auto
  ultimately show ?thesis unfolding lfu_links_def by blast
qed

lemma LFUBucketUnlink_links:
  assumes l: "lfu_links N (LFUNext s) (LFUPrev s) bs" and f: "LFUFreq s x \<in> freqs"
    and x: "x \<in> set (bs (LFUFreq s x))"
  obtains s' where "LFUBucketUnlink N x s = Some s'" "lfu_links N (LFUNext s') (LFUPrev s') (\<lambda>g. remove1 x (bs g))"
    "LFUFreq s' = LFUFreq s" "min_freq s' = min_freq s" "lfu_bgw_sync_seq s' = lfu_bgw_sync_seq s"
proof -
  let ?sn = "LFU_SENTINEL N (LFUFreq s x)"
  let ?s = "s\<lparr>LFUNext := unlink_next N ?sn x (LFUNext s) (LFUPrev s),
    LFUPrev := unlink_prev N ?sn x (LFUNext s) (LFUPrev s)\<rparr>"
  note q = lfu_linksD(1) [OF l f]
  have "x < N" using lfu_linksD(2) [OF l f x] .
  have lt: "y < N + LFU_MAX_FREQ" if "y \<in> insert ?sn (set (bs (LFUFreq s x)))" for y
    using that lfu_linksD(2) [OF l f, of y] LFU_SENTINEL_facts(2) [OF f, of N] by auto
  have "LFUNext s x < N + LFU_MAX_FREQ" "LFUPrev s x < N + LFU_MAX_FREQ" "?sn < N + LFU_MAX_FREQ"
    using queue_next_mem [OF q, of x] queue_prev_mem [OF q, of x] x lt by blast+
  then have "LFUBucketUnlink N x s = Some ?s" using \<open>x < N\<close>
    by (simp add: LFUBucketUnlink_def unlink_next_def unlink_prev_def Let_def)
  from that [OF this] lfu_links_unlink [OF l f x] show ?thesis by simp
qed

lemma LFUBucketInsertMRU_links:
  assumes l: "lfu_links N (LFUNext s) (LFUPrev s) bs" and f: "f \<in> freqs"
    and x: "x < N" "\<And>g. g \<in> freqs \<Longrightarrow> x \<notin> set (bs g)"
  obtains s' where "LFUBucketInsertMRU N x f s = Some s'"
    "lfu_links N (LFUNext s') (LFUPrev s') (lfu_add x f bs)"
    "LFUFreq s' = LFUFreq s" "min_freq s' = min_freq s" "lfu_bgw_sync_seq s' = lfu_bgw_sync_seq s"
proof -
  let ?sn = "LFU_SENTINEL N f"
  let ?s = "s\<lparr>LFUNext := push_next ?sn x (LFUNext s), LFUPrev := push_prev ?sn x (LFUNext s) (LFUPrev s)\<rparr>"
  note q = lfu_linksD(1) [OF l f]
  have sn: "?sn < N + LFU_MAX_FREQ" "x \<noteq> ?sn" using LFU_SENTINEL_facts(1,2) [OF f, of N] x(1) by auto
  then have "LFUNext s ?sn < N + LFU_MAX_FREQ"
    using queue_next_mem [OF q, of ?sn] lfu_linksD(2) [OF l f, of "LFUNext s ?sn"] by auto
  then have "LFUBucketInsertMRU N x f s = Some ?s" using sn x(1)
    by (simp add: LFUBucketInsertMRU_def push_next_def push_prev_def Let_def)
  from that [OF this] lfu_links_push [OF l f x] show ?thesis by simp
qed

lemma LFU_BUCKET_EMPTY_links:
  assumes "lfu_links N (LFUNext s) (LFUPrev s) bs" "f \<in> freqs"
  shows "LFU_BUCKET_EMPTY N f s = Some (bs f = [])"
  using queue_head [OF lfu_linksD(1) [OF assms]] queue_sentinel [OF lfu_linksD(1) [OF assms]]
    LFU_SENTINEL_facts(2) [OF assms(2), of N]
  by (auto simp: LFU_BUCKET_EMPTY_def dest: last_in_set)

section \<open>The hooks refine operations on the family of lists\<close>

lemma lfu_repD:
  assumes "lfu_rep N s bs"
  shows "lfu_links N (LFUNext s) (LFUPrev s) bs" "1 \<le> min_freq s"
    "x < N \<Longrightarrow> LFUFreq s x \<noteq> 0 \<Longrightarrow> LFUFreq s x \<in> freqs \<and> x \<in> set (bs (LFUFreq s x))"
    "x < N \<Longrightarrow> f \<in> freqs \<Longrightarrow> x \<in> set (bs f) \<longleftrightarrow> LFUFreq s x = f"
proof -
  show "lfu_links N (LFUNext s) (LFUPrev s) bs" "1 \<le> min_freq s" using assms by (simp_all add: lfu_rep_def)
  show mem: "x \<in> set (bs f) \<longleftrightarrow> LFUFreq s x = f" if "x < N" "f \<in> freqs" for f
    using assms that by (auto simp: lfu_rep_def)
  show "LFUFreq s x \<in> freqs \<and> x \<in> set (bs (LFUFreq s x))" if "x < N" "LFUFreq s x \<noteq> 0"
  proof -
    have "LFUFreq s x \<in> freqs" using assms that by (simp add: lfu_rep_def freqs_def)
    with mem [OF that(1)] show ?thesis by blast
  qed
qed

lemma lfu_freq_0: "0 \<notin> freqs"
  by (simp add: freqs_def)

text \<open>After unlinking a buffer from its bucket it is in no bucket.\<close>

lemma lfu_detach:
  assumes r: "lfu_rep N s bs" and x: "x < N" "LFUFreq s x \<noteq> 0"
  obtains s' where "LFUBucketUnlink N x s = Some s'" "lfu_links N (LFUNext s') (LFUPrev s') (\<lambda>g. remove1 x (bs g))"
    "LFUFreq s' = LFUFreq s" "min_freq s' = min_freq s" "lfu_bgw_sync_seq s' = lfu_bgw_sync_seq s"
  using LFUBucketUnlink_links [OF lfu_repD(1) [OF r]] lfu_repD(3) [OF r x] by metis

lemma lfu_mem_remove1:
  assumes r: "lfu_rep N s bs" and f: "f \<in> freqs"
  shows "set (remove1 x (bs f)) = set (bs f) - {x}"
  using lfu_linksD(4) [OF lfu_repD(1) [OF r] f] by (rule set_remove1_eq)

lemma lfu_rep_freq:
  assumes r: "lfu_rep N s bs" and x: "x < N" and f: "f = 0 \<or> f \<in> freqs" and m: "1 \<le> min_freq s'"
    and l: "lfu_links N (LFUNext s') (LFUPrev s') (lfu_move x f bs)"
    and fr: "LFUFreq s' = (LFUFreq s)(x := f)"
  shows "lfu_rep N s' (lfu_move x f bs)"
proof -
  have "LFUFreq s' y \<le> LFU_MAX_FREQ" if "y < N" for y
    using r f that by (auto simp: lfu_rep_def fr freqs_def)
  moreover have "LFUFreq s' y = g \<longleftrightarrow> y \<in> set (lfu_move x f bs g)"
    if "y < N" "g \<in> freqs" for y g
    using lfu_repD(4) [OF r that] lfu_mem_remove1 [OF r that(2), of x] that(2) lfu_freq_0
    by (cases "y = x") (auto simp: fr lfu_move_def set_lfu_add)
  ultimately show ?thesis using m l by (simp add: lfu_rep_def)
qed

lemma lfu_move_0: "lfu_links N nx pv (lfu_move x 0 bs) \<longleftrightarrow> lfu_links N nx pv (\<lambda>g. remove1 x (bs g))"
proof -
  have "lfu_move x 0 bs g = remove1 x (bs g)" if "g \<in> freqs" for g
    using that lfu_freq_0 by (cases "g = 0") (auto simp: lfu_move_def lfu_add_def)
  then show ?thesis by (simp add: lfu_links_def)
qed

lemma LFUNotifyInvalidate_rep:
  assumes r: "lfu_rep N s bs" and x: "x < N"
  obtains s' where "LFUNotifyInvalidate N x s = Some s'" "lfu_rep N s' (lfu_move x 0 bs)"
    "LFUFreq s' = (LFUFreq s)(x := 0)" "min_freq s' = min_freq s" "lfu_bgw_sync_seq s' = lfu_bgw_sync_seq s"
proof (cases "LFUFreq s x = 0")
  case True
  have "x \<notin> set (bs g)" if "g \<in> freqs" for g using lfu_repD(4) [OF r x that] True that lfu_freq_0 by auto
  then have "lfu_links N (LFUNext s) (LFUPrev s) (lfu_move x 0 bs)"
    using lfu_repD(1) [OF r] unfolding lfu_move_0 by (simp add: lfu_links_def remove1_idem)
  with lfu_rep_freq [OF r x _ lfu_repD(2) [OF r], of 0] True x that show ?thesis
    by (simp add: LFUNotifyInvalidate_def fun_upd_idem)
next
  case False
  obtain s1 where s1: "LFUBucketUnlink N x s = Some s1" "lfu_links N (LFUNext s1) (LFUPrev s1) (\<lambda>g. remove1 x (bs g))"
    "LFUFreq s1 = LFUFreq s" "min_freq s1 = min_freq s" "lfu_bgw_sync_seq s1 = lfu_bgw_sync_seq s"
    using lfu_detach [OF r x False] by blast
  let ?s = "s1\<lparr>LFUFreq := (LFUFreq s1)(x := 0)\<rparr>"
  have "LFUNotifyInvalidate N x s = Some ?s" using x False s1(1) by (simp add: LFUNotifyInvalidate_def)
  moreover have "lfu_rep N ?s (lfu_move x 0 bs)"
    using lfu_repD(2) [OF r] s1 by (intro lfu_rep_freq [OF r x]) (simp_all add: lfu_move_0)
  ultimately show ?thesis using that s1 by simp
qed

lemma lfu_attach:
  assumes r: "lfu_rep N s bs" and x: "x < N" and f: "f \<in> freqs" and m: "1 \<le> min_freq s1"
    and l: "lfu_links N (LFUNext s1) (LFUPrev s1) (\<lambda>g. remove1 x (bs g))" and fr: "LFUFreq s1 = (LFUFreq s)(x := f)"
  obtains s' where "LFUBucketInsertMRU N x f s1 = Some s'"
    "lfu_rep N s' (lfu_move x f bs)" "LFUFreq s' = (LFUFreq s)(x := f)"
    "min_freq s' = min_freq s1" "lfu_bgw_sync_seq s' = lfu_bgw_sync_seq s1"
proof -
  have n: "x \<notin> set (remove1 x (bs g))" if "g \<in> freqs" for g using lfu_mem_remove1 [OF r that] by simp
  obtain s' where s': "LFUBucketInsertMRU N x f s1 = Some s'"
    "lfu_links N (LFUNext s') (LFUPrev s') (lfu_move x f bs)"
    "LFUFreq s' = LFUFreq s1" "min_freq s' = min_freq s1" "lfu_bgw_sync_seq s' = lfu_bgw_sync_seq s1"
    unfolding lfu_move_def using LFUBucketInsertMRU_links [OF l f x n] by blast
  then have "lfu_rep N s' (lfu_move x f bs)"
    using m f fr by (intro lfu_rep_freq [OF r x]) simp_all
  with s' fr that show ?thesis by simp
qed

lemma LFUNotifyInsert_rep:
  assumes r: "lfu_rep N s bs" and x: "x < N"
  obtains s' where "LFUNotifyInsert N x s = Some s'" "lfu_rep N s' (lfu_move x 1 bs)"
    "LFUFreq s' = (LFUFreq s)(x := 1)" "min_freq s' = 1" "lfu_bgw_sync_seq s' = lfu_bgw_sync_seq s"
proof -
  have one: "1 \<in> freqs" by (simp add: freqs_def LFU_MAX_FREQ_def)
  obtain s1 where s1: "(if LFUFreq s x \<noteq> 0 then LFUBucketUnlink N x s else Some s) = Some s1"
    "lfu_links N (LFUNext s1) (LFUPrev s1) (\<lambda>g. remove1 x (bs g))"
    "LFUFreq s1 = LFUFreq s" "min_freq s1 = min_freq s" "lfu_bgw_sync_seq s1 = lfu_bgw_sync_seq s"
  proof (cases "LFUFreq s x = 0")
    case True
    have "x \<notin> set (bs g)" if "g \<in> freqs" for g using lfu_repD(4) [OF r x that] True that lfu_freq_0 by auto
    then have "lfu_links N (LFUNext s) (LFUPrev s) (\<lambda>g. remove1 x (bs g))"
      using lfu_repD(1) [OF r] by (simp add: lfu_links_def remove1_idem)
    with True that show ?thesis by simp
  next
    case False
    with that lfu_detach [OF r x False] show ?thesis by auto
  qed
  let ?s = "s1\<lparr>LFUFreq := (LFUFreq s1)(x := 1)\<rparr>"
  obtain s' where s': "LFUBucketInsertMRU N x 1 ?s = Some s'" "lfu_rep N s' (lfu_move x 1 bs)"
    "LFUFreq s' = (LFUFreq s)(x := 1)" "min_freq s' = min_freq s" "lfu_bgw_sync_seq s' = lfu_bgw_sync_seq s"
    using lfu_attach [OF r x one, of ?s] s1 lfu_repD(2) [OF r] by auto
  have "lfu_rep N (s'\<lparr>min_freq := 1\<rparr>) (lfu_move x 1 bs)" using s'(2) by (simp add: lfu_rep_def)
  with that s' s1(1) x show ?thesis by (simp add: LFUNotifyInsert_def)
qed

lemma LFUNotifyHit_rep:
  assumes r: "lfu_rep N s bs" and x: "x < N" and f: "LFUFreq s x \<noteq> 0"
  obtains s' where "LFUNotifyHit N x s = Some s'"
    "lfu_rep N s' (lfu_move x (if LFUFreq s x < LFU_MAX_FREQ then LFUFreq s x + 1 else LFU_MAX_FREQ) bs)"
    "LFUFreq s' = (LFUFreq s)(x := (if LFUFreq s x < LFU_MAX_FREQ then LFUFreq s x + 1 else LFU_MAX_FREQ))"
    "min_freq s' = (if LFUFreq s x = min_freq s \<and> remove1 x (bs (LFUFreq s x)) = []
      then (if LFUFreq s x < LFU_MAX_FREQ then LFUFreq s x + 1 else LFU_MAX_FREQ) else min_freq s)"
    "lfu_bgw_sync_seq s' = lfu_bgw_sync_seq s"
proof -
  define n where "n = (if LFUFreq s x < LFU_MAX_FREQ then LFUFreq s x + 1 else LFU_MAX_FREQ)"
  have n: "n \<in> freqs" "1 \<le> n" by (auto simp: n_def freqs_def LFU_MAX_FREQ_def)
  have fr: "LFUFreq s x \<in> freqs" using lfu_repD(3) [OF r x f] by blast
  obtain s1 where s1: "LFUBucketUnlink N x s = Some s1"
    "lfu_links N (LFUNext s1) (LFUPrev s1) (\<lambda>g. remove1 x (bs g))"
    "LFUFreq s1 = LFUFreq s" "min_freq s1 = min_freq s" "lfu_bgw_sync_seq s1 = lfu_bgw_sync_seq s"
    using lfu_detach [OF r x f] by blast
  let ?e = "LFUFreq s x = min_freq s \<and> remove1 x (bs (LFUFreq s x)) = []"
  let ?s = "(if ?e then s1\<lparr>min_freq := n\<rparr> else s1)\<lparr>LFUFreq := (LFUFreq s1)(x := n)\<rparr>"
  have e: "LFU_BUCKET_EMPTY N (LFUFreq s x) s1 = Some (remove1 x (bs (LFUFreq s x)) = [])"
    using LFU_BUCKET_EMPTY_links [OF s1(2) fr] .
  obtain s' where s': "LFUBucketInsertMRU N x n ?s = Some s'" "lfu_rep N s' (lfu_move x n bs)"
    "LFUFreq s' = (LFUFreq s)(x := n)" "min_freq s' = min_freq ?s" "lfu_bgw_sync_seq s' = lfu_bgw_sync_seq ?s"
    by (rule lfu_attach [OF r x n(1), of ?s]) (use s1 n(2) lfu_repD(2) [OF r] in auto)
  have "LFUNotifyHit N x s = Some s'"
    using x f s1 e s'(1) by (cases ?e) (auto simp: LFUNotifyHit_def n_def)
  moreover have "min_freq s' = (if ?e then n else min_freq s)" "lfu_bgw_sync_seq s' = lfu_bgw_sync_seq s"
    using s'(4,5) s1(4,5) by (cases ?e; auto)+
  ultimately show ?thesis using that s'(2,3) unfolding n_def by blast
qed

lemma LFUInitialize_sentinels:
  assumes "0 < N"
  obtains s' where "foldM (\<lambda>i s. do {
        let sn = LFU_SENTINEL N i;
        nx \<leftarrow> arr_set (N + LFU_MAX_FREQ) (LFUNext s) sn sn;
        pv \<leftarrow> arr_set (N + LFU_MAX_FREQ) (LFUPrev s) sn sn;
        Some (s\<lparr>LFUNext := nx, LFUPrev := pv\<rparr>)
      }) [1..<LFU_MAX_FREQ + 1] (s :: LFUState) = Some s'"
    "\<And>f. f \<in> freqs \<Longrightarrow> LFUNext s' (LFU_SENTINEL N f) = LFU_SENTINEL N f \<and> LFUPrev s' (LFU_SENTINEL N f) = LFU_SENTINEL N f"
    "min_freq s' = min_freq s" "lfu_bgw_sync_seq s' = lfu_bgw_sync_seq s" "LFUFreq s' = LFUFreq s"
proof -
  define F where "F = (\<lambda>i (s :: LFUState). do {
        let sn = LFU_SENTINEL N i;
        nx \<leftarrow> arr_set (N + LFU_MAX_FREQ) (LFUNext s) sn sn;
        pv \<leftarrow> arr_set (N + LFU_MAX_FREQ) (LFUPrev s) sn sn;
        Some (s\<lparr>LFUNext := nx, LFUPrev := pv\<rparr>) })"
  define I where "I i s' \<longleftrightarrow> min_freq s' = min_freq s \<and> lfu_bgw_sync_seq s' = lfu_bgw_sync_seq s \<and>
    LFUFreq s' = LFUFreq s \<and> (\<forall>f. 1 \<le> f \<longrightarrow> f \<le> i \<longrightarrow>
      LFUNext s' (LFU_SENTINEL N f) = LFU_SENTINEL N f \<and> LFUPrev s' (LFU_SENTINEL N f) = LFU_SENTINEL N f)"
    for i and s' :: LFUState
  have "\<exists>s'. F (Suc i) s1 = Some s' \<and> I (Suc i) s'" if "i < LFU_MAX_FREQ" "I i s1" for i s1
    using that by (auto simp: F_def I_def Let_def LFU_SENTINEL_def le_Suc_eq)
  moreover have "I 0 s" by (auto simp: I_def)
  ultimately obtain s' where s': "foldM (\<lambda>i. F (Suc i)) [0..<LFU_MAX_FREQ] s = Some s'" "I LFU_MAX_FREQ s'"
    using foldM_upto [of I s LFU_MAX_FREQ "\<lambda>i. F (Suc i)"] by blast
  have "foldM g (map h xs) s = foldM (\<lambda>x. g (h x)) xs s" for g :: "nat \<Rightarrow> LFUState \<Rightarrow> LFUState option" and h :: "nat \<Rightarrow> nat" and xs s
    by (induction xs arbitrary: s) (auto split: bind_split)
  from this [of F Suc "[0..<LFU_MAX_FREQ]" s] have "foldM F [1..<LFU_MAX_FREQ + 1] s = Some s'"
    using s'(1) by (simp add: map_Suc_upt)
  with s'(2) that show ?thesis by (simp add: F_def I_def freqs_def)
qed

lemma LFUInitialize_rep:
  assumes N: "0 < N"
  obtains s' where "LFUInitialize N False s = Some s'" "lfu_rep N s' (\<lambda>f. if f = 1 then [0..<N] else [])"
    "min_freq s' = 1" "lfu_bgw_sync_seq s' = 0" "\<And>b. b < N \<Longrightarrow> LFUFreq s' b = 1"
proof -
  obtain s1 where s1: "foldM (\<lambda>i s. do {
        let sn = LFU_SENTINEL N i;
        nx \<leftarrow> arr_set (N + LFU_MAX_FREQ) (LFUNext s) sn sn;
        pv \<leftarrow> arr_set (N + LFU_MAX_FREQ) (LFUPrev s) sn sn;
        Some (s\<lparr>LFUNext := nx, LFUPrev := pv\<rparr>)
      }) [1..<LFU_MAX_FREQ + 1] (s\<lparr>min_freq := 1, lfu_bgw_sync_seq := 0\<rparr>) = Some s1"
    "\<And>f. f \<in> freqs \<Longrightarrow> LFUNext s1 (LFU_SENTINEL N f) = LFU_SENTINEL N f \<and> LFUPrev s1 (LFU_SENTINEL N f) = LFU_SENTINEL N f"
    "min_freq s1 = 1" "lfu_bgw_sync_seq s1 = 0"
    by (rule LFUInitialize_sentinels [OF N, of "s\<lparr>min_freq := 1, lfu_bgw_sync_seq := 0\<rparr>"]) (simp add: that)
  have sn: "LFU_SENTINEL N 1 = N" by (simp add: LFU_SENTINEL_def)
  define I where "I i s' \<longleftrightarrow> min_freq s' = 1 \<and> lfu_bgw_sync_seq s' = 0 \<and> LFUNext s' N = N - 1 \<and> LFUPrev s' N = 0 \<and>
      (\<forall>j > N. LFUNext s' j = LFUNext s1 j \<and> LFUPrev s' j = LFUPrev s1 j) \<and>
      (\<forall>j < i. LFUFreq s' j = 1 \<and> LFUNext s' j = (if Suc j < N then Suc j else N) \<and>
         LFUPrev s' j = (if 0 < j then j - 1 else N))"
    for i and s' :: LFUState
  define F where "F = (\<lambda>i (s :: LFUState). do {
      fr \<leftarrow> arr_set N (LFUFreq s) i 1;
      nx \<leftarrow> arr_set (N + LFU_MAX_FREQ) (LFUNext s) i (if i < N - 1 then i + 1 else N);
      pv \<leftarrow> arr_set (N + LFU_MAX_FREQ) (LFUPrev s) i (if i > 0 then i - 1 else N);
      Some (s\<lparr>LFUFreq := fr, LFUNext := nx, LFUPrev := pv\<rparr>) })"
  let ?s = "s1\<lparr>LFUNext := (LFUNext s1)(N := N - 1), LFUPrev := (LFUPrev s1)(N := 0)\<rparr>"
  have "\<exists>s'. F i s = Some s' \<and> I (Suc i) s'" if "i < N" "I i s" for i s
    using that by (auto simp: F_def I_def less_Suc_eq)
  moreover have "I 0 ?s" using s1 by (simp add: I_def)
  ultimately obtain s' where s': "foldM F [0..<N] ?s = Some s'" "I N s'"
    using foldM_upto [of I ?s N F] by blast
  have "LFUInitialize N False s = Some s'"
    using s1(1) s'(1) sn by (simp add: LFUInitialize_def F_def LFU_MAX_FREQ_def)
  moreover have "lfu_rep N s' (\<lambda>f. if f = 1 then [0..<N] else [])"
  proof -
    have "queue (LFUNext s') (LFUPrev s') N [0..<N]" using s'(2) N by (intro queue_init) (auto simp: I_def)
    moreover have "queue (LFUNext s') (LFUPrev s') (LFU_SENTINEL N f) []" if "f \<in> freqs" "f \<noteq> 1" for f
    proof -
      have "N < LFU_SENTINEL N f" using that N by (auto simp: LFU_SENTINEL_def freqs_def)
      then show ?thesis using s1(2) [OF that(1)] s'(2) by (simp add: I_def queue_def)
    qed
    ultimately have "lfu_links N (LFUNext s') (LFUPrev s') (\<lambda>f. if f = 1 then [0..<N] else [])"
      using sn by (auto simp: lfu_links_def)
    moreover have "1 \<le> LFU_MAX_FREQ" by (simp add: LFU_MAX_FREQ_def)
    ultimately show ?thesis using s'(2) by (auto simp: lfu_rep_def I_def freqs_def)
  qed
  ultimately show ?thesis using that s'(2) by (simp add: I_def)
qed

section \<open>Searching under interference\<close>

lemma lfu_okD: "lfu_ok N s \<Longrightarrow> lfu_rep N s (lfu_bucket N s)"
  by (simp add: lfu_ok_def)

lemma lfu_rep_min_freq: "lfu_rep N s bs \<Longrightarrow> 1 \<le> m \<Longrightarrow> lfu_rep N (s\<lparr>min_freq := m\<rparr>) bs"
  by (simp add: lfu_rep_def)

lemma lfu_ok_min_freq: "lfu_ok N s \<Longrightarrow> 1 \<le> m \<Longrightarrow> lfu_ok N (s\<lparr>min_freq := m\<rparr>)"
  using lfu_rep_ok [OF lfu_rep_min_freq [OF lfu_okD]] .

lemma lfu_mem_min_freq [simp]: "lfu_mem N (s\<lparr>min_freq := m\<rparr>) = lfu_mem N s"
  by (simp add: lfu_mem_def)

lemma lfu_bucket_mem:
  assumes "lfu_ok N s" "f \<in> freqs" "c \<in> set (lfu_bucket N s f)"
  shows "c < N" "LFUFreq s c = f" "c \<in> lfu_mem N s"
proof -
  note r = lfu_okD [OF assms(1)]
  show c: "c < N" using lfu_linksD(2) [OF lfu_repD(1) [OF r] assms(2,3)] .
  show f: "LFUFreq s c = f" using lfu_repD(4) [OF r c assms(2)] assms(3) by simp
  show "c \<in> lfu_mem N s" using c f assms(2) by (auto simp: lfu_mem_def freqs_def)
qed

text \<open>Taking the victim: unlinked, frequency 0, and the hint set when its bucket became empty.\<close>

lemma LFU_take_claim:
  assumes pre: "search_pre N (lfu_ok N) E p" and f: "f \<in> freqs" and c: "c \<in> set (lfu_bucket N (pol p) f)"
    and free: "BUF_STATE_GET_REFCOUNT s = 0" "\<not> bit s 22" and s: "E t (hdr p) c = s"
  shows "\<exists>q. LFU_take N c f (p\<lparr>hdr := (E t (hdr p))(c := s + BUF_REFCOUNT_ONE)\<rparr>) = Some q \<and>
    victim_taken N (lfu_ok N) (lfu_mem N) p q (c, s + BUF_REFCOUNT_ONE) \<and>
    hdr q = (E t (hdr p))(c := s + BUF_REFCOUNT_ONE) \<and> ctl q = ctl p \<and>
    lfu_rep N (pol q) (lfu_move c 0 (lfu_bucket N (pol p))) \<and>
    min_freq (pol q) = (if remove1 c (lfu_bucket N (pol p) f) = [] then f else min_freq (pol p))"
proof -
  have ok: "lfu_ok N (pol p)" using pre by (simp add: search_pre_def)
  note r = lfu_okD [OF ok] and m = lfu_bucket_mem [OF ok f c]
  have nz: "LFUFreq (pol p) c \<noteq> 0" using m(2) f by (auto simp: freqs_def)
  obtain s1 where s1: "LFUBucketUnlink N c (pol p) = Some s1"
    "lfu_links N (LFUNext s1) (LFUPrev s1) (\<lambda>g. remove1 c (lfu_bucket N (pol p) g))"
    "LFUFreq s1 = LFUFreq (pol p)" "min_freq s1 = min_freq (pol p)"
    using lfu_detach [OF r m(1) nz] by blast
  let ?e = "remove1 c (lfu_bucket N (pol p) f) = []"
  define s2 where "s2 = s1\<lparr>LFUFreq := (LFUFreq s1)(c := 0)\<rparr>"
  define s3 where "s3 = (if ?e then s2\<lparr>min_freq := f\<rparr> else s2)"
  have f1: "1 \<le> f" using f by (simp add: freqs_def)
  have "lfu_rep N s2 (lfu_move c 0 (lfu_bucket N (pol p)))"
    using lfu_repD(2) [OF r] s1 by (intro lfu_rep_freq [OF r m(1)]) (simp_all add: s2_def lfu_move_0)
  then have r3: "lfu_rep N s3 (lfu_move c 0 (lfu_bucket N (pol p)))"
    using lfu_rep_min_freq [OF _ f1] by (simp add: s3_def)
  have e: "LFU_BUCKET_EMPTY N f s2 = Some ?e"
    using LFU_BUCKET_EMPTY_links [of N s2 "\<lambda>g. remove1 c (lfu_bucket N (pol p) g)" f] s1(2) f by (simp add: s2_def)
  have mem: "lfu_mem N s3 = lfu_mem N (pol p) - {c}"
    using s1(3) by (auto simp: s3_def s2_def lfu_mem_def)
  obtain q where q: "claim_victim c (p\<lparr>hdr := (E t (hdr p))(c := s + BUF_REFCOUNT_ONE), pol := s3\<rparr>) = Some q"
    "victim_taken N (lfu_ok N) (lfu_mem N) p q (c, s + BUF_REFCOUNT_ONE)"
    "hdr q = (E t (hdr p))(c := s + BUF_REFCOUNT_ONE)" "pol q = s3" "ctl q = ctl p"
    by (rule claim_search [where mem = "lfu_mem N", OF pre m(1,3) free s lfu_rep_ok [OF r3]]) (auto simp: mem that)
  have "LFU_take N c f (p\<lparr>hdr := (E t (hdr p))(c := s + BUF_REFCOUNT_ONE)\<rparr>) = Some q"
    using s1(1) m(1) e q(1) by (cases ?e) (simp_all add: LFU_take_def s2_def s3_def)
  moreover have "min_freq s3 = (if ?e then f else min_freq (pol p))" using s1(4) by (simp add: s3_def s2_def)
  ultimately show ?thesis using q r3 by auto
qed

definition lfu_scan_ok :: "nat \<Rightarrow> LFUState pool \<Rightarrow> (nat \<times> LFUState pool, lfu_scan) run \<Rightarrow> bool" where
  "lfu_scan_ok N p R \<longleftrightarrow>
     (case R of
        Done (t', q) (LfuTaken v) \<Rightarrow> victim_taken N (lfu_ok N) (lfu_mem N) p q v
      | Done (t', q) _ \<Rightarrow> searching (lfu_ok N) (lfu_mem N) p q
      | Raise (t', q) e \<Rightarrow> False
      | Spin (t', q) \<Rightarrow> searching (lfu_ok N) (lfu_mem N) p q
      | Crash \<Rightarrow> False)"

lemma lfu_scan_ok_step:
  assumes "searching (lfu_ok N) (lfu_mem N) p q" "lfu_scan_ok N q R"
  shows "lfu_scan_ok N p R"
  using assms
  by (auto simp: lfu_scan_ok_def victim_taken_def searching_def claimed_def
      split: run.splits prod.splits lfu_scan.splits option.splits)

lemma lfu_next_candidate:
  assumes "lfu_ok N s" "f \<in> freqs" "c \<in> set (lfu_bucket N s f)"
  shows "LFUNext s c \<in> insert (LFU_SENTINEL N f) (set (lfu_bucket N s f))"
  using queue_next_mem [OF lfu_linksD(1) [OF lfu_repD(1) [OF lfu_okD [OF assms(1)]] assms(2)], of c] assms(3) by blast

lemma LFUGetBuffer_bucket_ok:
  assumes "search_pre N (lfu_ok N) E p" "f \<in> freqs" "c \<in> insert (LFU_SENTINEL N f) (set (lfu_bucket N (pol p) f))"
  shows "lfu_scan_ok N p (LFUGetBuffer_bucket fuel N E t p f c)"
  using assms(1,3)
proof (induction fuel arbitrary: t p c)
  case 0
  then show ?case by (simp add: lfu_scan_ok_def searching_refl)
next
  case (Suc fuel)
  let ?st = "E t (hdr p)"
  note pre = Suc.prems(1)
  have ok: "lfu_ok N (pol p)" using pre by (simp add: search_pre_def)
  have own: "own_pins ?st (me p)" using pre by (rule search_pre_own_pins)
  have go: "searching (lfu_ok N) (lfu_mem N) p (p\<lparr>hdr := ?st\<rparr>)" using pre own by (rule searching_hdr)
  have own2: "own_pins (E (Suc t) ?st) (me p)"
    using search_pre_own_pins [OF searching_pre [OF pre go], of "Suc t"] by simp
  show ?case
  proof (cases "c = LFU_SENTINEL N f")
    case True
    with pre show ?thesis by (simp add: lfu_scan_ok_def searching_refl)
  next
    case False
    then have c: "c \<in> set (lfu_bucket N (pol p) f)" using Suc.prems(2) by simp
    note m = lfu_bucket_mem [OF ok assms(2) c]
    have skip: "lfu_scan_ok N p (LFUGetBuffer_bucket fuel N E (Suc t) (p\<lparr>hdr := ?st\<rparr>) f (LFUNext (pol p) c))"
      by (rule lfu_scan_ok_step [OF go Suc.IH [OF searching_pre [OF pre go]]])
        (use lfu_next_candidate [OF ok assms(2) c] in simp)
    show ?thesis
    proof (cases "bit (?st c) 22 \<or> BUF_STATE_GET_REFCOUNT (?st c) \<noteq> 0")
      case True
      with False m(1) skip show ?thesis by (simp add: Let_def not_le)
    next
      case free: False
      let ?p = "p\<lparr>hdr := ?st\<rparr>"
      show ?thesis
      proof (cases "E (Suc t) ?st c = ?st c")
        case True
        then have "E (Suc t) (hdr ?p) c = ?st c" by simp
        from LFU_take_claim [OF searching_pre [OF pre go] assms(2) _ _ _ this] c free
        obtain q where q: "LFU_take N c f (p\<lparr>hdr := (E (Suc t) ?st)(c := ?st c + BUF_REFCOUNT_ONE)\<rparr>) = Some q"
          "victim_taken N (lfu_ok N) (lfu_mem N) ?p q (c, ?st c + BUF_REFCOUNT_ONE)" by auto
        then have "lfu_scan_ok N ?p (Done (Suc (Suc t), q) (LfuTaken (c, ?st c + BUF_REFCOUNT_ONE)))"
          by (simp add: lfu_scan_ok_def)
        from lfu_scan_ok_step [OF go this] show ?thesis
          using q m(1) False free True by (simp add: Let_def not_le pg_atomic_compare_exchange_u64_def)
      next
        case neq: False
        with m(1) False free searching_hdr [OF pre own2] show ?thesis
          by (simp add: Let_def not_le pg_atomic_compare_exchange_u64_def lfu_scan_ok_def)
      qed
    qed
  qed
qed

lemma lfu_tail_candidate:
  assumes "lfu_ok N s" "f \<in> freqs"
  shows "LFUPrev s (LFU_SENTINEL N f) \<in> insert (LFU_SENTINEL N f) (set (lfu_bucket N s f))"
  using queue_tail [OF lfu_linksD(1) [OF lfu_repD(1) [OF lfu_okD [OF assms(1)]] assms(2)]] by auto

lemma LFUGetBuffer_for_ok:
  assumes "search_pre N (lfu_ok N) E p" "set fs \<subseteq> freqs"
  shows "lfu_scan_ok N p (LFUGetBuffer_for fs fuel N E t p)"
  using assms
proof (induction fs arbitrary: t p)
  case Nil
  then show ?case by (simp add: lfu_scan_ok_def searching_refl)
next
  case (Cons f fs)
  note pre = Cons.prems(1)
  have f: "f \<in> freqs" and fs: "set fs \<subseteq> freqs" using Cons.prems(2) by auto
  have ok: "lfu_ok N (pol p)" using pre by (simp add: search_pre_def)
  let ?B = "LFUGetBuffer_bucket fuel N E t p f (LFUPrev (pol p) (LFU_SENTINEL N f))"
  have B: "lfu_scan_ok N p ?B" by (rule LFUGetBuffer_bucket_ok [OF pre f lfu_tail_candidate [OF ok f]])
  have exhausted: "lfu_scan_ok N p (case LFU_BUCKET_EMPTY N f (pol q) of None \<Rightarrow> Crash
      | Some e \<Rightarrow> LFUGetBuffer_for fs fuel N E t' (if e then q\<lparr>pol := (pol q)\<lparr>min_freq := f + 1\<rparr>\<rparr> else q))"
    if "?B = Done (t', q) LfuExhausted" for t' q
  proof -
    have go: "searching (lfu_ok N) (lfu_mem N) p q" using B that by (simp add: lfu_scan_ok_def)
    have okq: "lfu_ok N (pol q)" using go by (simp add: searching_def)
    let ?q = "q\<lparr>pol := (pol q)\<lparr>min_freq := f + 1\<rparr>\<rparr>"
    have go': "searching (lfu_ok N) (lfu_mem N) p ?q"
      using go lfu_ok_min_freq [OF okq, of "f + 1"] by (simp add: searching_def)
    from Cons.IH [OF searching_pre [OF pre go] fs] Cons.IH [OF searching_pre [OF pre go'] fs]
    show ?thesis
      using LFU_BUCKET_EMPTY_links [OF lfu_repD(1) [OF lfu_okD [OF okq]] f] lfu_scan_ok_step go go' by auto
  qed
  have "LFU_SENTINEL N f < N + LFU_MAX_FREQ" using LFU_SENTINEL_facts(2) [OF f] .
  with B exhausted show ?case
    by (auto simp: lfu_scan_ok_def [of _ _ "Done _ _"] lfu_scan_ok_def [of _ _ "Spin _"] lfu_scan_ok_def [of _ _ "Raise _ _"]
        split: run.splits lfu_scan.splits)
qed

lemma LFUGetBuffer_loop_ok:
  assumes "search_pre N (lfu_ok N) E p"
  shows "victim_ok N (lfu_ok N) (lfu_mem N) p (LFUGetBuffer_loop fuel N E t p)"
  using assms
proof (induction fuel arbitrary: t p)
  case 0
  then show ?case by (auto intro: victim_ok_Spin searching_refl)
next
  case (Suc fuel)
  note pre = Suc.prems
  let ?F = "LFUGetBuffer_for [min_freq (pol p)..<LFU_MAX_FREQ + 1] fuel N E t p"
  have "1 \<le> min_freq (pol p)" using pre lfu_repD(2) [OF lfu_okD] by (auto simp: search_pre_def)
  then have "set [min_freq (pol p)..<LFU_MAX_FREQ + 1] \<subseteq> freqs" by (auto simp: freqs_def)
  from LFUGetBuffer_for_ok [OF pre this] have F: "lfu_scan_ok N p ?F" .
  have retry: "victim_ok N (lfu_ok N) (lfu_mem N) p (LFUGetBuffer_loop fuel N E t' q)"
    if "?F = Done (t', q) LfuRetry" for t' q
    using victim_ok_continue [OF pre _ Suc.IH] F that by (auto simp: lfu_scan_ok_def)
  show ?case
  proof (cases ?F)
    case (Done s r)
    with F retry show ?thesis
      by (cases s; cases r) (auto simp: lfu_scan_ok_def victim_ok_def [of _ _ _ _ "Done _ _"] intro: victim_ok_Raise)
  next
    case (Spin s)
    with F show ?thesis by (cases s) (auto simp: lfu_scan_ok_def intro: victim_ok_Spin)
  qed (use F in \<open>auto simp: lfu_scan_ok_def\<close>)
qed

section \<open>The victim of an undisturbed search\<close>

abbreviation takeable :: "states \<Rightarrow> nat \<Rightarrow> bool" where
  "takeable st b \<equiv> st b AND BM_LOCKED = 0 \<and> unpinned st b"

definition lfu_taken :: "nat \<Rightarrow> LFUState pool \<Rightarrow> nat \<Rightarrow> LFUState pool \<Rightarrow> bool" where
  "lfu_taken N p v q \<longleftrightarrow> hdr q = pin_state v (hdr p) \<and> lfu_ok N (pol q) \<and>
     (\<forall>f \<in> freqs. lfu_bucket N (pol q) f = remove1 v (lfu_bucket N (pol p) f))"

lemma LFU_take_quiet:
  assumes pre: "search_pre N (lfu_ok N) quiet p" and f: "f \<in> freqs" and c: "c \<in> set (lfu_bucket N (pol p) f)"
    and free: "takeable (hdr p) c"
  shows "\<exists>q. LFU_take N c f (p\<lparr>hdr := pin_state c (hdr p)\<rparr>) = Some q \<and> lfu_taken N p c q"
proof -
  obtain q where q: "LFU_take N c f (p\<lparr>hdr := (hdr p)(c := hdr p c + BUF_REFCOUNT_ONE)\<rparr>) = Some q"
    "hdr q = (hdr p)(c := hdr p c + BUF_REFCOUNT_ONE)" "lfu_rep N (pol q) (lfu_move c 0 (lfu_bucket N (pol p)))"
    using LFU_take_claim [OF pre f c, of "hdr p c" 0] free by (auto simp: quiet_def)
  have "lfu_bucket N (pol q) g = remove1 c (lfu_bucket N (pol p) g)" if "g \<in> freqs" for g
    using lfu_rep_bucket [OF q(3) that] that by (auto simp: lfu_move_def lfu_add_def freqs_def)
  with q lfu_rep_ok [OF q(3)] show ?thesis by (auto simp: lfu_taken_def pin_state_def)
qed

lemma LFU_bucket_search:
  assumes pre: "search_pre N (lfu_ok N) quiet p" and f: "f \<in> freqs"
    and "lfu_bucket N (pol p) f = as @ cs" "length cs < fuel"
  shows "case find (takeable (hdr p)) cs of
      None \<Rightarrow> \<exists>t'. LFUGetBuffer_bucket fuel N quiet t p f (hd (cs @ [LFU_SENTINEL N f])) = Done (t', p) LfuExhausted
    | Some v \<Rightarrow> \<exists>t' q. LFUGetBuffer_bucket fuel N quiet t p f (hd (cs @ [LFU_SENTINEL N f])) =
        Done (t', q) (LfuTaken (v, hdr p v + BUF_REFCOUNT_ONE)) \<and> lfu_taken N p v q"
  using assms(3,4)
proof (induction cs arbitrary: as fuel t)
  case Nil
  then show ?case by (cases fuel) auto
next
  case (Cons c cs)
  have ok: "lfu_ok N (pol p)" using pre by (simp add: search_pre_def)
  obtain n where n: "fuel = Suc n" "length cs < n" using Cons.prems(2) by (cases fuel) auto
  have c: "c \<in> set (lfu_bucket N (pol p) f)" using Cons.prems(1) by simp
  note m = lfu_bucket_mem [OF ok f c] and q = lfu_linksD(1) [OF lfu_repD(1) [OF lfu_okD [OF ok]] f]
  have sn: "c \<noteq> LFU_SENTINEL N f" using LFU_SENTINEL_facts(1) [OF f, of N] m(1) by auto
  have nx: "LFUNext (pol p) c = hd (cs @ [LFU_SENTINEL N f])"
    using queue_neighbours(1) [OF q [unfolded Cons.prems(1)]] .
  show ?case
  proof (cases "takeable (hdr p) c")
    case False
    then have "LFUGetBuffer_bucket fuel N quiet t p f c =
        LFUGetBuffer_bucket n N quiet (Suc t) p f (hd (cs @ [LFU_SENTINEL N f]))"
      using m(1) sn nx n(1) by (simp add: quiet_def Let_def not_le)
    moreover have "lfu_bucket N (pol p) f = (as @ [c]) @ cs" using Cons.prems(1) by simp
    from Cons.IH [OF this n(2), of "Suc t"] False calculation show ?thesis by (auto split: option.splits)
  next
    case True
    then obtain q where "LFU_take N c f (p\<lparr>hdr := pin_state c (hdr p)\<rparr>) = Some q" "lfu_taken N p c q"
      using LFU_take_quiet [OF pre f c] by blast
    with True m(1) sn n(1) show ?thesis
      by (simp add: quiet_def Let_def not_le pg_atomic_compare_exchange_u64_def pin_state_def)
  qed
qed

text \<open>What a failing search leaves in \<open>min_freq\<close>: one past the last empty bucket it saw.\<close>

fun lfu_hint :: "nat \<Rightarrow> LFUState \<Rightarrow> nat list \<Rightarrow> nat" where
  "lfu_hint N s [] = min_freq s"
| "lfu_hint N s (f # fs) =
     lfu_hint N (if lfu_bucket N s f = [] then s\<lparr>min_freq := f + 1\<rparr> else s) fs"

lemma lfu_bucket_min_freq [simp]: "lfu_bucket N (s\<lparr>min_freq := m\<rparr>) f = lfu_bucket N s f"
  by (simp add: lfu_bucket_def)

lemma LFU_for_search:
  assumes "search_pre N (lfu_ok N) quiet p" "set fs \<subseteq> freqs" "N < fuel"
  shows "case find (takeable (hdr p)) (concat (map (lfu_bucket N (pol p)) fs)) of
      None \<Rightarrow> \<exists>t'. LFUGetBuffer_for fs fuel N quiet t p =
        Done (t', p\<lparr>pol := (pol p)\<lparr>min_freq := lfu_hint N (pol p) fs\<rparr>\<rparr>) LfuExhausted
    | Some v \<Rightarrow> \<exists>t' q. LFUGetBuffer_for fs fuel N quiet t p =
        Done (t', q) (LfuTaken (v, hdr p v + BUF_REFCOUNT_ONE)) \<and> lfu_taken N p v q"
  using assms
proof (induction fs arbitrary: t p)
  case Nil
  then show ?case by simp
next
  case (Cons f fs)
  note pre = Cons.prems(1)
  have f: "f \<in> freqs" and fs: "set fs \<subseteq> freqs" using Cons.prems(2) by auto
  have ok: "lfu_ok N (pol p)" using pre by (simp add: search_pre_def)
  note l = lfu_repD(1) [OF lfu_okD [OF ok]]
  have len: "length (lfu_bucket N (pol p) f) < fuel" using lfu_links_length [OF l f] Cons.prems(3) by simp
  have tail: "LFUPrev (pol p) (LFU_SENTINEL N f) = hd (lfu_bucket N (pol p) f @ [LFU_SENTINEL N f])"
    using lfu_linksD(1) [OF l f] by (simp add: queue_def)
  note B = LFU_bucket_search [OF pre f append_Nil [symmetric] len, of t]
  let ?e = "lfu_bucket N (pol p) f = []"
  let ?q = "if ?e then p\<lparr>pol := (pol p)\<lparr>min_freq := f + 1\<rparr>\<rparr> else p"
  have q: "hdr ?q = hdr p" "lfu_bucket N (pol ?q) = lfu_bucket N (pol p)" "lfu_taken N ?q v r = lfu_taken N p v r"
    "?q\<lparr>pol := (pol ?q)\<lparr>min_freq := lfu_hint N (pol ?q) fs\<rparr>\<rparr> =
      p\<lparr>pol := (pol p)\<lparr>min_freq := lfu_hint N (pol p) (f # fs)\<rparr>\<rparr>" for v r
    by (auto simp: lfu_taken_def fun_eq_iff)
  have "search_pre N (lfu_ok N) quiet ?q" using pre lfu_ok_min_freq [OF ok] by (simp add: search_pre_def pool_ok_def)
  note IH = Cons.IH [OF this fs Cons.prems(3)]
  note rules = LFU_SENTINEL_facts(2) [OF f] tail LFU_BUCKET_EMPTY_links [OF l f]
  show ?case
  proof (cases "find (takeable (hdr p)) (lfu_bucket N (pol p) f)")
    case (Some v)
    with B show ?thesis by (auto simp: rules find_append)
  next
    case None
    then obtain t' where t': "LFUGetBuffer_bucket fuel N quiet t p f
        (hd (lfu_bucket N (pol p) f @ [LFU_SENTINEL N f])) = Done (t', p) LfuExhausted" using B by auto
    have step: "LFUGetBuffer_for (f # fs) fuel N quiet t p = LFUGetBuffer_for fs fuel N quiet t' ?q"
      using t' by (simp add: rules)
    have rest: "find (takeable (hdr p)) (concat (map (lfu_bucket N (pol p)) (f # fs))) =
        find (takeable (hdr p)) (concat (map (lfu_bucket N (pol p)) fs))"
      using None by (simp add: find_append)
    show ?thesis unfolding rest step using IH [of t', unfolded q] .
  qed
qed

section \<open>Properties\<close>

text \<open>The shared memory of the policy right after startup, with \<open>n\<close> buffers.\<close>

definition lfu_started :: "nat \<Rightarrow> LFUState" where
  "lfu_started n =
     the (LFUInitialize n False
       \<lparr>min_freq = 0, lfu_bgw_sync_seq = 0, LFUFreq = (\<lambda>_. 0), LFUNext = (\<lambda>_. 0), LFUPrev = (\<lambda>_. 0)\<rparr>)"

lemma lfu_started_ok:
  assumes "0 < n"
  shows "lfu_ok n (lfu_started n)" "f \<in> freqs \<Longrightarrow> lfu_bucket n (lfu_started n) f = (if f = 1 then [0..<n] else [])"
    "min_freq (lfu_started n) = 1" "lfu_mem n (lfu_started n) = {..<n}"
proof -
  obtain s where s: "LFUInitialize n False
       \<lparr>min_freq = 0, lfu_bgw_sync_seq = 0, LFUFreq = (\<lambda>_. 0), LFUNext = (\<lambda>_. 0), LFUPrev = (\<lambda>_. 0)\<rparr> = Some s"
    "lfu_rep n s (\<lambda>f. if f = 1 then [0..<n] else [])" "min_freq s = 1" "\<And>b. b < n \<Longrightarrow> LFUFreq s b = 1"
    using LFUInitialize_rep [OF assms] by blast
  then have eq: "lfu_started n = s" by (simp add: lfu_started_def)
  show "lfu_ok n (lfu_started n)" "min_freq (lfu_started n) = 1" using s lfu_rep_ok by (auto simp: eq)
  show "f \<in> freqs \<Longrightarrow> lfu_bucket n (lfu_started n) f = (if f = 1 then [0..<n] else [])"
    using lfu_rep_bucket [OF s(2)] by (simp add: eq)
  show "lfu_mem n (lfu_started n) = {..<n}" using s(4) by (auto simp: eq lfu_mem_def)
qed

text \<open>
  C22: \<open>LFUInitialize\<close> on fresh shared memory links all buffers in index order at frequency
  1, and the three hooks are the operations of LFU on the family of lists: a hit moves a
  linked buffer to the most recently used end of the next higher frequency (saturating at
  \<open>LFU_MAX_FREQ\<close>), an insert moves a buffer there at frequency 1, an invalidation unlinks it.
  None of them leaves the arrays, although the frequency lists share them.
\<close>

theorem LFU_hooks_refine:
  assumes "lfu_ok N s" "b < N"
  shows "(\<exists>s'. LFUNotifyInsert N b s = Some s' \<and> lfu_ok N s' \<and> min_freq s' = 1 \<and>
      (\<forall>f \<in> freqs. lfu_bucket N s' f = lfu_move b 1 (lfu_bucket N s) f)) \<and>
    (\<exists>s'. LFUNotifyInvalidate N b s = Some s' \<and> lfu_ok N s' \<and> lfu_mem N s' = lfu_mem N s - {b} \<and>
      (\<forall>f \<in> freqs. lfu_bucket N s' f = remove1 b (lfu_bucket N s f))) \<and>
    (LFUFreq s b \<noteq> 0 \<longrightarrow> (\<exists>s'. LFUNotifyHit N b s = Some s' \<and> lfu_ok N s' \<and>
      (\<forall>f \<in> freqs. lfu_bucket N s' f = lfu_move b (min (LFUFreq s b + 1) LFU_MAX_FREQ) (lfu_bucket N s) f))) \<and>
    (LFUFreq s b = 0 \<longrightarrow> LFUNotifyHit N b s = Some s) \<and>
    (\<exists>s'. LFUInitialize N False s = Some s' \<and> lfu_ok N s' \<and> min_freq s' = 1 \<and>
      (\<forall>f \<in> freqs. lfu_bucket N s' f = (if f = 1 then [0..<N] else [])))"
proof -
  note r = lfu_okD [OF assms(1)]
  have N: "0 < N" using assms(2) by simp
  obtain s1 where s1: "LFUNotifyInsert N b s = Some s1" "lfu_rep N s1 (lfu_move b 1 (lfu_bucket N s))" "min_freq s1 = 1"
    using LFUNotifyInsert_rep [OF r assms(2)] by blast
  obtain s2 where s2: "LFUNotifyInvalidate N b s = Some s2" "lfu_rep N s2 (lfu_move b 0 (lfu_bucket N s))"
    "LFUFreq s2 = (LFUFreq s)(b := 0)"
    using LFUNotifyInvalidate_rep [OF r assms(2)] by blast
  have s3: "\<exists>s'. LFUNotifyHit N b s = Some s' \<and>
      lfu_rep N s' (lfu_move b (min (LFUFreq s b + 1) LFU_MAX_FREQ) (lfu_bucket N s))" if "LFUFreq s b \<noteq> 0"
  proof -
    have eq: "min (LFUFreq s b + 1) LFU_MAX_FREQ = (if LFUFreq s b < LFU_MAX_FREQ then LFUFreq s b + 1 else LFU_MAX_FREQ)"
      by auto
    show ?thesis unfolding eq using LFUNotifyHit_rep [OF r assms(2) that] by blast
  qed
  obtain s4 where s4: "LFUInitialize N False s = Some s4" "lfu_rep N s4 (\<lambda>f. if f = 1 then [0..<N] else [])" "min_freq s4 = 1"
    using LFUInitialize_rep [OF N] by blast
  have "lfu_mem N s2 = lfu_mem N s - {b}" using s2(3) by (auto simp: lfu_mem_def)
  moreover have "lfu_bucket N s2 f = remove1 b (lfu_bucket N s f)" if "f \<in> freqs" for f
    using lfu_rep_bucket [OF s2(2) that] that by (auto simp: lfu_move_def lfu_add_def freqs_def)
  moreover have "LFUFreq s b = 0 \<Longrightarrow> LFUNotifyHit N b s = Some s" using assms(2) by (simp add: LFUNotifyHit_def)
  ultimately show ?thesis
    using s1 lfu_rep_ok [OF s1(2)] lfu_rep_bucket [OF s1(2)] s2(1) lfu_rep_ok [OF s2(2)]
      s3 s4 lfu_rep_ok [OF s4(2)] lfu_rep_bucket [OF s4(2)] lfu_rep_ok lfu_rep_bucket
    by (intro conjI impI; (elim exE conjE)?; metis)
qed

theorem LFU_hooks_refine_witness:
  "\<exists>s'. LFUNotifyHit 3 1 (lfu_started 3) = Some s' \<and> lfu_bucket 3 s' 1 = [0, 2] \<and> lfu_bucket 3 s' 2 = [1]"
proof -
  note r = lfu_started_ok [of 3]
  have f: "1 \<in> freqs" "2 \<in> freqs" by (auto simp: freqs_def LFU_MAX_FREQ_def)
  have "LFUFreq (lfu_started 3) 1 = 1"
    using lfu_repD(4) [OF lfu_okD [OF r(1)], of 1 1] r(2) [OF _ f(1)] f(1) by simp
  then show ?thesis
    using LFU_hooks_refine [of 3 "lfu_started 3" 1] r f
    by (auto simp: lfu_move_def lfu_add_def LFU_MAX_FREQ_def upt_small)
qed



lemma LFUGetBuffer_ends:
  assumes pre: "search_pre N (lfu_ok N) quiet p" and fuel: "N + 1 < fuel"
  shows "case find (takeable (hdr p)) (concat (map (lfu_bucket N (pol p)) [min_freq (pol p)..<LFU_MAX_FREQ + 1])) of
      Some v \<Rightarrow> \<exists>t' q. LFUGetBuffer N fuel quiet t p = Done (t', q) (v, hdr p v + BUF_REFCOUNT_ONE) \<and>
        lfu_taken N p v q
    | None \<Rightarrow> \<exists>t'. LFUGetBuffer N fuel quiet t p =
        Raise (t', p\<lparr>pol := (pol p)\<lparr>min_freq := lfu_hint N (pol p) [min_freq (pol p)..<LFU_MAX_FREQ + 1]\<rparr>\<rparr>)
          NoUnpinnedBuffersAvailable"
proof -
  obtain n where n: "fuel = Suc n" "N < n" using fuel by (cases fuel) auto
  have "1 \<le> min_freq (pol p)" using pre lfu_repD(2) [OF lfu_okD] by (auto simp: search_pre_def)
  then have "set [min_freq (pol p)..<LFU_MAX_FREQ + 1] \<subseteq> freqs" by (auto simp: freqs_def)
  from LFU_for_search [OF pre this n(2), of t] show ?thesis
    by (auto simp: LFUGetBuffer_def n(1) simp del: upt_Suc split: option.splits)
qed



lemma lfu_hint_snoc:
  "lfu_hint N s (fs @ [f]) = (if lfu_bucket N s f = [] then f + 1 else lfu_hint N s fs)"
  by (induction fs arbitrary: s) auto

text \<open>
  C19: one failing search can disable the policy. If every buffer in the lists is pinned or
  locked and no buffer has reached frequency \<open>LFU_MAX_FREQ\<close>, \<open>LFUGetBuffer\<close> fails, as it
  should, but leaves \<open>min_freq\<close> past the last bucket although the buffers are still linked:
  from then on it fails at once, whatever the header words are, in particular after all
  buffers have been unpinned. So \<open>min_freq\<close> is not the lower bound its comment promises.
\<close>

theorem LFU_exhausted_forever:
  assumes pre: "search_pre N (lfu_ok N) quiet p" and fuel: "N + 1 < fuel"
    and busy: "\<forall>b \<in> lfu_mem N (pol p). \<not> takeable (hdr p) b"
    and top: "lfu_bucket N (pol p) LFU_MAX_FREQ = []" and m: "min_freq (pol p) \<le> LFU_MAX_FREQ"
  shows "\<exists>t' q. LFUGetBuffer N fuel quiet t p = Raise (t', q) NoUnpinnedBuffersAvailable \<and>
    lfu_mem N (pol q) = lfu_mem N (pol p) \<and>
    (\<forall>n E t2 st. LFUGetBuffer N (Suc n) E t2 (q\<lparr>hdr := st\<rparr>) =
       Raise (t2, q\<lparr>hdr := st\<rparr>) NoUnpinnedBuffersAvailable)"
proof -
  have ok: "lfu_ok N (pol p)" using pre by (simp add: search_pre_def)
  let ?fs = "[min_freq (pol p)..<LFU_MAX_FREQ + 1]"
  have ge: "1 \<le> min_freq (pol p)" using lfu_repD(2) [OF lfu_okD [OF ok]] .
  have "find (takeable (hdr p)) (concat (map (lfu_bucket N (pol p)) ?fs)) = None"
  proof -
    have "\<not> takeable (hdr p) b" if "f \<in> set ?fs" "b \<in> set (lfu_bucket N (pol p) f)" for f b
    proof -
      have "f \<in> freqs" using that(1) ge by (auto simp: freqs_def)
      from lfu_bucket_mem(3) [OF ok this that(2)] busy show ?thesis by blast
    qed
    then show ?thesis unfolding find_None_iff set_concat set_map by blast
  qed
  moreover have "?fs = [min_freq (pol p)..<LFU_MAX_FREQ] @ [LFU_MAX_FREQ]" using m by simp
  then have "lfu_hint N (pol p) ?fs = LFU_MAX_FREQ + 1" using top by (simp add: lfu_hint_snoc)
  ultimately obtain t' where t': "LFUGetBuffer N fuel quiet t p =
      Raise (t', p\<lparr>pol := (pol p)\<lparr>min_freq := LFU_MAX_FREQ + 1\<rparr>\<rparr>) NoUnpinnedBuffersAvailable"
    using LFUGetBuffer_ends [OF pre fuel, of t] by auto
  have "LFUGetBuffer N (Suc n) E t2 (p\<lparr>pol := (pol p)\<lparr>min_freq := LFU_MAX_FREQ + 1\<rparr>, hdr := st\<rparr>) =
      Raise (t2, p\<lparr>pol := (pol p)\<lparr>min_freq := LFU_MAX_FREQ + 1\<rparr>, hdr := st\<rparr>) NoUnpinnedBuffersAvailable"
    for n E t2 st by (simp add: LFUGetBuffer_def)
  with t' show ?thesis by auto
qed

theorem LFU_exhausted_forever_witness:
  "\<exists>t' q. LFUGetBuffer 2 4 quiet 0 (fresh_pool (\<lambda>_. 1) (lfu_started 2)) = Raise (t', q) NoUnpinnedBuffersAvailable \<and>
     lfu_mem 2 (pol q) = {..<2} \<and>
     LFUGetBuffer 2 100 quiet 0 (q\<lparr>hdr := \<lambda>_. 0\<rparr>) = Raise (0, q\<lparr>hdr := \<lambda>_. 0\<rparr>) NoUnpinnedBuffersAvailable"
proof -
  note r = lfu_started_ok [of 2]
  let ?p = "fresh_pool (\<lambda>_. 1) (lfu_started 2)"
  have pre: "search_pre 2 (lfu_ok 2) quiet ?p" by (rule fresh_search_pre) (simp add: r)
  have "LFU_MAX_FREQ \<in> freqs" by (simp add: freqs_def LFU_MAX_FREQ_def)
  then have "lfu_bucket 2 (pol ?p) LFU_MAX_FREQ = []" using r(2) [of LFU_MAX_FREQ] by (simp add: LFU_MAX_FREQ_def)
  moreover have "\<forall>b \<in> lfu_mem 2 (pol ?p). \<not> takeable (hdr ?p) b"
    by (simp add: BUF_STATE_GET_REFCOUNT_def layout_defs)
  moreover have "min_freq (pol ?p) \<le> LFU_MAX_FREQ" using r(3) by (simp add: LFU_MAX_FREQ_def)
  ultimately obtain t' q where "LFUGetBuffer 2 4 quiet 0 ?p = Raise (t', q) NoUnpinnedBuffersAvailable"
    "lfu_mem 2 (pol q) = lfu_mem 2 (pol ?p)"
    "\<forall>n E t2 st. LFUGetBuffer 2 (Suc n) E t2 (q\<lparr>hdr := st\<rparr>) = Raise (t2, q\<lparr>hdr := st\<rparr>) NoUnpinnedBuffersAvailable"
    using LFU_exhausted_forever [OF pre, of 4 0] by auto
  moreover have "LFUGetBuffer 2 100 quiet 0 (q\<lparr>hdr := \<lambda>_. 0\<rparr>) = Raise (0, q\<lparr>hdr := \<lambda>_. 0\<rparr>) NoUnpinnedBuffersAvailable"
  proof -
    have "LFUGetBuffer 2 (Suc 99) quiet 0 (q\<lparr>hdr := \<lambda>_. 0\<rparr>) = Raise (0, q\<lparr>hdr := \<lambda>_. 0\<rparr>) NoUnpinnedBuffersAvailable"
      using calculation(3) by blast
    then show ?thesis by simp
  qed
  ultimately show ?thesis using r(4) by auto
qed

end
