(* ===== verification/Hashfn.thy ===== *)
theory Hashfn
  imports Prelude
begin

unbundle bit_operations_syntax

text \<open>
  The hash functions of \<^verbatim>\<open>src/common/hashfn.c\<close> that the shared buffer table uses: the two
  mixing steps, \<open>hash_bytes\<close> and its 64-bit and single-word variants. A key is a list of
  bytes. \<open>be\<close> stands for WORDS_BIGENDIAN and \<open>aligned\<close> for the test of the key's address, so
  the model has all four code paths; they are shown to compute the same function for each byte
  order, and the variants to agree where their comments say so.
\<close>

type_synonym uint8 = "8 word"
type_synonym abc = "uint32 \<times> uint32 \<times> uint32"

section \<open>Mixing\<close>

definition rot :: "uint32 \<Rightarrow> nat \<Rightarrow> uint32" where
  "rot x k = (push_bit k x) OR (drop_bit (32 - k) x)"

fun mix :: "abc \<Rightarrow> abc" where
  "mix (a, b, c) =
     (let a = a - c; a = a XOR rot c 4; c = c + b;
          b = b - a; b = b XOR rot a 6; a = a + c;
          c = c - b; c = c XOR rot b 8; b = b + a;
          a = a - c; a = a XOR rot c 16; c = c + b;
          b = b - a; b = b XOR rot a 19; a = a + c;
          c = c - b; c = c XOR rot b 4; b = b + a
      in (a, b, c))"

fun final_mix :: "abc \<Rightarrow> abc" where
  "final_mix (a, b, c) =
     (let c = c XOR b; c = c - rot b 14;
          a = a XOR c; a = a - rot c 11;
          b = b XOR a; b = b - rot a 25;
          c = c XOR b; c = c - rot b 16;
          a = a XOR c; a = a - rot c 4;
          b = b XOR a; b = b - rot a 14;
          c = c XOR b; c = c - rot b 24
      in (a, b, c))"

section \<open>Reading the key\<close>

text \<open>
  \<open>byte_at k i s\<close> is \<^verbatim>\<open>(uint32) k[i] << s\<close>. A word-wide fetch reads four bytes in the order of
  the machine; the unaligned path adds the four bytes itself.
\<close>

definition byte_at :: "uint8 list \<Rightarrow> nat \<Rightarrow> nat \<Rightarrow> uint32" where
  "byte_at k i s = push_bit s (ucast (k ! i))"

definition fetch_word :: "bool \<Rightarrow> uint8 list \<Rightarrow> nat \<Rightarrow> uint32" where
  "fetch_word be k i =
     (if be then word_of_nat (unat (k ! (4 * i + 3)) + 2 ^ 8 * unat (k ! (4 * i + 2)) +
                              2 ^ 16 * unat (k ! (4 * i + 1)) + 2 ^ 24 * unat (k ! (4 * i)))
      else word_of_nat (unat (k ! (4 * i)) + 2 ^ 8 * unat (k ! (4 * i + 1)) +
                        2 ^ 16 * unat (k ! (4 * i + 2)) + 2 ^ 24 * unat (k ! (4 * i + 3))))"

definition add_bytes :: "bool \<Rightarrow> uint8 list \<Rightarrow> nat \<Rightarrow> uint32" where
  "add_bytes be k i =
     (if be then byte_at k (4 * i + 3) 0 + byte_at k (4 * i + 2) 8 + byte_at k (4 * i + 1) 16 +
                 byte_at k (4 * i) 24
      else byte_at k (4 * i) 0 + byte_at k (4 * i + 1) 8 + byte_at k (4 * i + 2) 16 +
           byte_at k (4 * i + 3) 24)"

text \<open>The loop over the 12-byte blocks, for either way of reading a word.\<close>

function hash_blocks :: "(uint8 list \<Rightarrow> nat \<Rightarrow> uint32) \<Rightarrow> abc \<Rightarrow> uint8 list \<Rightarrow> abc \<times> uint8 list" where
  "hash_blocks rd (a, b, c) k =
     (if length k \<ge> 12
      then hash_blocks rd (mix (a + rd k 0, b + rd k 1, c + rd k 2)) (drop 12 k)
      else ((a, b, c), k))"
  by pat_completeness auto
termination by (relation "measure (\<lambda>(rd, s, k). length k)") auto

declare hash_blocks.simps [simp del]

text \<open>
  The switch over the last bytes. A case of the switch is reached for every length at or above
  its label, up to the \<^verbatim>\<open>break\<close> that ends its group. \<open>n\<close> is the byte offset; the shifts are
  those of the two byte orders.
\<close>

definition add_if :: "bool \<Rightarrow> uint32 \<Rightarrow> uint32 \<Rightarrow> uint32" where
  "add_if p x v = (if p then x + v else x)"

definition hash_tail_aligned :: "bool \<Rightarrow> abc \<Rightarrow> uint8 list \<Rightarrow> abc" where
  "hash_tail_aligned be s k =
     (let (a, b, c) = s; len = length k; sh = (\<lambda>l g. if be then g else l)
      in if len \<ge> 8
         then let c = add_if (len \<ge> 11) c (byte_at k 10 (sh 24 8));
                  c = add_if (len \<ge> 10) c (byte_at k 9 (sh 16 16));
                  c = add_if (len \<ge> 9) c (byte_at k 8 (sh 8 24))
              in (a + fetch_word be k 0, b + fetch_word be k 1, c)
         else if len \<ge> 4
         then let b = add_if (len \<ge> 7) b (byte_at k 6 (sh 16 8));
                  b = add_if (len \<ge> 6) b (byte_at k 5 (sh 8 16));
                  b = add_if (len \<ge> 5) b (byte_at k 4 (sh 0 24))
              in (a + fetch_word be k 0, b, c)
         else let a = add_if (len \<ge> 3) a (byte_at k 2 (sh 16 8));
                  a = add_if (len \<ge> 2) a (byte_at k 1 (sh 8 16));
                  a = add_if (len \<ge> 1) a (byte_at k 0 (sh 0 24))
              in (a, b, c))"

definition hash_tail_unaligned :: "bool \<Rightarrow> abc \<Rightarrow> uint8 list \<Rightarrow> abc" where
  "hash_tail_unaligned be s k =
     (let (a, b, c) = s; len = length k; sh = (\<lambda>l g. if be then g else l);
          c = add_if (len \<ge> 11) c (byte_at k 10 (sh 24 8));
          c = add_if (len \<ge> 10) c (byte_at k 9 (sh 16 16));
          c = add_if (len \<ge> 9) c (byte_at k 8 (sh 8 24));
          b = add_if (len \<ge> 8) b (byte_at k 7 (sh 24 0));
          b = add_if (len \<ge> 7) b (byte_at k 6 (sh 16 8));
          b = add_if (len \<ge> 6) b (byte_at k 5 (sh 8 16));
          b = add_if (len \<ge> 5) b (byte_at k 4 (sh 0 24));
          a = add_if (len \<ge> 4) a (byte_at k 3 (sh 24 0));
          a = add_if (len \<ge> 3) a (byte_at k 2 (sh 16 8));
          a = add_if (len \<ge> 2) a (byte_at k 1 (sh 8 16));
          a = add_if (len \<ge> 1) a (byte_at k 0 (sh 0 24))
      in (a, b, c))"

section \<open>The hash functions\<close>

definition hash_start :: "nat \<Rightarrow> abc" where
  "hash_start keylen =
     (let a = 0x9e3779b9 + word_of_nat keylen + 3923095 in (a, a, a))"

definition hash_key :: "bool \<Rightarrow> bool \<Rightarrow> abc \<Rightarrow> uint8 list \<Rightarrow> abc" where
  "hash_key be aligned s k =
     (if aligned
      then let (s, rest) = hash_blocks (fetch_word be) s k in final_mix (hash_tail_aligned be s rest)
      else let (s, rest) = hash_blocks (add_bytes be) s k in final_mix (hash_tail_unaligned be s rest))"

definition hash_bytes :: "bool \<Rightarrow> bool \<Rightarrow> uint8 list \<Rightarrow> uint32" where
  "hash_bytes be aligned k =
     (let (a, b, c) = hash_key be aligned (hash_start (length k)) k in c)"

text \<open>A nonzero seed is mixed in before the key, in both 64-bit variants.\<close>

definition hash_seed :: "uint64 \<Rightarrow> abc \<Rightarrow> abc" where
  "hash_seed seed s =
     (if seed \<noteq> 0 then let (a, b, c) = s in mix (a + ucast (drop_bit 32 seed), b + ucast seed, c)
      else s)"

definition hash_bytes_extended :: "bool \<Rightarrow> bool \<Rightarrow> uint8 list \<Rightarrow> uint64 \<Rightarrow> uint64" where
  "hash_bytes_extended be aligned k seed =
     (let (a, b, c) = hash_key be aligned (hash_seed seed (hash_start (length k))) k
      in push_bit 32 (ucast b) OR ucast c)"

definition hash_bytes_uint32 :: "uint32 \<Rightarrow> uint32" where
  "hash_bytes_uint32 k =
     (let (a, b, c) = hash_start 4; a = a + k; (a, b, c) = final_mix (a, b, c) in c)"

definition hash_bytes_uint32_extended :: "uint32 \<Rightarrow> uint64 \<Rightarrow> uint64" where
  "hash_bytes_uint32_extended k seed =
     (let (a, b, c) = hash_seed seed (hash_start 4); a = a + k; (a, b, c) = final_mix (a, b, c)
      in push_bit 32 (ucast b) OR ucast c)"

definition string_hash :: "bool \<Rightarrow> bool \<Rightarrow> uint8 list \<Rightarrow> nat \<Rightarrow> uint32" where
  "string_hash be aligned key keysize =
     (let s_len = length (takeWhile (\<lambda>x. x \<noteq> 0) key); s_len = min s_len (keysize - 1)
      in hash_bytes be aligned (take s_len key))"

definition tag_hash :: "bool \<Rightarrow> bool \<Rightarrow> uint8 list \<Rightarrow> nat \<Rightarrow> uint32" where
  "tag_hash be aligned key keysize = hash_bytes be aligned (take keysize key)"

definition uint32_hash :: "bool \<Rightarrow> uint8 list \<Rightarrow> nat \<Rightarrow> uint32 option" where
  "uint32_hash be key keysize =
     (if keysize = 4 then Some (hash_bytes_uint32 (fetch_word be key 0)) else None)"

section \<open>All paths agree\<close>

lemma byte_at_nat: "s \<le> 24 \<Longrightarrow> byte_at k i s = word_of_nat (2 ^ s * unat (k ! i))"
proof -
  have "(ucast (k ! i) :: uint32) = word_of_nat (unat (k ! i))" by simp
  then show ?thesis by (simp add: byte_at_def push_bit_eq_mult mult.commute)
qed

lemma add_bytes_fetch: "add_bytes be k i = fetch_word be k i"
  by (simp add: add_bytes_def fetch_word_def byte_at_nat)

lemma fetch_word_bytes:
  "fetch_word True k 0 = byte_at k 3 0 + byte_at k 2 8 + byte_at k 1 16 + byte_at k 0 24"
  "fetch_word False k 0 = byte_at k 0 0 + byte_at k 1 8 + byte_at k 2 16 + byte_at k 3 24"
  "fetch_word True k 1 = byte_at k 7 0 + byte_at k 6 8 + byte_at k 5 16 + byte_at k 4 24"
  "fetch_word False k 1 = byte_at k 4 0 + byte_at k 5 8 + byte_at k 6 16 + byte_at k 7 24"
  unfolding add_bytes_fetch [symmetric] by (simp_all add: add_bytes_def numeral_2_eq_2 numeral_3_eq_3)

lemma hash_tail_agree: "hash_tail_unaligned be s k = hash_tail_aligned be s k"
proof -
  obtain a b c where s: "s = (a, b, c)" by (cases s)
  show ?thesis
    unfolding s hash_tail_unaligned_def hash_tail_aligned_def Let_def prod.case
    by (cases be; cases "8 \<le> length k"; cases "4 \<le> length k")
      (simp_all add: fetch_word_bytes [unfolded One_nat_def] add_if_def ac_simps)
qed

lemma hash_key_agree: "hash_key be False s k = hash_key be True s k"
proof -
  have "add_bytes be = fetch_word be" by (simp add: fun_eq_iff add_bytes_fetch)
  then show ?thesis by (simp add: hash_key_def hash_tail_agree)
qed

lemma hash_key_short:
  assumes "length k = 4"
  shows "hash_key be aligned (a, b, c) k = final_mix (a + fetch_word be k 0, b, c)"
proof -
  have "hash_blocks rd s k = (s, k)" for rd s
    using assms by (cases s) (simp add: hash_blocks.simps)
  with assms have "hash_key be True (a, b, c) k = final_mix (a + fetch_word be k 0, b, c)"
    by (simp add: hash_key_def hash_tail_aligned_def add_if_def)
  then show ?thesis using hash_key_agree by (cases aligned) auto
qed

lemma ucast_or_push: "ucast ((push_bit 32 (ucast (b :: uint32)) :: uint64) OR ucast (c :: uint32)) = c"
  by (rule bit_word_eqI) (auto simp: bit_simps)

section \<open>Reversing a round\<close>

text \<open>\<open>mix\<close> is six rounds of one shape, each followed by a rotation of the three words.\<close>

definition mix_round :: "nat \<Rightarrow> abc \<Rightarrow> abc" where
  "mix_round k = (\<lambda>(x, y, z). (y, z + y, (x - z) XOR rot z k))"

definition unmix_round :: "nat \<Rightarrow> abc \<Rightarrow> abc" where
  "unmix_round k = (\<lambda>(y, z, x). ((x XOR rot (z - y) k) + (z - y), y, z - y))"

lemma mix_round_bij: "bij (mix_round k)"
proof (rule o_bij)
  show "unmix_round k \<circ> mix_round k = id" "mix_round k \<circ> unmix_round k = id"
    by (auto simp: fun_eq_iff mix_round_def unmix_round_def xor.assoc)
qed

lemma mix_rounds:
  "mix = mix_round 4 \<circ> (mix_round 19 \<circ> (mix_round 16 \<circ> (mix_round 8 \<circ> (mix_round 6 \<circ> mix_round 4))))"
  by (auto simp: fun_eq_iff mix_round_def Let_def)

section \<open>Properties\<close>

text \<open>
  C31: The four code paths of \<open>hash_bytes\<close> agree: for either byte order, hashing a key of any
  length through word-wide fetches gives the value that adding its bytes one by one gives, and
  so does the 64-bit variant for every seed; with seed zero the low 32 bits of the 64-bit hash
  are the 32-bit hash.
\<close>
theorem hash_bytes_paths_agree:
  "hash_bytes be False k = hash_bytes be True k \<and>
   hash_bytes_extended be False k seed = hash_bytes_extended be True k seed \<and>
   ucast (hash_bytes_extended be aligned k 0) = hash_bytes be aligned k"
  by (simp add: hash_bytes_def hash_bytes_extended_def hash_key_agree hash_seed_def ucast_or_push
      split: prod.splits)

text \<open>
  C32: The single-word variants return what the general functions return on the four bytes of
  the word, in the byte order of the machine, with and without a seed; the hash function that
  \<open>hash_create\<close> selects for four-byte keys is therefore the one it selects for other sizes.
\<close>
theorem hash_bytes_uint32_agrees:
  assumes "length k = 4"
  shows "hash_bytes_uint32 (fetch_word be k 0) = hash_bytes be aligned k \<and>
    hash_bytes_uint32_extended (fetch_word be k 0) seed = hash_bytes_extended be aligned k seed \<and>
    uint32_hash be k 4 = Some (tag_hash be aligned k 4)"
  using assms
  by (auto simp: hash_bytes_def hash_bytes_uint32_def hash_bytes_uint32_extended_def
      hash_bytes_extended_def hash_key_short uint32_hash_def tag_hash_def Let_def split: prod.splits)

theorem hash_bytes_uint32_agrees_witness:
  "hash_bytes_uint32 (fetch_word False [1, 2, 3, 4] 0) = hash_bytes False False [1, 2, 3, 4]"
  using hash_bytes_uint32_agrees [of "[1, 2, 3, 4]" False False 0] by simp

text \<open>
  C33: \<open>mix\<close> is reversible, as its comment says: it is a bijection on triples of 32-bit words,
  so no information of the state is lost between two blocks of a key.
\<close>
theorem mix_reversible: "bij mix"
  unfolding mix_rounds by (intro bij_comp mix_round_bij)

end
