(* ===== verification/Hash_Chains.thy ===== *)
theory Hash_Chains
  imports Prelude
begin

text \<open>
  Singly linked chains reached through pointers to pointers, as \<^verbatim>\<open>dynahash.c\<close> keeps its bucket
  chains and freelists. \<open>D\<close> is the memory: what a \<open>linkref\<close> holds, \<open>None\<close> if there is no such
  place. \<open>lchain D r xs\<close>: starting at the place \<open>r\<close>, the chain \<open>xs\<close> ends in NULL. \<open>lists_ok\<close>
  is the global picture: the chains of all roots are disjoint and together hold the elements \<open>U\<close>.
\<close>

type_synonym elem = nat

datatype linkref = BucketPtr nat nat | FreePtr nat | LinkPtr elem

type_synonym linkmem = "linkref \<Rightarrow> elem option option"

primrec lseg :: "linkmem \<Rightarrow> linkref \<Rightarrow> elem list \<Rightarrow> bool" where
  "lseg D r [] \<longleftrightarrow> True"
| "lseg D r (x # xs) \<longleftrightarrow> D r = Some (Some x) \<and> lseg D (LinkPtr x) xs"

definition ends :: "linkref \<Rightarrow> elem list \<Rightarrow> linkref" where
  "ends r xs = (if xs = [] then r else LinkPtr (last xs))"

definition lchain :: "linkmem \<Rightarrow> linkref \<Rightarrow> elem list \<Rightarrow> bool" where
  "lchain D r xs \<longleftrightarrow> lseg D r xs \<and> D (ends r xs) = Some None"

lemma ends_simps [simp]:
  "ends r [] = r" "ends r (x # xs) = ends (LinkPtr x) xs" "ends r (xs @ [x]) = LinkPtr x"
  by (auto simp: ends_def)

lemma ends_append [simp]: "ends r (xs @ ys) = ends (ends r xs) ys"
  by (auto simp: ends_def)

lemma ends_in: "ends r xs = r \<or> ends r xs \<in> LinkPtr ` set xs"
  by (auto simp: ends_def)

lemma lseg_append: "lseg D r (xs @ ys) \<longleftrightarrow> lseg D r xs \<and> lseg D (ends r xs) ys"
  by (induction xs arbitrary: r) auto

lemma lchain_simps [simp]:
  "lchain D r [] \<longleftrightarrow> D r = Some None"
  "lchain D r (x # xs) \<longleftrightarrow> D r = Some (Some x) \<and> lchain D (LinkPtr x) xs"
  by (auto simp: lchain_def)

lemma lchain_append: "lchain D r (xs @ ys) \<longleftrightarrow> lseg D r xs \<and> lchain D (ends r xs) ys"
  by (auto simp: lchain_def lseg_append)

lemma lseg_cong:
  "\<forall>q \<in> insert r (LinkPtr ` set xs). q \<noteq> ends r xs \<longrightarrow> D q = D' q \<Longrightarrow> distinct xs \<Longrightarrow>
    r \<notin> LinkPtr ` set xs \<Longrightarrow> lseg D r xs = lseg D' r xs"
proof (induction xs arbitrary: r)
  case (Cons x xs)
  have "r \<noteq> ends (LinkPtr x) xs" using Cons.prems(3) ends_in [of "LinkPtr x" xs] by auto
  then have "D r = D' r" using Cons.prems(1) by simp
  moreover have "lseg D (LinkPtr x) xs = lseg D' (LinkPtr x) xs"
    using Cons.prems by (intro Cons.IH) auto
  ultimately show ?case by simp
qed simp

lemma lseg_upd:
  "q \<notin> insert r (LinkPtr ` set xs) \<Longrightarrow> lseg (D(q := v)) r xs = lseg D r xs"
  by (induction xs arbitrary: r) auto

lemma lchain_upd:
  "q \<notin> insert r (LinkPtr ` set xs) \<Longrightarrow> lchain (D(q := v)) r xs = lchain D r xs"
  using ends_in [of r xs] by (auto simp: lchain_def lseg_upd)

lemma lchain_cong:
  "\<forall>q \<in> insert r (LinkPtr ` set xs). D q = D' q \<Longrightarrow> lchain D r xs = lchain D' r xs"
  by (induction xs arbitrary: r) auto

lemma lseg_upd_end:
  "distinct xs \<Longrightarrow> r \<notin> LinkPtr ` set xs \<Longrightarrow> lseg (D(ends r xs := v)) r xs = lseg D r xs"
  by (rule lseg_cong) auto

text \<open>A chain determines its elements.\<close>

lemma lchain_unique: "lchain D r xs \<Longrightarrow> lchain D r ys \<Longrightarrow> xs = ys"
proof (induction xs arbitrary: r ys)
  case Nil
  then show ?case by (cases ys) auto
next
  case (Cons x xs)
  then show ?case by (cases ys) auto
qed

section \<open>One chain\<close>

lemma lchain_append_end:
  assumes "lchain D r xs" "distinct xs" "r \<notin> LinkPtr ` set xs" "e \<notin> set xs" "r \<noteq> LinkPtr e"
  shows "lchain (D(ends r xs := Some (Some e), LinkPtr e := Some None)) r (xs @ [e])"
proof -
  have "ends r xs \<noteq> LinkPtr e" using assms(4,5) ends_in [of r xs] by auto
  moreover have "lseg (D(ends r xs := Some (Some e), LinkPtr e := Some None)) r xs"
    using assms by (subst lseg_upd) (auto simp: lseg_upd_end lchain_def)
  ultimately show ?thesis by (simp add: lchain_append)
qed

lemma lchain_remove:
  assumes "lchain D r (xs @ e # ys)" "distinct (xs @ e # ys)" "r \<notin> LinkPtr ` set (xs @ e # ys)"
  shows "lchain (D(ends r xs := D (LinkPtr e))) r (xs @ ys)"
proof -
  let ?D = "D(ends r xs := D (LinkPtr e))"
  have seg: "lseg ?D r xs"
    using assms by (subst lseg_upd_end) (auto simp: lchain_append)
  have notin: "ends r xs \<notin> LinkPtr ` set (e # ys)"
    using assms(2,3) ends_in [of r xs] by auto
  have c: "lchain D (LinkPtr e) ys" using assms(1) by (simp add: lchain_append)
  have "lchain ?D (ends r xs) ys"
  proof (cases ys)
    case Nil
    with c show ?thesis by simp
  next
    case (Cons y zs)
    with c notin show ?thesis by (simp add: lchain_upd)
  qed
  with seg show ?thesis by (simp add: lchain_append)
qed

lemma lchain_push:
  assumes "lchain D r xs" "r \<notin> LinkPtr ` set xs" "e \<notin> set xs" "r \<noteq> LinkPtr e"
  shows "lchain (D(LinkPtr e := D r, r := Some (Some e))) r (e # xs)"
proof (cases xs)
  case Nil
  with assms show ?thesis by auto
next
  case (Cons y ys)
  moreover have "lchain (D(LinkPtr e := D r, r := Some (Some e))) (LinkPtr y) ys = lchain D (LinkPtr y) ys"
    using Cons assms by (intro lchain_cong) auto
  ultimately show ?thesis using assms by auto
qed

text \<open>A run of consecutive elements, each linked to the one before it.\<close>

lemma lchain_consecutive:
  assumes "D r = Some (Some (f + n))" "\<And>k. k < n \<Longrightarrow> D (LinkPtr (f + Suc k)) = Some (Some (f + k))"
    and "lchain D (LinkPtr f) fs"
  shows "lchain D r (rev [f..<f + Suc n] @ fs)"
  using assms
proof (induction n arbitrary: r)
  case (Suc n)
  have "lchain D (LinkPtr (f + Suc n)) (rev [f..<f + Suc n] @ fs)"
    using Suc.prems by (intro Suc.IH) auto
  with Suc.prems(1) show ?case by simp
qed simp

section \<open>All chains\<close>

definition lists_ok :: "linkmem \<Rightarrow> linkref set \<Rightarrow> (linkref \<Rightarrow> elem list) \<Rightarrow> elem set \<Rightarrow> bool" where
  "lists_ok D R L U \<longleftrightarrow>
     R \<inter> range LinkPtr = {} \<and> (\<forall>r \<in> R. lchain D r (L r) \<and> distinct (L r)) \<and>
     (\<forall>r \<in> R. \<forall>s \<in> R. r \<noteq> s \<longrightarrow> set (L r) \<inter> set (L s) = {}) \<and> (\<Union>r \<in> R. set (L r)) = U"

lemma lists_okD:
  assumes "lists_ok D R L U" "r \<in> R"
  shows "lchain D r (L r)" "distinct (L r)" "r \<notin> LinkPtr ` A" "set (L r) \<subseteq> U"
    "r \<noteq> LinkPtr e"
  using assms by (auto simp: lists_ok_def)

lemma lists_ok_disjoint:
  "lists_ok D R L U \<Longrightarrow> r \<in> R \<Longrightarrow> s \<in> R \<Longrightarrow> e \<in> set (L r) \<Longrightarrow> e \<in> set (L s) \<Longrightarrow> r = s"
  unfolding lists_ok_def by blast

text \<open>Rewriting one root's list: the other chains only need to be left alone.\<close>

lemma lists_ok_change:
  assumes ok: "lists_ok D R L U" and r: "r \<in> R"
    and chain: "lchain D' r xs" "distinct xs"
    and frame: "\<And>q. q \<noteq> r \<Longrightarrow> q \<notin> LinkPtr ` (set (L r) \<union> set xs) \<Longrightarrow> D' q = D q"
    and new: "set xs \<inter> (U - set (L r)) = {}"
  shows "lists_ok D' R (L(r := xs)) ((U - set (L r)) \<union> set xs)"
proof -
  have other: "lchain D' s (L s)" if s: "s \<in> R" "s \<noteq> r" for s
  proof -
    have c: "lchain D s (L s)" using lists_okD(1) [OF ok s(1)] .
    have "D' q = D q" if "q \<in> insert s (LinkPtr ` set (L s))" for q
    proof (rule frame)
      show "q \<noteq> r" using that s(2) lists_okD(5) [OF ok r] by auto
      show "q \<notin> LinkPtr ` (set (L r) \<union> set xs)"
        using that lists_ok_disjoint [OF ok r s(1)] s(2) new lists_okD(4,5) [OF ok s(1)] by auto
    qed
    then have "lchain D' s (L s) = lchain D s (L s)" by (intro lchain_cong) blast
    with c show ?thesis by simp
  qed
  have U: "(\<Union>s \<in> R - {r}. set (L s)) = U - set (L r)"
    using ok r unfolding lists_ok_def by blast
  have "(\<Union>s \<in> R. set ((L(r := xs)) s)) = (\<Union>s \<in> R - {r}. set (L s)) \<union> set xs"
    using r by (auto split: if_splits)
  moreover have "set ((L(r := xs)) s1) \<inter> set ((L(r := xs)) s2) = {}"
    if "s1 \<in> R" "s2 \<in> R" "s1 \<noteq> s2" for s1 s2
    using that U new ok unfolding lists_ok_def by auto
  ultimately show ?thesis
    unfolding lists_ok_def U [symmetric]
    using ok chain other lists_okD(2) [OF ok] by (auto simp: lists_ok_def)
qed

lemma lists_ok_append:
  assumes ok: "lists_ok D R L U" and r: "r \<in> R" and e: "e \<notin> U"
  shows "lists_ok (D(ends r (L r) := Some (Some e), LinkPtr e := Some None)) R
    (L(r := L r @ [e])) (insert e U)"
proof -
  have "e \<notin> set (L r)" using lists_okD(4) [OF ok r] e by auto
  then have "lists_ok (D(ends r (L r) := Some (Some e), LinkPtr e := Some None)) R
    (L(r := L r @ [e])) ((U - set (L r)) \<union> set (L r @ [e]))"
    using lists_okD [OF ok r] e ends_in [of r "L r"]
    by (intro lists_ok_change [OF ok r] lchain_append_end) auto
  moreover have "(U - set (L r)) \<union> set (L r @ [e]) = insert e U"
    using lists_okD(4) [OF ok r] by auto
  ultimately show ?thesis by simp
qed

lemma lists_ok_remove:
  assumes ok: "lists_ok D R L U" and r: "r \<in> R" and L: "L r = xs @ e # ys"
  shows "lists_ok (D(ends r xs := D (LinkPtr e))) R (L(r := xs @ ys)) (U - {e})"
proof -
  have "lists_ok (D(ends r xs := D (LinkPtr e))) R (L(r := xs @ ys)) ((U - set (L r)) \<union> set (xs @ ys))"
    using lists_okD [OF ok r] ends_in [of r xs]
    by (intro lists_ok_change [OF ok r] lchain_remove) (auto simp: L)
  moreover have "(U - set (L r)) \<union> set (xs @ ys) = U - {e}"
    using lists_okD(2,4) [OF ok r] by (auto simp: L)
  ultimately show ?thesis by simp
qed

lemma lists_ok_push:
  assumes ok: "lists_ok D R L U" and r: "r \<in> R" and e: "e \<notin> U"
  shows "lists_ok (D(LinkPtr e := D r, r := Some (Some e))) R (L(r := e # L r)) (insert e U)"
proof -
  have "e \<notin> set (L r)" using lists_okD(4) [OF ok r] e by auto
  then have "lists_ok (D(LinkPtr e := D r, r := Some (Some e))) R (L(r := e # L r))
      ((U - set (L r)) \<union> set (e # L r))"
    using lists_okD [OF ok r] e by (intro lists_ok_change [OF ok r] lchain_push) auto
  moreover have "(U - set (L r)) \<union> set (e # L r) = insert e U"
    using lists_okD(4) [OF ok r] by auto
  ultimately show ?thesis by simp
qed

text \<open>Dealing one root's list out to it and a new root.\<close>

lemma lists_ok_split:
  assumes ok: "lists_ok D R L U" and r: "r \<in> R" and n: "n \<notin> R" "n \<notin> range LinkPtr"
    and chains: "lchain D' r ys" "lchain D' n zs" "distinct (ys @ zs)" "set (ys @ zs) = set (L r)"
    and frame: "\<And>q. q \<noteq> r \<Longrightarrow> q \<noteq> n \<Longrightarrow> q \<notin> LinkPtr ` set (L r) \<Longrightarrow> D' q = D q"
  shows "lists_ok D' (insert n R) (L(r := ys, n := zs)) U"
proof -
  have rn: "r \<noteq> n" using r n by auto
  have other: "lchain D' s (L s)" if s: "s \<in> R" "s \<noteq> r" for s
  proof -
    have "lchain D' s (L s) = lchain D s (L s)"
      using s n lists_ok_disjoint [OF ok r s(1)] lists_okD(5) [OF ok r] lists_okD(5) [OF ok s(1)]
      by (intro lchain_cong ballI frame) auto
    then show ?thesis using lists_okD(1) [OF ok s(1)] by simp
  qed
  have parts: "set ys \<subseteq> set (L r)" "set zs \<subseteq> set (L r)" "set ys \<inter> set zs = {}"
    using chains(3,4) by auto
  let ?L = "L(r := ys, n := zs)"
  have Ln: "?L n = zs" "?L r = ys" "s \<noteq> r \<Longrightarrow> s \<noteq> n \<Longrightarrow> ?L s = L s" for s using rn by auto
  have sub: "set (?L s) \<subseteq> set (L (if s = n then r else s))" for s
    using parts Ln by (cases "s = n"; cases "s = r") auto
  have dis: "set (?L s1) \<inter> set (?L s2) = {}" if "s1 \<in> insert n R" "s2 \<in> insert n R" "s1 \<noteq> s2" for s1 s2
  proof (cases "(if s1 = n then r else s1) = (if s2 = n then r else s2)")
    case True
    with that have "s1 = n \<and> s2 = r \<or> s1 = r \<and> s2 = n" by (auto split: if_splits)
    with Ln parts(3) show ?thesis by auto
  next
    case False
    moreover have "(if s1 = n then r else s1) \<in> R" "(if s2 = n then r else s2) \<in> R" using that r by auto
    ultimately show ?thesis using sub [of s1] sub [of s2] lists_ok_disjoint [OF ok] by blast
  qed
  have "(\<Union>s \<in> insert n R. set (?L s)) = (\<Union>s \<in> R - {r}. set (?L s)) \<union> (set (?L n) \<union> set (?L r))"
    using r by blast
  also have "\<dots> = (\<Union>s \<in> R - {r}. set (L s)) \<union> set (L r)"
  proof -
    have "(\<Union>s \<in> R - {r}. set (?L s)) = (\<Union>s \<in> R - {r}. set (L s))"
      by (rule SUP_cong) (use n in auto)
    moreover have "set (?L n) \<union> set (?L r) = set (L r)" unfolding Ln using chains(4) by auto
    ultimately show ?thesis by (simp only:)
  qed
  also have "\<dots> = U" using ok r unfolding lists_ok_def by blast
  finally show ?thesis
    unfolding lists_ok_def
    using ok chains rn r n other dis lists_okD(2) [OF ok] by (auto simp: lists_ok_def)
qed

end
