(* ===== verification/Dynahash.thy ===== *)
theory Dynahash
  imports Hashfn Hash_Chains
begin

unbundle bit_operations_syntax

text \<open>
  The hash tables of \<^verbatim>\<open>src/backend/utils/hash/dynahash.c\<close>. Elements live in a store \<open>heap\<close>
  and are named by numbers below \<open>brk\<close>, the number of elements allocated so far; bucket
  chains and freelists are singly linked through their \<open>link\<close> fields, as in the source. A
  \<open>linkref\<close> is a pointer to a place that holds an element pointer: a bucket header of a
  segment, the head of a freelist, or an element's link field. The memory allocator is a
  parameter of the table: \<open>alloc n size\<close> is its answer to the \<open>n\<close>-th request. Spinlocks of
  freelists only serialise accesses and are left out. The key is compared by equality, as
  \<open>memcmp\<close> does for keys without padding.
\<close>

section \<open>Data\<close>

definition DEF_SEGSIZE :: int where "DEF_SEGSIZE = 256"
definition DEF_SEGSIZE_SHIFT :: nat where "DEF_SEGSIZE_SHIFT = 8"
definition DEF_DIRSIZE :: int where "DEF_DIRSIZE = 256"
definition NUM_FREELISTS :: nat where "NUM_FREELISTS = 32"
definition NO_MAX_DSIZE :: int where "NO_MAX_DSIZE = -1"

record ('k, 'v) HASHELEMENT =
  link :: "elem option"
  hashvalue :: uint32
  ekey :: 'k
  edata :: 'v

record FreeListData =
  nentries :: int
  freeList :: "elem option"

record HASHHDR =
  freeLists :: "nat \<Rightarrow> FreeListData"
  dsize :: int
  nsegs :: int
  max_bucket :: uint32
  high_mask :: uint32
  low_mask :: uint32
  entrysize :: nat
  num_partitions :: int
  max_dsize :: int
  ssize :: int
  sshift :: nat
  nelem_alloc :: int
  isfixed :: bool

record ('k, 'v) HTAB =
  hctl :: HASHHDR
  dir :: "nat \<Rightarrow> (nat \<Rightarrow> elem option) option"
  heap :: "elem \<Rightarrow> ('k, 'v) HASHELEMENT"
  brk :: elem
  hash :: "'k \<Rightarrow> uint32"
  alloc :: "nat \<Rightarrow> nat \<Rightarrow> bool"
  nreq :: nat
  isshared :: bool
  frozen :: bool
  has_seq_scans :: bool

datatype HASHACTION = HASH_FIND | HASH_ENTER | HASH_REMOVE | HASH_ENTER_NULL

definition IS_PARTITIONED :: "HASHHDR \<Rightarrow> bool" where
  "IS_PARTITIONED h \<longleftrightarrow> num_partitions h \<noteq> 0"

definition FREELIST_IDX :: "HASHHDR \<Rightarrow> uint32 \<Rightarrow> nat" where
  "FREELIST_IDX h hashcode = (if IS_PARTITIONED h then unat hashcode mod NUM_FREELISTS else 0)"

text \<open>Reading and writing through such a pointer; a bucket header may be in no segment.\<close>

fun deref :: "('k, 'v) HTAB \<Rightarrow> linkref \<Rightarrow> elem option option" where
  "deref T (BucketPtr s n) = map_option (\<lambda>seg. seg n) (dir T s)"
| "deref T (FreePtr i) = Some (freeList (freeLists (hctl T) i))"
| "deref T (LinkPtr e) = Some (link (heap T e))"

definition set_free :: "nat \<Rightarrow> elem option \<Rightarrow> ('k, 'v) HTAB \<Rightarrow> ('k, 'v) HTAB" where
  "set_free i v T = T\<lparr>hctl := (hctl T)\<lparr>freeLists :=
     (freeLists (hctl T))(i := (freeLists (hctl T) i)\<lparr>freeList := v\<rparr>)\<rparr>\<rparr>"

definition add_entries :: "nat \<Rightarrow> int \<Rightarrow> ('k, 'v) HTAB \<Rightarrow> ('k, 'v) HTAB" where
  "add_entries i d T = T\<lparr>hctl := (hctl T)\<lparr>freeLists :=
     (freeLists (hctl T))(i := (freeLists (hctl T) i)\<lparr>nentries := nentries (freeLists (hctl T) i) + d\<rparr>)\<rparr>\<rparr>"

fun assign :: "linkref \<Rightarrow> elem option \<Rightarrow> ('k, 'v) HTAB \<Rightarrow> ('k, 'v) HTAB" where
  "assign (BucketPtr s n) v T = T\<lparr>dir := (dir T)(s := map_option (\<lambda>seg. seg(n := v)) (dir T s))\<rparr>"
| "assign (FreePtr i) v T = set_free i v T"
| "assign (LinkPtr e) v T = T\<lparr>heap := (heap T)(e := (heap T e)\<lparr>link := v\<rparr>)\<rparr>"

declare assign.simps [simp del]

section \<open>Sizes\<close>

fun leftmost_one_pos :: "nat \<Rightarrow> nat" where
  "leftmost_one_pos n = (if n < 2 then 0 else Suc (leftmost_one_pos (n div 2)))"

definition pg_ceil_log2_64 :: "uint64 \<Rightarrow> nat" where
  "pg_ceil_log2_64 num = (if num < 2 then 0 else leftmost_one_pos (unat (num - 1)) + 1)"

definition my_log2 :: "int \<Rightarrow> nat" where
  "my_log2 num =
     (let num = (if num > (2 ^ 63 - 1) div 2 then (2 ^ 63 - 1) div 2 else num)
      in pg_ceil_log2_64 (word_of_int num))"

definition next_pow2_int64 :: "int \<Rightarrow> int" where
  "next_pow2_int64 num = 2 ^ my_log2 num"

definition next_pow2_int :: "int \<Rightarrow> int" where
  "next_pow2_int num =
     (let num = (if num > (2 ^ 31 - 1) div 2 then (2 ^ 31 - 1) div 2 else num) in 2 ^ my_log2 num)"

definition MAXALIGN :: "nat \<Rightarrow> nat" where
  "MAXALIGN n = (n + 7) div 8 * 8"

definition element_size :: "nat \<Rightarrow> nat" where
  "element_size esize = MAXALIGN 16 + MAXALIGN esize"

text \<open>The loop that doubles the request until 32 elements fit into it.\<close>

function choose_loop :: "nat \<Rightarrow> nat \<Rightarrow> nat" where
  "choose_loop esize allocSize =
     (let allocSize = 2 * allocSize; n = allocSize div esize
      in if n < 32 \<and> esize > 0 \<and> allocSize > 0 then choose_loop esize allocSize else n)"
  by pat_completeness auto
termination
  by (relation "measure (\<lambda>(esize, a). 64 * esize - a)")
    (auto simp: div_less_iff_less_mult)

definition choose_nelem_alloc :: "nat \<Rightarrow> nat" where
  "choose_nelem_alloc esize = choose_loop (element_size esize) (32 * 4)"

definition add_size :: "nat \<Rightarrow> nat \<Rightarrow> nat option" where
  "add_size s1 s2 = (if s1 + s2 < 2 ^ 64 then Some (s1 + s2) else None)"

definition mul_size :: "nat \<Rightarrow> nat \<Rightarrow> nat option" where
  "mul_size s1 s2 = (if s1 * s2 < 2 ^ 64 then Some (s1 * s2) else None)"

text \<open>The loop that doubles the directory until it has room for every segment.\<close>

function double_until :: "int \<Rightarrow> int \<Rightarrow> int" where
  "double_until n bound = (if n < bound \<and> 0 < n then double_until (2 * n) bound else n)"
  by pat_completeness auto
termination by (relation "measure (\<lambda>(n, bound). nat (bound - n))") auto

declare double_until.simps [simp del] choose_loop.simps [simp del] leftmost_one_pos.simps [simp del]

definition hash_select_dirsize :: "int \<Rightarrow> int" where
  "hash_select_dirsize num_entries =
     (let nBuckets = next_pow2_int64 num_entries;
          nSegments = next_pow2_int64 ((nBuckets - 1) div DEF_SEGSIZE + 1)
      in double_until DEF_DIRSIZE nSegments)"

definition hash_estimate_size :: "nat \<Rightarrow> int \<Rightarrow> nat \<Rightarrow> nat option" where
  "hash_estimate_size sizeof_HASHHDR num_entries esize =
     (let nBuckets = next_pow2_int64 num_entries;
          nSegments = next_pow2_int64 ((nBuckets - 1) div DEF_SEGSIZE + 1);
          nDirEntries = double_until DEF_DIRSIZE nSegments;
          elementAllocCnt = choose_nelem_alloc esize;
          nElementAllocs = (num_entries - 1) div int elementAllocCnt + 1
      in do { dirs \<leftarrow> mul_size (nat nDirEntries) 8;
              sz \<leftarrow> add_size (MAXALIGN sizeof_HASHHDR) dirs;
              segs \<leftarrow> mul_size (nat nSegments) (MAXALIGN (nat DEF_SEGSIZE * 8));
              sz \<leftarrow> add_size sz segs;
              chunk \<leftarrow> mul_size elementAllocCnt (element_size esize);
              elems \<leftarrow> mul_size (nat nElementAllocs) chunk;
              add_size sz elems })"

definition hash_get_shared_size :: "nat \<Rightarrow> int \<Rightarrow> nat" where
  "hash_get_shared_size sizeof_HASHHDR dsz = sizeof_HASHHDR + nat dsz * 8"

section \<open>Allocation\<close>

definition request :: "nat \<Rightarrow> ('k, 'v) HTAB \<Rightarrow> bool \<times> ('k, 'v) HTAB" where
  "request sz T = (alloc T (nreq T) sz, T\<lparr>nreq := Suc (nreq T)\<rparr>)"

definition seg_alloc :: "('k, 'v) HTAB \<Rightarrow> (nat \<Rightarrow> elem option) option \<times> ('k, 'v) HTAB" where
  "seg_alloc T =
     (let (ok, T) = request (8 * nat (ssize (hctl T))) T
      in if ok then (Some (\<lambda>_. None), T) else (None, T))"

definition dir_realloc :: "('k, 'v) HTAB \<Rightarrow> bool \<times> ('k, 'v) HTAB" where
  "dir_realloc T =
     (if max_dsize (hctl T) \<noteq> NO_MAX_DSIZE then (False, T)
      else let new_dsize = 2 * dsize (hctl T); (ok, T) = request (8 * nat new_dsize) T
      in if ok
         then (True, T\<lparr>dir := (\<lambda>s. if s < nat (dsize (hctl T)) then dir T s else None),
                       hctl := (hctl T)\<lparr>dsize := new_dsize\<rparr>\<rparr>)
         else (False, T))"

primrec link_elements :: "elem \<Rightarrow> nat \<Rightarrow> (elem \<Rightarrow> ('k, 'v) HASHELEMENT) \<Rightarrow> elem \<Rightarrow> ('k, 'v) HASHELEMENT" where
  "link_elements first 0 h = h"
| "link_elements first (Suc i) h =
     (let h = link_elements first i h
      in h(first + i := (h (first + i))\<lparr>link := (if i = 0 then None else Some (first + i - 1))\<rparr>))"

definition element_alloc :: "('k, 'v) HTAB \<Rightarrow> nat \<Rightarrow> nat \<Rightarrow> bool \<times> ('k, 'v) HTAB" where
  "element_alloc T nelem freelist_idx =
     (if isfixed (hctl T) then (False, T)
      else let (ok, T) = request (nelem * element_size (entrysize (hctl T))) T
      in if \<not> ok then (False, T)
         else let first = brk T;
                  T = T\<lparr>heap := link_elements first nelem (heap T), brk := first + nelem\<rparr>;
                  T = assign (LinkPtr first) (freeList (freeLists (hctl T) freelist_idx)) T;
                  T = set_free freelist_idx (if nelem = 0 then None else Some (first + nelem - 1)) T
         in (True, T))"

text \<open>The other freelists in the order in which the loop tries to borrow from them.\<close>

definition borrow_order :: "nat \<Rightarrow> nat list" where
  "borrow_order freelist_idx = map (\<lambda>d. (freelist_idx + d) mod NUM_FREELISTS) [1..<NUM_FREELISTS]"

partial_function (option) get_hash_entry ::
    "('k, 'v) HTAB \<Rightarrow> nat \<Rightarrow> (elem option \<times> ('k, 'v) HTAB) option" where
  "get_hash_entry T freelist_idx =
     (case freeList (freeLists (hctl T) freelist_idx) of
        Some newElement \<Rightarrow>
          Some (Some newElement,
                add_entries freelist_idx 1 (set_free freelist_idx (link (heap T newElement)) T))
      | None \<Rightarrow>
          (let (ok, T) = element_alloc T (nat (nelem_alloc (hctl T))) freelist_idx
           in if ok then get_hash_entry T freelist_idx
              else if \<not> IS_PARTITIONED (hctl T) then Some (None, T)
              else case find (\<lambda>j. freeList (freeLists (hctl T) j) \<noteq> None) (borrow_order freelist_idx) of
                  None \<Rightarrow> Some (None, T)
                | Some j \<Rightarrow> (case freeList (freeLists (hctl T) j) of
                      None \<Rightarrow> Some (None, T)
                    | Some newElement \<Rightarrow>
                        Some (Some newElement,
                              add_entries freelist_idx 1 (set_free j (link (heap T newElement)) T)))))"

section \<open>Searching\<close>

definition calc_bucket :: "HASHHDR \<Rightarrow> uint32 \<Rightarrow> uint32" where
  "calc_bucket h hash_val =
     (let bucket = hash_val AND high_mask h
      in if bucket > max_bucket h then bucket AND low_mask h else bucket)"

definition bucket_ptr :: "HASHHDR \<Rightarrow> nat \<Rightarrow> linkref" where
  "bucket_ptr h bucket = BucketPtr (bucket div 2 ^ sshift h) (bucket mod nat (ssize h))"

definition hash_initial_lookup ::
    "('k, 'v) HTAB \<Rightarrow> uint32 \<Rightarrow> (('k, 'v) HTAB, nat \<times> linkref) run" where
  "hash_initial_lookup T hv =
     (let bucket = unat (calc_bucket (hctl T) hv);
          segment_num = bucket div 2 ^ sshift (hctl T)
      in if int segment_num \<ge> dsize (hctl T) then Crash
         else if dir T segment_num = None then Raise T HashCorrupted
         else Done T (bucket, bucket_ptr (hctl T) bucket))"

text \<open>Following a chain: the place that holds the matching element, or the end of the chain.\<close>

partial_function (option) chain_search ::
    "('k, 'v) HTAB \<Rightarrow> (elem \<Rightarrow> bool) \<Rightarrow> linkref \<Rightarrow> (linkref \<times> elem option) option" where
  "chain_search T P prev =
     (case deref T prev of
        None \<Rightarrow> None
      | Some None \<Rightarrow> Some (prev, None)
      | Some (Some e) \<Rightarrow> if P e then Some (prev, Some e) else chain_search T P (LinkPtr e))"

text \<open>The loop of \<open>expand_table\<close> that deals the elements of a chain out to two chains.\<close>

partial_function (option) relocate ::
    "('k, 'v) HTAB \<Rightarrow> nat \<Rightarrow> linkref \<Rightarrow> linkref \<Rightarrow> elem option \<Rightarrow> ('k, 'v) HTAB option" where
  "relocate T old_bucket oldlink newlink currElement =
     (case currElement of
        None \<Rightarrow> Some (assign newlink None (assign oldlink None T))
      | Some e \<Rightarrow>
          (let nextElement = link (heap T e)
           in if unat (calc_bucket (hctl T) (hashvalue (heap T e))) = old_bucket
              then relocate (assign oldlink (Some e) T) old_bucket (LinkPtr e) newlink nextElement
              else relocate (assign newlink (Some e) T) old_bucket oldlink (LinkPtr e) nextElement))"

definition expand_masks :: "nat \<Rightarrow> HASHHDR \<Rightarrow> HASHHDR" where
  "expand_masks new_bucket h =
     (let h = h\<lparr>max_bucket := max_bucket h + 1\<rparr>
      in if (word_of_nat new_bucket :: uint32) > high_mask h
         then h\<lparr>low_mask := high_mask h, high_mask := word_of_nat new_bucket OR high_mask h\<rparr>
         else h)"

text \<open>Making sure that the segment of the new bucket exists.\<close>

definition expand_segment :: "nat \<Rightarrow> ('k, 'v) HTAB \<Rightarrow> bool \<times> ('k, 'v) HTAB" where
  "expand_segment new_segnum T =
     (if int new_segnum \<ge> nsegs (hctl T)
      then let (ok, T) = (if int new_segnum \<ge> dsize (hctl T) then dir_realloc T else (True, T))
           in if \<not> ok then (False, T)
              else let (seg, T) = seg_alloc T
              in if seg = None then (False, T)
                 else (True, T\<lparr>dir := (dir T)(new_segnum := seg),
                               hctl := (hctl T)\<lparr>nsegs := nsegs (hctl T) + 1\<rparr>\<rparr>)
      else (True, T))"

definition expand_table :: "('k, 'v) HTAB \<Rightarrow> (bool \<times> ('k, 'v) HTAB) option" where
  "expand_table T =
     (let new_bucket = Suc (unat (max_bucket (hctl T)));
          (ok, T) = expand_segment (new_bucket div 2 ^ sshift (hctl T)) T
      in if \<not> ok then Some (False, T)
         else let old_bucket = unat (word_of_nat new_bucket AND low_mask (hctl T));
                  T = T\<lparr>hctl := expand_masks new_bucket (hctl T)\<rparr>
         in case deref T (bucket_ptr (hctl T) old_bucket) of
              None \<Rightarrow> None
            | Some currElement \<Rightarrow>
                do { T \<leftarrow> relocate T old_bucket (bucket_ptr (hctl T) old_bucket)
                            (bucket_ptr (hctl T) new_bucket) currElement;
                     Some (True, T) })"

definition hash_search_maybe_expand :: "('k, 'v) HTAB \<Rightarrow> HASHACTION \<Rightarrow> ('k, 'v) HTAB option" where
  "hash_search_maybe_expand T action =
     (if (action = HASH_ENTER \<or> action = HASH_ENTER_NULL) \<and>
         nentries (freeLists (hctl T) 0) > int (unat (max_bucket (hctl T))) \<and>
         \<not> IS_PARTITIONED (hctl T) \<and> \<not> frozen T \<and> \<not> has_seq_scans T
      then map_option snd (expand_table T) else Some T)"

definition hash_search_with_hash_value ::
    "('k, 'v) HTAB \<Rightarrow> 'k \<Rightarrow> uint32 \<Rightarrow> HASHACTION \<Rightarrow> (('k, 'v) HTAB, elem option \<times> bool) run" where
  "hash_search_with_hash_value T0 key hv action =
     (let freelist_idx = FREELIST_IDX (hctl T0) hv
      in case hash_search_maybe_expand T0 action of
        None \<Rightarrow> Crash
      | Some T \<Rightarrow>
       (case hash_initial_lookup T hv of
          Raise T e \<Rightarrow> Raise T e | Spin T \<Rightarrow> Spin T | Crash \<Rightarrow> Crash
        | Done T (bucket, bucketptr) \<Rightarrow>
         (case chain_search T (\<lambda>e. hashvalue (heap T e) = hv \<and> ekey (heap T e) = key) bucketptr of
            None \<Rightarrow> Spin T
          | Some (prevBucketPtr, currBucket) \<Rightarrow>
             (case action of
                HASH_FIND \<Rightarrow> Done T (currBucket, currBucket \<noteq> None)
              | HASH_REMOVE \<Rightarrow>
                 (case currBucket of
                    None \<Rightarrow> Done T (None, False)
                  | Some e \<Rightarrow>
                      if nentries (freeLists (hctl T) freelist_idx) \<le> 0 then Crash
                      else let T = add_entries freelist_idx (- 1) T;
                               T = assign prevBucketPtr (link (heap T e)) T;
                               T = assign (LinkPtr e) (freeList (freeLists (hctl T) freelist_idx)) T;
                               T = set_free freelist_idx (Some e) T
                      in Done T (Some e, True))
              | _ \<Rightarrow>
                 (case currBucket of
                    Some e \<Rightarrow> Done T (Some e, True)
                  | None \<Rightarrow>
                      if frozen T then Raise T HashFrozen
                      else (case get_hash_entry T freelist_idx of
                              None \<Rightarrow> Spin T
                            | Some (None, T) \<Rightarrow>
                                if action = HASH_ENTER_NULL then Done T (None, False)
                                else if isshared T then Raise T HashOutOfSharedMemory
                                else Raise T HashOutOfMemory
                            | Some (Some e, T) \<Rightarrow>
                                let T = assign prevBucketPtr (Some e) T;
                                    T = assign (LinkPtr e) None T;
                                    T = T\<lparr>heap := (heap T)(e := (heap T e)\<lparr>hashvalue := hv, ekey := key\<rparr>)\<rparr>
                                in Done T (Some e, False)))))))"

definition hash_get_num_entries :: "('k, 'v) HTAB \<Rightarrow> int" where
  "hash_get_num_entries T =
     (if IS_PARTITIONED (hctl T) then \<Sum>i\<leftarrow>[0..<NUM_FREELISTS]. nentries (freeLists (hctl T) i)
      else nentries (freeLists (hctl T) 0))"

section \<open>Creation\<close>

datatype hash_flag =
    HASH_PARTITION | HASH_SEGMENT | HASH_DIRSIZE | HASH_ELEM | HASH_STRINGS | HASH_BLOBS
  | HASH_FUNCTION | HASH_COMPARE | HASH_KEYCOPY | HASH_ALLOC | HASH_CONTEXT | HASH_SHARED_MEM
  | HASH_ATTACH | HASH_FIXED_SIZE

record HASHCTL =
  info_num_partitions :: int
  info_ssize :: int
  info_dsize :: int
  info_max_dsize :: int
  info_keysize :: nat
  info_entrysize :: nat

definition hdefault :: HASHHDR where
  "hdefault =
     \<lparr>freeLists = (\<lambda>_. \<lparr>nentries = 0, freeList = None\<rparr>), dsize = DEF_DIRSIZE, nsegs = 0,
      max_bucket = 0, high_mask = 0, low_mask = 0, entrysize = 0, num_partitions = 0,
      max_dsize = NO_MAX_DSIZE, ssize = DEF_SEGSIZE, sshift = DEF_SEGSIZE_SHIFT, nelem_alloc = 0,
      isfixed = False\<rparr>"

text \<open>The choice of the hash function by the flags; \<open>info_hash\<close> is the caller's own function.\<close>

definition hash_select ::
    "bool \<Rightarrow> hash_flag set \<Rightarrow> nat \<Rightarrow> (uint8 list \<Rightarrow> nat \<Rightarrow> uint32) \<Rightarrow> (uint8 list \<Rightarrow> uint32 option) option" where
  "hash_select be flags keysize info_hash =
     (if HASH_FUNCTION \<in> flags
      then if HASH_BLOBS \<in> flags \<or> HASH_STRINGS \<in> flags then None
           else Some (\<lambda>k. Some (info_hash k keysize))
      else if HASH_BLOBS \<in> flags
      then if HASH_STRINGS \<in> flags then None
           else if keysize = 4 then Some (\<lambda>k. uint32_hash be k keysize)
           else Some (\<lambda>k. Some (tag_hash be True k keysize))
      else if HASH_STRINGS \<in> flags \<and> keysize > 8
      then Some (\<lambda>k. Some (string_hash be True k keysize))
      else None)"

primrec alloc_segments :: "nat \<Rightarrow> ('k, 'v) HTAB \<Rightarrow> bool \<times> ('k, 'v) HTAB" where
  "alloc_segments 0 T = (True, T)"
| "alloc_segments (Suc n) T =
     (let segp = nat (nsegs (hctl T)); (seg, T) = seg_alloc T; T = T\<lparr>dir := (dir T)(segp := seg)\<rparr>
      in if seg = None then (False, T)
         else alloc_segments n (T\<lparr>hctl := (hctl T)\<lparr>nsegs := nsegs (hctl T) + 1\<rparr>\<rparr>))"

definition init_htab :: "('k, 'v) HTAB \<Rightarrow> int \<Rightarrow> bool \<times> ('k, 'v) HTAB" where
  "init_htab T nelem =
     (let nbuckets = double_until (next_pow2_int nelem) (num_partitions (hctl T));
          T = T\<lparr>hctl := (hctl T)\<lparr>max_bucket := word_of_int (nbuckets - 1),
                 low_mask := word_of_int (nbuckets - 1), high_mask := word_of_int (2 * nbuckets) - 1\<rparr>\<rparr>;
          segs = next_pow2_int ((nbuckets - 1) div ssize (hctl T) + 1)
      in if segs > dsize (hctl T) \<and> isshared T then (False, T)
         else let T = (if segs > dsize (hctl T) then T\<lparr>hctl := (hctl T)\<lparr>dsize := segs\<rparr>\<rparr> else T);
                  (ok, T) = (if isshared T then (True, T) else request (8 * nat (dsize (hctl T))) T)
         in if \<not> ok then (False, T)
            else let (ok, T) = alloc_segments (nat segs - nat (nsegs (hctl T))) T
            in if \<not> ok then (False, T)
               else (True, T\<lparr>hctl := (hctl T)\<lparr>nelem_alloc := int (choose_nelem_alloc (entrysize (hctl T)))\<rparr>\<rparr>))"

primrec alloc_freelists :: "(nat \<times> nat) list \<Rightarrow> ('k, 'v) HTAB \<Rightarrow> bool \<times> ('k, 'v) HTAB" where
  "alloc_freelists [] T = (True, T)"
| "alloc_freelists (x # xs) T =
     (let (ok, T) = element_alloc T (snd x) (fst x) in if ok then alloc_freelists xs T else (False, T))"

text \<open>How many elements each freelist gets: the first one the excess of the division.\<close>

definition freelist_shares :: "bool \<Rightarrow> nat \<Rightarrow> (nat \<times> nat) list" where
  "freelist_shares partitioned nelem =
     (let parts = (if partitioned then NUM_FREELISTS else 1);
          n = nelem div parts;
          n = (if n \<le> 0 then 1 else n);
          first = (if n * parts < nelem then nelem - n * (parts - 1) else n)
      in map (\<lambda>i. (i, if i = 0 then first else n)) [0..<parts])"

definition hash_create_hdr :: "HASHCTL \<Rightarrow> hash_flag set \<Rightarrow> HASHHDR option" where
  "hash_create_hdr info flags =
     (let h = hdefault;
          ok1 = (HASH_PARTITION \<in> flags \<longrightarrow>
                  HASH_SHARED_MEM \<in> flags \<and> info_num_partitions info = next_pow2_int (info_num_partitions info));
          h = (if HASH_PARTITION \<in> flags then h\<lparr>num_partitions := info_num_partitions info\<rparr> else h);
          h = (if HASH_SEGMENT \<in> flags
               then h\<lparr>ssize := info_ssize info, sshift := my_log2 (info_ssize info)\<rparr> else h);
          ok2 = (HASH_SEGMENT \<in> flags \<longrightarrow> ssize h = 2 ^ sshift h);
          h = (if HASH_DIRSIZE \<in> flags
               then h\<lparr>max_dsize := info_max_dsize info, dsize := info_dsize info\<rparr> else h)
      in if ok1 \<and> ok2 then Some (h\<lparr>entrysize := info_entrysize info\<rparr>) else None)"

definition hash_create ::
    "('k \<Rightarrow> uint32) \<Rightarrow> (nat \<Rightarrow> nat \<Rightarrow> bool) \<Rightarrow> (elem \<Rightarrow> ('k, 'v) HASHELEMENT) \<Rightarrow> nat \<Rightarrow> HASHCTL \<Rightarrow>
     hash_flag set \<Rightarrow> (('k, 'v) HTAB, unit) run" where
  "hash_create hashfn allocf memory nelem info flags =
     (if HASH_ELEM \<notin> flags \<or> info_keysize info = 0 \<or> info_entrysize info < info_keysize info then Crash
      else case hash_create_hdr info flags of
        None \<Rightarrow> Crash
      | Some h \<Rightarrow>
         (let T = \<lparr>hctl = h, dir = (\<lambda>_. None), heap = memory, brk = 0, hash = hashfn, alloc = allocf,
                   nreq = 0, isshared = HASH_SHARED_MEM \<in> flags, frozen = False, has_seq_scans = False\<rparr>;
              (ok, T) = init_htab T (int nelem)
          in if \<not> ok then Raise T HashInitFailed
             else let (ok, T) = (if HASH_SHARED_MEM \<in> flags \<or> int nelem < nelem_alloc (hctl T)
                                 then alloc_freelists (freelist_shares (IS_PARTITIONED (hctl T)) nelem) T
                                 else (True, T))
             in if \<not> ok then Raise T HashOutOfMemory
                else Done (if HASH_FIXED_SIZE \<in> flags
                           then T\<lparr>hctl := (hctl T)\<lparr>isfixed := True\<rparr>\<rparr> else T) ()))"

section \<open>Invariant\<close>

definition hdr_ok :: "HASHHDR \<Rightarrow> bool" where
  "hdr_ok h \<longleftrightarrow>
     ssize h = 2 ^ sshift h \<and>
     (\<exists>k < 32. low_mask h = mask k \<and> high_mask h = mask (Suc k)) \<and>
     low_mask h \<le> max_bucket h \<and> max_bucket h \<le> high_mask h \<and>
     int (unat (max_bucket h) div 2 ^ sshift h) < nsegs h \<and> nsegs h \<le> dsize h \<and> 0 < nelem_alloc h"

lemma hdr_okD:
  assumes "hdr_ok h"
  shows "ssize h = 2 ^ sshift h" "low_mask h \<le> max_bucket h" "max_bucket h \<le> high_mask h"
    "int (unat (max_bucket h) div 2 ^ sshift h) < nsegs h" "nsegs h \<le> dsize h" "0 < nelem_alloc h"
    "\<exists>k < 32. low_mask h = mask k \<and> high_mask h = mask (Suc k)"
  using assms unfolding hdr_ok_def by blast+

definition roots :: "HASHHDR \<Rightarrow> linkref set" where
  "roots h = bucket_ptr h ` {..unat (max_bucket h)} \<union> FreePtr ` {..<NUM_FREELISTS}"

definition used :: "HASHHDR \<Rightarrow> (linkref \<Rightarrow> elem list) \<Rightarrow> elem set" where
  "used h L = (\<Union>b \<in> {..unat (max_bucket h)}. set (L (bucket_ptr h b)))"

text \<open>
  \<open>htab_gen T L X d\<close>: the chains are \<open>L\<close>, the elements \<open>X\<close> are on none of them (an element
  between a freelist and a bucket), and the entry counts are off by \<open>d\<close>.
\<close>

definition htab_gen ::
    "('k, 'v) HTAB \<Rightarrow> (linkref \<Rightarrow> elem list) \<Rightarrow> elem set \<Rightarrow> (nat \<Rightarrow> int) \<Rightarrow> bool" where
  "htab_gen T L X d \<longleftrightarrow>
     hdr_ok (hctl T) \<and> (\<forall>s. int s < nsegs (hctl T) \<longrightarrow> dir T s \<noteq> None) \<and>
     X \<subseteq> {..<brk T} \<and> lists_ok (deref T) (roots (hctl T)) L ({..<brk T} - X) \<and>
     (\<forall>b \<le> unat (max_bucket (hctl T)). \<forall>e \<in> set (L (bucket_ptr (hctl T) b)).
        hashvalue (heap T e) = hash T (ekey (heap T e)) \<and>
        unat (calc_bucket (hctl T) (hashvalue (heap T e))) = b) \<and>
     inj_on (\<lambda>e. ekey (heap T e)) (used (hctl T) L) \<and>
     (\<forall>i < NUM_FREELISTS. nentries (freeLists (hctl T) i) =
        int (card {e \<in> used (hctl T) L. FREELIST_IDX (hctl T) (hashvalue (heap T e)) = i}) + d i)"

definition htab_ok :: "('k, 'v) HTAB \<Rightarrow> (linkref \<Rightarrow> elem list) \<Rightarrow> bool" where
  "htab_ok T L \<longleftrightarrow> htab_gen T L {} (\<lambda>_. 0)"

definition holds :: "('k, 'v) HTAB \<Rightarrow> (linkref \<Rightarrow> elem list) \<Rightarrow> ('k \<rightharpoonup> 'v) \<Rightarrow> bool" where
  "holds T L m \<longleftrightarrow>
     (\<forall>k v. m k = Some v \<longleftrightarrow> (\<exists>e \<in> used (hctl T) L. ekey (heap T e) = k \<and> edata (heap T e) = v))"

text \<open>\<open>hash_rep T m\<close>: the table is well formed and implements the map \<open>m\<close>.\<close>

definition hash_rep :: "('k, 'v) HTAB \<Rightarrow> ('k \<rightharpoonup> 'v) \<Rightarrow> bool" where
  "hash_rep T m \<longleftrightarrow> (\<exists>L. htab_ok T L \<and> holds T L m)"

section \<open>Memory\<close>

lemma deref_assign [simp]:
  "deref T q \<noteq> None \<Longrightarrow> deref (assign q v T) = (deref T)(q := Some v)"
proof
  fix r
  assume "deref T q \<noteq> None"
  then show "deref (assign q v T) r = ((deref T)(q := Some v)) r"
    by (cases q; cases r) (auto simp: set_free_def assign.simps)
qed

lemma deref_add_entries [simp]: "deref (add_entries i d T) r = deref T r"
  by (cases r) (auto simp: add_entries_def)

lemma deref_add_entries_fun [simp]: "deref (add_entries i d T) = deref T"
  by (rule ext) simp

lemma deref_nreq [simp]: "deref (T\<lparr>nreq := n\<rparr>) = deref T"
  by (rule ext) (case_tac x; simp)

lemma set_free_assign: "set_free i v T = assign (FreePtr i) v T"
  by (simp add: assign.simps)

text \<open>What writing links and counts leaves alone.\<close>

definition hdr_frame :: "HASHHDR \<Rightarrow> HASHHDR \<Rightarrow> bool" where
  "hdr_frame h h' \<longleftrightarrow> (\<exists>f. h' = h\<lparr>freeLists := f\<rparr>)"

definition tab_frame :: "('k, 'v) HTAB \<Rightarrow> ('k, 'v) HTAB \<Rightarrow> bool" where
  "tab_frame T T' \<longleftrightarrow>
     hdr_frame (hctl T) (hctl T') \<and> hash T' = hash T \<and> frozen T' = frozen T \<and>
     isshared T' = isshared T \<and> has_seq_scans T' = has_seq_scans T \<and>
     (\<forall>s. dir T' s = None \<longleftrightarrow> dir T s = None) \<and>
     (\<forall>e. hashvalue (heap T' e) = hashvalue (heap T e) \<and> ekey (heap T' e) = ekey (heap T e) \<and>
          edata (heap T' e) = edata (heap T e))"

lemma hdr_frameD:
  assumes "hdr_frame h h'"
  shows "roots h' = roots h" "used h' L = used h L" "calc_bucket h' = calc_bucket h"
    "bucket_ptr h' = bucket_ptr h" "hdr_ok h' = hdr_ok h" "FREELIST_IDX h' = FREELIST_IDX h"
    "IS_PARTITIONED h' = IS_PARTITIONED h" "isfixed h' = isfixed h" "nsegs h' = nsegs h"
    "max_bucket h' = max_bucket h" "nelem_alloc h' = nelem_alloc h" "dsize h' = dsize h"
    "sshift h' = sshift h"
  using assms
  by (auto simp: hdr_frame_def roots_def used_def calc_bucket_def bucket_ptr_def hdr_ok_def
      FREELIST_IDX_def IS_PARTITIONED_def fun_eq_iff Let_def)

lemma tab_frame_refl: "tab_frame T T"
  by (auto simp: tab_frame_def hdr_frame_def intro: exI [of _ "freeLists (hctl T)"])

lemma tab_frame_trans: "tab_frame T T' \<Longrightarrow> tab_frame T' T'' \<Longrightarrow> tab_frame T T''"
  unfolding tab_frame_def hdr_frame_def by force

lemma tab_frame_steps:
  "tab_frame T (assign q v T)" "tab_frame T (add_entries i d T)" "tab_frame T (T\<lparr>nreq := n\<rparr>)"
proof -
  show "tab_frame T (add_entries i d T)" "tab_frame T (T\<lparr>nreq := n\<rparr>)"
    using tab_frame_refl [of T] by (auto simp: tab_frame_def hdr_frame_def add_entries_def)
  show "tab_frame T (assign q v T)"
    using tab_frame_refl [of T] by (cases q) (auto simp: tab_frame_def hdr_frame_def set_free_def assign.simps)
qed

lemma htab_genD:
  assumes "htab_gen T L X d"
  shows "hdr_ok (hctl T)" "int s < nsegs (hctl T) \<Longrightarrow> dir T s \<noteq> None" "X \<subseteq> {..<brk T}"
    "lists_ok (deref T) (roots (hctl T)) L ({..<brk T} - X)"
    "b \<le> unat (max_bucket (hctl T)) \<Longrightarrow> e \<in> set (L (bucket_ptr (hctl T) b)) \<Longrightarrow>
      hashvalue (heap T e) = hash T (ekey (heap T e))"
    "b \<le> unat (max_bucket (hctl T)) \<Longrightarrow> e \<in> set (L (bucket_ptr (hctl T) b)) \<Longrightarrow>
      unat (calc_bucket (hctl T) (hashvalue (heap T e))) = b"
    "inj_on (\<lambda>e. ekey (heap T e)) (used (hctl T) L)"
    "i < NUM_FREELISTS \<Longrightarrow> nentries (freeLists (hctl T) i) =
      int (card {e \<in> used (hctl T) L. FREELIST_IDX (hctl T) (hashvalue (heap T e)) = i}) + d i"
  using assms unfolding htab_gen_def by blast+

lemma htab_genI:
  assumes "hdr_ok (hctl T)" "\<And>s. int s < nsegs (hctl T) \<Longrightarrow> dir T s \<noteq> None" "X \<subseteq> {..<brk T}"
    "lists_ok (deref T) (roots (hctl T)) L ({..<brk T} - X)"
    "\<And>b e. b \<le> unat (max_bucket (hctl T)) \<Longrightarrow> e \<in> set (L (bucket_ptr (hctl T) b)) \<Longrightarrow>
      hashvalue (heap T e) = hash T (ekey (heap T e)) \<and> unat (calc_bucket (hctl T) (hashvalue (heap T e))) = b"
    "inj_on (\<lambda>e. ekey (heap T e)) (used (hctl T) L)"
    "\<And>i. i < NUM_FREELISTS \<Longrightarrow> nentries (freeLists (hctl T) i) =
      int (card {e \<in> used (hctl T) L. FREELIST_IDX (hctl T) (hashvalue (heap T e)) = i}) + d i"
  shows "htab_gen T L X d"
  using assms unfolding htab_gen_def by blast

section \<open>Buckets\<close>

lemma bucket_ptr_simps [simp]:
  "bucket_ptr h b \<noteq> FreePtr i" "FreePtr i \<noteq> bucket_ptr h b" "bucket_ptr h b \<noteq> LinkPtr e"
  "LinkPtr e \<noteq> bucket_ptr h b"
  by (auto simp: bucket_ptr_def)

lemma bucket_ptr_inj: "hdr_ok h \<Longrightarrow> bucket_ptr h b = bucket_ptr h c \<longleftrightarrow> b = c"
proof
  assume h: "hdr_ok h" and eq: "bucket_ptr h b = bucket_ptr h c"
  have "nat (ssize h) = 2 ^ sshift h" using hdr_okD(1) [OF h] by (simp add: nat_power_eq)
  then have d: "b div 2 ^ sshift h = c div 2 ^ sshift h" and m: "b mod 2 ^ sshift h = c mod 2 ^ sshift h"
    using eq unfolding bucket_ptr_def by (auto simp: nat_power_eq)
  have "b = b div 2 ^ sshift h * 2 ^ sshift h + b mod 2 ^ sshift h" by (rule div_mult_mod_eq [symmetric])
  also have "\<dots> = c div 2 ^ sshift h * 2 ^ sshift h + c mod 2 ^ sshift h" by (simp only: d m)
  also have "\<dots> = c" by (rule div_mult_mod_eq)
  finally show "b = c" .
qed simp

lemma roots_memI [intro]:
  "b \<le> unat (max_bucket h) \<Longrightarrow> bucket_ptr h b \<in> roots h" "i < NUM_FREELISTS \<Longrightarrow> FreePtr i \<in> roots h"
  by (auto simp: roots_def)

lemma roots_iff:
  assumes "hdr_ok h"
  shows "bucket_ptr h b \<in> roots h \<longleftrightarrow> b \<le> unat (max_bucket h)" "FreePtr i \<in> roots h \<longleftrightarrow> i < NUM_FREELISTS"
  using bucket_ptr_inj [OF assms] by (auto simp: roots_def)

lemma used_upd_free [simp]: "used h (L(FreePtr i := xs)) = used h L"
  by (simp add: used_def)

lemma used_upd_bucket:
  assumes "hdr_ok h" "b \<le> unat (max_bucket h)"
  shows "used h (L(bucket_ptr h b := xs)) =
    (\<Union>c \<in> {..unat (max_bucket h)} - {b}. set (L (bucket_ptr h c))) \<union> set xs"
proof -
  have "(L(bucket_ptr h b := xs)) (bucket_ptr h c) = (if c = b then xs else L (bucket_ptr h c))" for c
    using bucket_ptr_inj [OF assms(1), of c b] by simp
  then show ?thesis using assms(2) by (auto simp: used_def split: if_splits)
qed

lemma calc_bucket_le: "hdr_ok h \<Longrightarrow> calc_bucket h hv \<le> max_bucket h"
proof -
  assume h: "hdr_ok h"
  have "(hv AND high_mask h) AND low_mask h \<le> low_mask h" by (simp add: word_and_le1)
  also have "low_mask h \<le> max_bucket h" using h by (rule hdr_okD)
  finally show ?thesis by (auto simp: calc_bucket_def Let_def)
qed

lemma FREELIST_IDX_less [simp]: "FREELIST_IDX h hv < NUM_FREELISTS"
  by (simp add: FREELIST_IDX_def NUM_FREELISTS_def)

lemma used_brk: "htab_gen T L X d \<Longrightarrow> used (hctl T) L \<subseteq> {..<brk T} - X"
proof -
  assume gen: "htab_gen T L X d"
  have "set (L (bucket_ptr (hctl T) b)) \<subseteq> {..<brk T} - X" if "b \<le> unat (max_bucket (hctl T))" for b
    by (rule lists_okD(4) [OF htab_genD(4) [OF gen] roots_memI(1) [OF that]])
  then show ?thesis unfolding used_def by blast
qed

lemma finite_used: "htab_gen T L X d \<Longrightarrow> finite (used (hctl T) L)"
  by (rule finite_subset [OF used_brk]) auto

lemma hash_initial_lookup_ok:
  assumes "htab_gen T L X d"
  shows "hash_initial_lookup T hv =
    Done T (unat (calc_bucket (hctl T) hv), bucket_ptr (hctl T) (unat (calc_bucket (hctl T) hv)))"
proof -
  let ?h = "hctl T"
  note h = htab_genD(1) [OF assms] and d = htab_genD(2) [OF assms]
  have "unat (calc_bucket ?h hv) \<le> unat (max_bucket ?h)"
    using calc_bucket_le [OF h] by (simp add: word_le_nat_alt)
  then have "unat (calc_bucket ?h hv) div 2 ^ sshift ?h \<le> unat (max_bucket ?h) div 2 ^ sshift ?h"
    by (rule div_le_mono)
  then have "int (unat (calc_bucket ?h hv) div 2 ^ sshift ?h) < nsegs ?h" "nsegs ?h \<le> dsize ?h"
    using hdr_okD(4,5) [OF h] by linarith+
  with d show ?thesis by (simp add: hash_initial_lookup_def Let_def)
qed

lemma chain_search_ok:
  "lchain (deref T) r xs \<Longrightarrow> chain_search T P r =
     Some (case find P xs of
        None \<Rightarrow> (ends r xs, None) | Some e \<Rightarrow> (ends r (takeWhile (\<lambda>x. \<not> P x) xs), Some e))"
proof (induction xs arbitrary: r)
  case Nil
  then show ?case by (subst chain_search.simps) simp
next
  case (Cons x xs)
  then show ?case by (subst chain_search.simps) (auto split: option.splits)
qed

lemma htab_gen_change:
  assumes gen: "htab_gen T L X d" and fr: "tab_frame T T'"
    and lists: "lists_ok (deref T') (roots (hctl T)) L' ({..<brk T'} - X')" and X': "X' \<subseteq> {..<brk T'}"
    and sub: "\<And>b. set (L' (bucket_ptr (hctl T) b)) \<subseteq> set (L (bucket_ptr (hctl T) b))"
    and cnt: "\<And>i. i < NUM_FREELISTS \<Longrightarrow> nentries (freeLists (hctl T') i) =
      int (card {e \<in> used (hctl T) L'. FREELIST_IDX (hctl T) (hashvalue (heap T e)) = i}) + d' i"
  shows "htab_gen T' L' X' d'"
proof -
  have h: "hdr_frame (hctl T) (hctl T')" using fr by (simp add: tab_frame_def)
  have "used (hctl T) L' \<subseteq> used (hctl T) L" using sub unfolding used_def by blast
  then have inj: "inj_on (\<lambda>e. ekey (heap T e)) (used (hctl T) L')"
    using gen unfolding htab_gen_def by (meson inj_on_subset)
  have k: "hashvalue (heap T' e) = hashvalue (heap T e)" "ekey (heap T' e) = ekey (heap T e)" for e
    using fr by (auto simp: tab_frame_def)
  have t: "hash T' = hash T" "dir T' s = None \<longleftrightarrow> dir T s = None" for s
    using fr by (auto simp: tab_frame_def)
  show ?thesis
  proof (rule htab_genI, unfold hdr_frameD [OF h] k t)
    show "hdr_ok (hctl T)" "X' \<subseteq> {..<brk T'}" "lists_ok (deref T') (roots (hctl T)) L' ({..<brk T'} - X')"
      "inj_on (\<lambda>e. ekey (heap T e)) (used (hctl T) L')"
      by (fact htab_genD(1) [OF gen] X' lists inj)+
    show "dir T s \<noteq> None" if "int s < nsegs (hctl T)" for s by (rule htab_genD(2) [OF gen that])
    show "nentries (freeLists (hctl T') i) =
      int (card {e \<in> used (hctl T) L'. FREELIST_IDX (hctl T) (hashvalue (heap T e)) = i}) + d' i"
      if "i < NUM_FREELISTS" for i by (rule cnt [OF that])
    fix b e
    assume b: "b \<le> unat (max_bucket (hctl T))" and e: "e \<in> set (L' (bucket_ptr (hctl T) b))"
    from e sub have "e \<in> set (L (bucket_ptr (hctl T) b))" by blast
    with htab_genD(5,6) [OF gen b] show "hashvalue (heap T e) = hash T (ekey (heap T e)) \<and>
        unat (calc_bucket (hctl T) (hashvalue (heap T e))) = b" by blast
  qed
qed

section \<open>Finding an entry\<close>

abbreviation matches :: "('k, 'v) HTAB \<Rightarrow> 'k \<Rightarrow> uint32 \<Rightarrow> elem \<Rightarrow> bool" where
  "matches T key hv e \<equiv> hashvalue (heap T e) = hv \<and> ekey (heap T e) = key"

definition home :: "('k, 'v) HTAB \<Rightarrow> 'k \<Rightarrow> linkref" where
  "home T key = bucket_ptr (hctl T) (unat (calc_bucket (hctl T) (hash T key)))"

lemma home_root: "htab_gen T L X d \<Longrightarrow> home T key \<in> roots (hctl T)"
  unfolding home_def using calc_bucket_le [OF htab_genD(1)] by (intro roots_memI) (simp add: word_le_nat_alt)

lemma home_chain: "htab_gen T L X d \<Longrightarrow> lchain (deref T) (home T key) (L (home T key))"
  by (rule lists_okD(1) [OF htab_genD(4) home_root])

lemma find_home:
  assumes "htab_gen T L X d"
  shows "find (matches T key (hash T key)) (L (home T key)) = Some e \<longleftrightarrow>
    e \<in> used (hctl T) L \<and> ekey (heap T e) = key"
proof -
  let ?P = "matches T key (hash T key)"
  note hok = htab_genD(1) [OF assms]
  have b: "unat (calc_bucket (hctl T) (hash T key)) \<le> unat (max_bucket (hctl T))"
    using calc_bucket_le [OF hok] by (simp add: word_le_nat_alt)
  have mem: "e \<in> set (L (home T key)) \<and> ?P e \<longleftrightarrow> e \<in> used (hctl T) L \<and> ekey (heap T e) = key" for e
  proof
    show "e \<in> used (hctl T) L \<and> ekey (heap T e) = key" if "e \<in> set (L (home T key)) \<and> ?P e"
      using that b by (auto simp: used_def home_def)
    assume e: "e \<in> used (hctl T) L \<and> ekey (heap T e) = key"
    then obtain c where c: "c \<le> unat (max_bucket (hctl T))" "e \<in> set (L (bucket_ptr (hctl T) c))"
      by (auto simp: used_def)
    from htab_genD(5,6) [OF assms c] e c show "e \<in> set (L (home T key)) \<and> ?P e"
      by (auto simp: home_def)
  qed
  have uniq: "e = e'" if "e \<in> set (L (home T key)) \<and> ?P e" "e' \<in> set (L (home T key)) \<and> ?P e'" for e e'
    using that htab_genD(7) [OF assms] unfolding mem inj_on_def by blast
  show ?thesis
  proof
    assume "find ?P (L (home T key)) = Some e"
    then show "e \<in> used (hctl T) L \<and> ekey (heap T e) = key"
      using find_Some_mem [of ?P "L (home T key)" e] mem [of e] by blast
  next
    assume e: "e \<in> used (hctl T) L \<and> ekey (heap T e) = key"
    then have "\<exists>x \<in> set (L (home T key)). ?P x" using mem by blast
    then obtain x where x: "find ?P (L (home T key)) = Some x"
      by (cases "find ?P (L (home T key))") (auto simp: find_None_iff)
    with e uniq [of x e] mem [of e] find_Some_mem [OF x] show "find ?P (L (home T key)) = Some e" by blast
  qed
qed

lemma holds_find:
  assumes "htab_gen T L X d" "holds T L m"
  shows "m key = map_option (\<lambda>e. edata (heap T e)) (find (matches T key (hash T key)) (L (home T key)))"
proof (cases "find (matches T key (hash T key)) (L (home T key))")
  case None
  then have "\<not> (\<exists>e \<in> used (hctl T) L. ekey (heap T e) = key)" using find_home [OF assms(1)] by force
  with None assms(2) show ?thesis by (cases "m key") (auto simp: holds_def)
next
  case (Some e)
  with find_home [OF assms(1)] assms(2) show ?thesis unfolding holds_def by fastforce
qed

lemma matches_eq: "(\<lambda>e. hashvalue (heap T e) = hv \<and> ekey (heap T e) = key) = matches T key hv"
  by (rule refl)

section \<open>Taking an element from the freelists\<close>

lemma brk_steps [simp]: "brk (assign q v T) = brk T" "brk (add_entries i d T) = brk T"
  by (cases q; simp add: set_free_def assign.simps) (simp add: add_entries_def)

lemma nentries_steps [simp]:
  "nentries (freeLists (hctl (assign q v T)) i) = nentries (freeLists (hctl T) i)"
  "nentries (freeLists (hctl (add_entries j d T)) i) = nentries (freeLists (hctl T) i) + (if i = j then d else 0)"
  by (cases q; simp add: set_free_def assign.simps) (simp add: add_entries_def)

lemma link_elements_same:
  "hashvalue (link_elements f n h e) = hashvalue (h e)" "ekey (link_elements f n h e) = ekey (h e)"
  "edata (link_elements f n h e) = edata (h e)"
  "e < f \<or> f + n \<le> e \<Longrightarrow> link_elements f n h e = h e"
  by (induction n) (auto simp: Let_def)

lemma link_elements_link:
  "k < n \<Longrightarrow> 0 < k \<Longrightarrow> link (link_elements f n h (f + k)) = Some (f + k - 1)"
  by (induction n) (auto simp: Let_def)

lemma htab_gen_nreq: "htab_gen T L X d \<Longrightarrow> htab_gen (T\<lparr>nreq := n\<rparr>) L X d"
  using htab_gen_change [OF _ tab_frame_steps(3), of T L X d n L X d] htab_genD(3,4,8) by fastforce

lemma element_alloc_links:
  fixes T :: "('k, 'v) HTAB"
  assumes gen: "htab_gen T L X d" and i: "i < NUM_FREELISTS" and n: "0 < n"
    and al: "element_alloc T n i = (True, T')"
  shows "tab_frame T T'" "brk T' = brk T + n"
    "deref T' (FreePtr i) = Some (Some (brk T + (n - 1)))"
    "\<And>k. k < n - 1 \<Longrightarrow> deref T' (LinkPtr (brk T + Suc k)) = Some (Some (brk T + k))"
    "deref T' (LinkPtr (brk T)) = deref T (FreePtr i)"
    "\<And>q. q \<noteq> FreePtr i \<Longrightarrow> q \<notin> LinkPtr ` {brk T..<brk T + n} \<Longrightarrow> deref T' q = deref T q"
    "nentries (freeLists (hctl T') j) = nentries (freeLists (hctl T) j)"
proof -
  let ?f = "brk T"
  define T0 where "T0 = T\<lparr>nreq := Suc (nreq T), heap := link_elements ?f n (heap T), brk := ?f + n\<rparr>"
  have T': "T' = set_free i (Some (?f + (n - 1))) (assign (LinkPtr ?f) (freeList (freeLists (hctl T) i)) T0)"
    using al n by (auto simp: element_alloc_def request_def Let_def T0_def split: if_splits)
  have fr0: "tab_frame T T0"
    using tab_frame_refl [of T] by (simp add: tab_frame_def T0_def link_elements_same)
  show "tab_frame T T'" unfolding T' set_free_assign
    by (rule tab_frame_trans [OF tab_frame_trans [OF fr0 tab_frame_steps(1)] tab_frame_steps(1)])
  show "brk T' = ?f + n" by (simp add: T' set_free_assign T0_def)
  have D': "deref T' = (deref T0)(LinkPtr ?f := deref T (FreePtr i), FreePtr i := Some (Some (?f + (n - 1))))"
    unfolding T' set_free_assign by (simp add: T0_def)
  show "deref T' (FreePtr i) = Some (Some (?f + (n - 1)))" "deref T' (LinkPtr ?f) = deref T (FreePtr i)"
    by (simp_all add: D')
  show "deref T' (LinkPtr (?f + Suc k)) = Some (Some (?f + k))" if "k < n - 1" for k
    using link_elements_link [of "Suc k" n ?f "heap T"] that by (simp add: D' T0_def)
  show "deref T' q = deref T q" if "q \<noteq> FreePtr i" "q \<notin> LinkPtr ` {?f..<?f + n}" for q
  proof (cases q)
    case (LinkPtr e)
    with that have "e < ?f \<or> ?f + n \<le> e" by (auto simp: image_iff)
    with LinkPtr n link_elements_same(4) [of e ?f n "heap T"] show ?thesis by (auto simp: D' T0_def)
  qed (use that in \<open>auto simp: D' T0_def\<close>)
  show "nentries (freeLists (hctl T') j) = nentries (freeLists (hctl T) j)"
    unfolding T' set_free_assign by (simp add: T0_def)
qed

lemma element_alloc_ok:
  assumes ok: "htab_ok T L" and i: "i < NUM_FREELISTS" and n: "0 < n"
    and al: "element_alloc T n i = (True, T')"
  shows "htab_ok T' (L(FreePtr i := rev [brk T..<brk T + n] @ L (FreePtr i)))"
proof -
  have gen: "htab_gen T L {} (\<lambda>_. 0)" using ok by (simp add: htab_ok_def)
  note lists = htab_genD(4) [OF gen, simplified]
  note new = element_alloc_links [OF gen i n al]
  have r: "FreePtr i \<in> roots (hctl T)" using i by blast
  have fs: "set (L (FreePtr i)) \<subseteq> {..<brk T}" using lists_okD(4) [OF lists r] .
  have c: "lchain (deref T') (LinkPtr (brk T)) (L (FreePtr i))"
  proof (cases "L (FreePtr i)")
    case Nil
    with lists_okD(1) [OF lists r] new(5) show ?thesis by simp
  next
    case (Cons y ys)
    have "lchain (deref T') (LinkPtr y) ys = lchain (deref T) (LinkPtr y) ys"
      using fs Cons by (intro lchain_cong ballI new(6)) auto
    with Cons lists_okD(1) [OF lists r] new(5) show ?thesis by simp
  qed
  have "lchain (deref T') (FreePtr i) (rev [brk T..<brk T + Suc (n - 1)] @ L (FreePtr i))"
    by (rule lchain_consecutive [OF new(3,4) c])
  then have "lists_ok (deref T') (roots (hctl T)) (L(FreePtr i := rev [brk T..<brk T + n] @ L (FreePtr i)))
      (({..<brk T} - set (L (FreePtr i))) \<union> set (rev [brk T..<brk T + n] @ L (FreePtr i)))"
    using n fs lists_okD(2) [OF lists r] new(6)
    by (intro lists_ok_change [OF lists r]) auto
  moreover have "({..<brk T} - set (L (FreePtr i))) \<union> set (rev [brk T..<brk T + n] @ L (FreePtr i)) =
      {..<brk T'} - {}"
    using fs new(2) by auto
  ultimately show ?thesis
    unfolding htab_ok_def
    using htab_gen_change [OF gen new(1)] new(7) htab_genD(8) [OF gen] by simp
qed

lemma take_free:
  assumes gen: "htab_gen T L {} (\<lambda>_. 0)" and ij: "i < NUM_FREELISTS" "j < NUM_FREELISTS"
    and head: "freeList (freeLists (hctl T) j) = Some e"
  defines "T' \<equiv> add_entries i 1 (set_free j (link (heap T e)) T)"
  shows "\<exists>L'. htab_gen T' L' {e} (\<lambda>k. if k = i then 1 else 0) \<and>
    (\<forall>b. L' (bucket_ptr (hctl T) b) = L (bucket_ptr (hctl T) b)) \<and>
    used (hctl T) L' = used (hctl T) L" "tab_frame T T'" "e < brk T" "brk T' = brk T"
proof -
  note lists = htab_genD(4) [OF gen, simplified]
  have r: "FreePtr j \<in> roots (hctl T)" using ij(2) by blast
  obtain fs where fs: "L (FreePtr j) = [] @ e # fs"
    using lists_okD(1) [OF lists r] head by (cases "L (FreePtr j)") auto
  have D': "deref T' = (deref T)(ends (FreePtr j) [] := deref T (LinkPtr e))"
    by (simp add: T'_def set_free_assign)
  have l: "lists_ok (deref T') (roots (hctl T)) (L(FreePtr j := fs)) ({..<brk T} - {e})"
    using lists_ok_remove [OF lists r fs] unfolding D' by simp
  show fr: "tab_frame T T'" and brk: "brk T' = brk T"
    unfolding T'_def set_free_assign
    by (auto intro: tab_frame_trans tab_frame_steps)
  show e: "e < brk T" using lists_okD(4) [OF lists r] fs by auto
  have "htab_gen T' (L(FreePtr j := fs)) {e} (\<lambda>k. if k = i then 1 else 0)"
    using l e by (intro htab_gen_change [OF gen fr])
      (auto simp: brk T'_def set_free_assign htab_genD(8) [OF gen])
  then show "\<exists>L'. htab_gen T' L' {e} (\<lambda>k. if k = i then 1 else 0) \<and>
    (\<forall>b. L' (bucket_ptr (hctl T) b) = L (bucket_ptr (hctl T) b)) \<and>
    used (hctl T) L' = used (hctl T) L" by (intro exI [of _ "L(FreePtr j := fs)"]) simp
qed

text \<open>
  The two ways in which \<open>get_hash_entry\<close> ends. It fails only when the allocator refuses and,
  in a partitioned table, no freelist has an element left.
\<close>

definition entry_taken ::
    "('k, 'v) HTAB \<Rightarrow> (linkref \<Rightarrow> elem list) \<Rightarrow> nat \<Rightarrow> elem \<Rightarrow> ('k, 'v) HTAB \<Rightarrow> bool" where
  "entry_taken T L i e T' \<longleftrightarrow>
     (\<exists>L'. htab_gen T' L' {e} (\<lambda>k. if k = i then 1 else 0) \<and>
        (\<forall>b. L' (bucket_ptr (hctl T) b) = L (bucket_ptr (hctl T) b)) \<and> used (hctl T) L' = used (hctl T) L) \<and>
     tab_frame T T' \<and> brk T \<le> brk T' \<and> (isfixed (hctl T) \<longrightarrow> brk T' = brk T)"

lemma borrow_order_set:
  "i < NUM_FREELISTS \<Longrightarrow> insert i (set (borrow_order i)) = {..<NUM_FREELISTS}"
proof -
  assume i: "i < NUM_FREELISTS"
  have "j \<in> insert i (set (borrow_order i))" if "j < NUM_FREELISTS" for j
  proof (cases "j = i")
    case False
    define d where "d = (j + NUM_FREELISTS - i) mod NUM_FREELISTS"
    have "(i + d) mod NUM_FREELISTS = j"
      using i that by (simp add: d_def mod_add_right_eq)
    moreover have "d \<in> {1..<NUM_FREELISTS}"
    proof -
      have "d \<noteq> 0" using False \<open>(i + d) mod NUM_FREELISTS = j\<close> i by (cases "d = 0") auto
      then show ?thesis by (auto simp: d_def NUM_FREELISTS_def)
    qed
    ultimately show ?thesis by (auto simp: borrow_order_def)
  qed simp
  moreover have "set (borrow_order i) \<subseteq> {..<NUM_FREELISTS}"
    by (auto simp: borrow_order_def NUM_FREELISTS_def)
  ultimately show ?thesis using i by auto
qed

lemma get_hash_entry_free:
  assumes ok: "htab_ok T L" and i: "i < NUM_FREELISTS" and head: "freeList (freeLists (hctl T) i) = Some e"
  shows "\<exists>T'. get_hash_entry T i = Some (Some e, T') \<and> entry_taken T L i e T'"
proof -
  have gen: "htab_gen T L {} (\<lambda>_. 0)" using ok by (simp add: htab_ok_def)
  show ?thesis
    using take_free [OF gen i i head] head
    by (subst get_hash_entry.simps) (simp add: entry_taken_def)
qed

lemma element_alloc_refused:
  assumes "element_alloc T n i = (False, T')"
  shows "T' = T \<or> T' = T\<lparr>nreq := Suc (nreq T)\<rparr>"
  using assms by (auto simp: element_alloc_def request_def Let_def split: if_splits)

lemma entry_taken_after_alloc:
  assumes i: "i < NUM_FREELISTS" and al: "element_alloc T n i = (True, T1)" and n: "0 < n"
    and ok: "htab_ok T L"
    and taken: "entry_taken T1 (L(FreePtr i := xs)) i e T'"
  shows "entry_taken T L i e T'"
proof -
  have gen: "htab_gen T L {} (\<lambda>_. 0)" using ok by (simp add: htab_ok_def)
  note new = element_alloc_links [OF gen i n al]
  have h: "hdr_frame (hctl T) (hctl T1)" using new(1) by (simp add: tab_frame_def)
  have "\<not> isfixed (hctl T)" using al by (auto simp: element_alloc_def)
  with taken new(2) tab_frame_trans [OF new(1), of T'] show ?thesis
    unfolding entry_taken_def hdr_frameD [OF h] by auto
qed

lemma get_hash_entry_ok:
  assumes ok: "htab_ok T L" and i: "i < NUM_FREELISTS"
  shows "(\<exists>e T'. get_hash_entry T i = Some (Some e, T') \<and> entry_taken T L i e T') \<or>
    (\<exists>T'. get_hash_entry T i = Some (None, T') \<and> htab_ok T' L \<and> tab_frame T T' \<and> brk T' = brk T \<and>
       (IS_PARTITIONED (hctl T) \<longrightarrow> (\<forall>j < NUM_FREELISTS. freeList (freeLists (hctl T) j) = None)))"
proof (cases "freeList (freeLists (hctl T) i)")
  case (Some e)
  with get_hash_entry_free [OF ok i] show ?thesis by blast
next
  case None
  let ?n = "nat (nelem_alloc (hctl T))"
  have gen: "htab_gen T L {} (\<lambda>_. 0)" using ok by (simp add: htab_ok_def)
  have n: "0 < ?n" using hdr_okD(6) [OF htab_genD(1) [OF gen]] by simp
  obtain a T1 where al: "element_alloc T ?n i = (a, T1)" by (cases "element_alloc T ?n i")
  show ?thesis
  proof (cases a)
    case True
    with al have al: "element_alloc T ?n i = (True, T1)" by simp
    let ?L = "L(FreePtr i := rev [brk T..<brk T + ?n] @ L (FreePtr i))"
    have g: "get_hash_entry T i = get_hash_entry T1 i"
      using None al by (subst get_hash_entry.simps) simp
    have "freeList (freeLists (hctl T1) i) = Some (brk T + (?n - 1))"
      using element_alloc_links(3) [OF gen i n al] by simp
    from get_hash_entry_free [OF element_alloc_ok [OF ok i n al] i this]
      entry_taken_after_alloc [OF i al n ok] g show ?thesis by metis
  next
    case False
    with al have al: "element_alloc T ?n i = (False, T1)" by simp
    have T1: "htab_ok T1 L" "tab_frame T T1" "hctl T1 = hctl T" "heap T1 = heap T" "brk T1 = brk T"
      using element_alloc_refused [OF al] ok htab_gen_nreq [OF gen] tab_frame_refl [of T]
        tab_frame_steps(3) [of T] by (auto simp: htab_ok_def)
    have gen1: "htab_gen T1 L {} (\<lambda>_. 0)" using T1(1) by (simp add: htab_ok_def)
    show ?thesis
    proof (cases "IS_PARTITIONED (hctl T)")
      case False
      with None al T1 show ?thesis by (subst (1 2) get_hash_entry.simps) simp
    next
      case part: True
      show ?thesis
      proof (cases "find (\<lambda>j. freeList (freeLists (hctl T) j) \<noteq> None) (borrow_order i)")
        case none: None
        with None al T1 part have "get_hash_entry T i = Some (None, T1)"
          by (subst get_hash_entry.simps) simp
        moreover have "\<forall>j < NUM_FREELISTS. freeList (freeLists (hctl T) j) = None"
          using none None borrow_order_set [OF i] by (auto simp: find_None_iff)
        ultimately show ?thesis using T1 by blast
      next
        case (Some j)
        then have j: "j < NUM_FREELISTS" and "freeList (freeLists (hctl T) j) \<noteq> None"
          using find_Some_mem [OF Some] borrow_order_set [OF i] by auto
        then obtain e where e: "freeList (freeLists (hctl T) j) = Some e" by auto
        let ?T = "add_entries i 1 (set_free j (link (heap T e)) T1)"
        have "get_hash_entry T i = Some (Some e, ?T)"
          using None al T1 part Some e by (subst get_hash_entry.simps) simp
        moreover have "entry_taken T L i e ?T"
          using take_free [OF gen1 i j, of e] e T1 tab_frame_trans [OF T1(2)]
          unfolding entry_taken_def by auto
        ultimately show ?thesis by blast
      qed
    qed
  qed
qed

section \<open>Linking and unlinking an entry\<close>

lemma card_insert_filter:
  "finite A \<Longrightarrow> e \<notin> A \<Longrightarrow>
    card {x \<in> insert e A. f x = i} = card {x \<in> A. f x = i} + (if f e = i then 1 else 0)"
proof -
  assume A: "finite A" "e \<notin> A"
  have "{x \<in> insert e A. f x = i} = (if f e = i then insert e {x \<in> A. f x = i} else {x \<in> A. f x = i})"
    by auto
  with A show ?thesis by simp
qed

text \<open>The three writes that put a taken element \<open>e\<close> at the end of a chain, with its key.\<close>

definition enter_at :: "linkref \<Rightarrow> elem \<Rightarrow> 'k \<Rightarrow> uint32 \<Rightarrow> ('k, 'v) HTAB \<Rightarrow> ('k, 'v) HTAB" where
  "enter_at prev e key hv T =
     (let T = assign (LinkPtr e) None (assign prev (Some e) T)
      in T\<lparr>heap := (heap T)(e := (heap T e)\<lparr>hashvalue := hv, ekey := key\<rparr>)\<rparr>)"

lemma deref_set_key:
  "deref (T\<lparr>heap := (heap T)(e := (heap T e)\<lparr>hashvalue := hv, ekey := key\<rparr>)\<rparr>) = deref T"
proof
  fix q show "deref (T\<lparr>heap := (heap T)(e := (heap T e)\<lparr>hashvalue := hv, ekey := key\<rparr>)\<rparr>) q = deref T q"
    by (cases q) auto
qed

lemma enter_at_memory:
  assumes "deref T prev \<noteq> None"
  shows "deref (enter_at prev e key hv T) = (deref T)(prev := Some (Some e), LinkPtr e := Some None)"
  using assms unfolding enter_at_def Let_def deref_set_key by simp

lemma enter_at_fields:
  fixes T :: "('k, 'v) HTAB"
  defines "T' \<equiv> (\<lambda>prev e key hv. enter_at prev e key hv T)"
  shows "hdr_frame (hctl T) (hctl (T' prev e key hv))" "brk (T' prev e key hv) = brk T"
    "hash (T' prev e key hv) = hash T" "dir (T' prev e key hv) s = None \<longleftrightarrow> dir T s = None"
    "hashvalue (heap (T' prev e key hv) x) = (if x = e then hv else hashvalue (heap T x))"
    "ekey (heap (T' prev e key hv) x) = (if x = e then key else ekey (heap T x))"
    "edata (heap (T' prev e key hv) x) = edata (heap T x)"
    "nentries (freeLists (hctl (T' prev e key hv)) i) = nentries (freeLists (hctl T) i)"
    "isshared (T' prev e key hv) = isshared T" "frozen (T' prev e key hv) = frozen T"
    "has_seq_scans (T' prev e key hv) = has_seq_scans T"
proof -
  let ?T = "assign (LinkPtr e) None (assign prev (Some e) T)"
  have fr: "tab_frame T ?T" by (rule tab_frame_trans [OF tab_frame_steps(1) tab_frame_steps(1)])
  have T': "T' prev e key hv = ?T\<lparr>heap := (heap ?T)(e := (heap ?T e)\<lparr>hashvalue := hv, ekey := key\<rparr>)\<rparr>"
    by (simp add: T'_def enter_at_def Let_def)
  show "hdr_frame (hctl T) (hctl (T' prev e key hv))" "brk (T' prev e key hv) = brk T"
    "hash (T' prev e key hv) = hash T" "dir (T' prev e key hv) s = None \<longleftrightarrow> dir T s = None"
    "hashvalue (heap (T' prev e key hv) x) = (if x = e then hv else hashvalue (heap T x))"
    "ekey (heap (T' prev e key hv) x) = (if x = e then key else ekey (heap T x))"
    "edata (heap (T' prev e key hv) x) = edata (heap T x)"
    "nentries (freeLists (hctl (T' prev e key hv)) i) = nentries (freeLists (hctl T) i)"
    "isshared (T' prev e key hv) = isshared T" "frozen (T' prev e key hv) = frozen T"
    "has_seq_scans (T' prev e key hv) = has_seq_scans T"
    unfolding T' using fr by (auto simp: tab_frame_def)
qed

lemma home_frame: "tab_frame T T' \<Longrightarrow> home T' key = home T key"
  using hdr_frameD(3,4) [of "hctl T" "hctl T'"] by (simp add: tab_frame_def home_def)

lemma enter_ok:
  fixes T :: "('k, 'v) HTAB"
  assumes gen: "htab_gen T L {e} (\<lambda>k. if k = FREELIST_IDX (hctl T) (hash T key) then 1 else 0)"
    and fresh: "\<And>x. x \<in> used (hctl T) L \<Longrightarrow> ekey (heap T x) \<noteq> key"
  defines "T' \<equiv> enter_at (ends (home T key) (L (home T key))) e key (hash T key) T"
  shows "htab_ok T' (L(home T key := L (home T key) @ [e]))"
    "used (hctl T') (L(home T key := L (home T key) @ [e])) = insert e (used (hctl T) L)"
    "e \<notin> used (hctl T) L"
proof -
  let ?h = "hctl T" and ?r = "home T key" and ?hv = "hash T key"
  let ?L = "L(?r := L ?r @ [e])" and ?b = "unat (calc_bucket (hctl T) (hash T key))"
  note hok = htab_genD(1) [OF gen] and lists = htab_genD(4) [OF gen]
  have r: "?r \<in> roots ?h" by (rule home_root [OF gen])
  have b: "?b \<le> unat (max_bucket ?h)" using calc_bucket_le [OF hok] by (simp add: word_le_nat_alt)
  have ePS: "e < brk T" using htab_genD(3) [OF gen] by auto
  show enot: "e \<notin> used ?h L" using used_brk [OF gen] by auto
  have "deref T (ends ?r (L ?r)) = Some None"
    using home_chain [OF gen, of key] by (simp add: lchain_def)
  then have D: "deref T' = (deref T)(ends ?r (L ?r) := Some (Some e), LinkPtr e := Some None)"
    unfolding T'_def by (subst enter_at_memory) auto
  have h: "hdr_frame ?h (hctl T')" by (simp add: T'_def enter_at_fields)
  note hs = hdr_frameD [OF h]
  have fT: "brk T' = brk T" "hash T' = hash T" "dir T' s = None \<longleftrightarrow> dir T s = None"
    "hashvalue (heap T' x) = (if x = e then ?hv else hashvalue (heap T x))"
    "ekey (heap T' x) = (if x = e then key else ekey (heap T x))"
    "nentries (freeLists (hctl T') i) = nentries (freeLists ?h i)" for s x i
    by (simp_all add: T'_def enter_at_fields)
  have L': "?L (bucket_ptr ?h c) = (if c = ?b then L (bucket_ptr ?h c) @ [e] else L (bucket_ptr ?h c))" for c
    using bucket_ptr_inj [OF hok, of c ?b] by (simp add: home_def)
  have U: "used ?h ?L = insert e (used ?h L)"
    using b unfolding used_def L' by (auto split: if_splits)
  then show "used (hctl T') ?L = insert e (used ?h L)" by (simp add: hs)
  have fin: "finite (used ?h L)" by (rule finite_used [OF gen])
  have "htab_gen T' ?L {} (\<lambda>_. 0)"
  proof (rule htab_genI, unfold hs fT U)
    show "lists_ok (deref T') (roots ?h) ?L ({..<brk T} - {})"
      using lists_ok_append [OF lists r, of e] ePS unfolding D by (simp add: insert_absorb)
    show "hdr_ok ?h" by (rule hok)
    show "dir T s \<noteq> None" if "int s < nsegs ?h" for s by (rule htab_genD(2) [OF gen that])
    show "inj_on (\<lambda>x. if x = e then key else ekey (heap T x)) (insert e (used ?h L))"
    proof -
      have "inj_on (\<lambda>x. if x = e then key else ekey (heap T x)) (used ?h L) \<longleftrightarrow>
          inj_on (\<lambda>x. ekey (heap T x)) (used ?h L)"
        by (rule inj_on_cong) (use enot in auto)
      then show ?thesis using htab_genD(7) [OF gen] enot fresh by (auto simp: image_iff)
    qed
    show "nentries (freeLists ?h i) =
        int (card {x \<in> insert e (used ?h L). FREELIST_IDX ?h (if x = e then ?hv else hashvalue (heap T x)) = i}) + 0"
      if "i < NUM_FREELISTS" for i
    proof -
      have "{x \<in> used ?h L. FREELIST_IDX ?h (if x = e then ?hv else hashvalue (heap T x)) = i} =
          {x \<in> used ?h L. FREELIST_IDX ?h (hashvalue (heap T x)) = i}" using enot by auto
      with htab_genD(8) [OF gen that] show ?thesis
        unfolding card_insert_filter [OF fin enot] by auto
    qed
    fix c x
    assume c: "c \<le> unat (max_bucket ?h)" and x: "x \<in> set (?L (bucket_ptr ?h c))"
    show "(if x = e then ?hv else hashvalue (heap T x)) = hash T (if x = e then key else ekey (heap T x)) \<and>
        unat (calc_bucket ?h (if x = e then ?hv else hashvalue (heap T x))) = c"
    proof (cases "x = e")
      case True
      have "e \<notin> set (L (bucket_ptr ?h c))" using enot c by (auto simp: used_def)
      with x True have "c = ?b" unfolding L' by (auto split: if_splits)
      with True show ?thesis by simp
    next
      case False
      with x have "x \<in> set (L (bucket_ptr ?h c))" unfolding L' by (auto split: if_splits)
      with False htab_genD(5,6) [OF gen c] show ?thesis by simp
    qed
  qed simp
  then show "htab_ok T' ?L" by (simp add: htab_ok_def)
qed

text \<open>The four writes that take an entry off its chain and put it onto a freelist.\<close>

definition remove_at :: "linkref \<Rightarrow> elem \<Rightarrow> nat \<Rightarrow> ('k, 'v) HTAB \<Rightarrow> ('k, 'v) HTAB" where
  "remove_at prev e i T =
     (let T = add_entries i (- 1) T;
          T = assign prev (link (heap T e)) T;
          T = assign (LinkPtr e) (freeList (freeLists (hctl T) i)) T
      in set_free i (Some e) T)"

lemma remove_at_frame: "tab_frame T (remove_at prev e i T)" "brk (remove_at prev e i T) = brk T"
  "nentries (freeLists (hctl (remove_at prev e i T)) j) =
    nentries (freeLists (hctl T) j) + (if j = i then - 1 else 0)"
  unfolding remove_at_def Let_def set_free_assign
    apply (rule tab_frame_trans [OF tab_frame_trans [OF tab_frame_trans [OF tab_frame_steps(2)
            tab_frame_steps(1)] tab_frame_steps(1)] tab_frame_steps(1)])
   apply simp
  apply simp
  done

lemma remove_at_memory:
  fixes T :: "('k, 'v) HTAB" and e :: elem
  assumes "deref T prev \<noteq> None"
  defines "D1 \<equiv> (deref T)(prev := deref T (LinkPtr e))"
  shows "deref (remove_at prev e i T) = D1(LinkPtr e := D1 (FreePtr i), FreePtr i := Some (Some e))"
proof -
  define T1 where "T1 = assign prev (link (heap T e)) (add_entries i (- 1) T)"
  have l: "link (heap (add_entries i (- 1) T) e) = link (heap T e)" by (simp add: add_entries_def)
  have T1: "deref T1 = D1" using assms by (simp add: T1_def)
  have "remove_at prev e i T =
      assign (FreePtr i) (Some e) (assign (LinkPtr e) (freeList (freeLists (hctl T1) i)) T1)"
    by (simp add: remove_at_def Let_def T1_def set_free_assign l)
  then have "deref (remove_at prev e i T) =
      (deref T1)(LinkPtr e := deref T1 (FreePtr i), FreePtr i := Some (Some e))" by simp
  then show ?thesis by (simp only: T1)
qed

lemma remove_ok:
  assumes gen: "htab_gen T L {} (\<lambda>_. 0)" and r: "home T key \<in> roots (hctl T)"
    and L: "L (home T key) = xs @ e # ys" and hv: "hashvalue (heap T e) = hash T key"
  defines "i \<equiv> FREELIST_IDX (hctl T) (hash T key)"
  defines "T' \<equiv> remove_at (ends (home T key) xs) e i T"
  shows "\<exists>L'. htab_ok T' L' \<and> used (hctl T') L' = used (hctl T) L - {e}"
    "0 < nentries (freeLists (hctl T) i)"
proof -
  let ?h = "hctl T" and ?r = "home T key" and ?b = "unat (calc_bucket (hctl T) (hash T key))"
  let ?L1 = "L(?r := xs @ ys)"
  let ?L = "?L1(FreePtr i := e # ?L1 (FreePtr i))"
  note hok = htab_genD(1) [OF gen] and lists = htab_genD(4) [OF gen, simplified]
  have b: "?b \<le> unat (max_bucket ?h)" using calc_bucket_le [OF hok] by (simp add: word_le_nat_alt)
  have c: "lchain (deref T) ?r (L ?r)" "distinct (L ?r)" by (rule lists_okD [OF lists r])+
  then have "deref T (ends ?r xs) \<noteq> None" by (simp add: L lchain_append)
  note D = remove_at_memory [OF this, of e i, folded T'_def]
  have fr: "tab_frame T T'" and brk: "brk T' = brk T" and cnt: "\<And>j. nentries (freeLists (hctl T') j) =
      nentries (freeLists ?h j) + (if j = i then - 1 else 0)"
    unfolding T'_def by (rule remove_at_frame)+
  have i: "i < NUM_FREELISTS" by (simp add: i_def)
  have e: "e < brk T" using lists_okD(4) [OF lists r] by (auto simp: L)
  have "lists_ok (deref T') (roots ?h) ?L (insert e ({..<brk T} - {e}))"
    unfolding D by (rule lists_ok_push [OF lists_ok_remove [OF lists r L]]) (use i in auto)
  then have l: "lists_ok (deref T') (roots ?h) ?L ({..<brk T'} - {})"
    using e by (simp add: brk insert_absorb)
  have L': "?L (bucket_ptr ?h c) = (if c = ?b then xs @ ys else L (bucket_ptr ?h c))" for c
    using bucket_ptr_inj [OF hok, of c ?b] by (simp add: home_def)
  have sub: "set (?L (bucket_ptr ?h c)) \<subseteq> set (L (bucket_ptr ?h c))" for c
    unfolding L' using L by (auto simp: home_def)
  have emem: "e \<in> used ?h L" using b L by (auto simp: used_def home_def intro!: bexI [of _ ?b])
  have only: "e \<notin> set (L (bucket_ptr ?h c))" if "c \<le> unat (max_bucket ?h)" "c \<noteq> ?b" for c
    using lists_ok_disjoint [OF lists r roots_memI(1) [OF that(1)], of e] that(2) L
      bucket_ptr_inj [OF hok, of ?b c] by (auto simp: home_def)
  have U: "used ?h ?L = used ?h L - {e}"
  proof
    show "used ?h ?L \<subseteq> used ?h L - {e}"
      using sub c(2) only unfolding used_def L' by (fastforce simp: L split: if_splits)
    show "used ?h L - {e} \<subseteq> used ?h ?L"
      using L unfolding used_def L' by (fastforce simp: home_def split: if_splits)
  qed
  have fin: "finite (used ?h L)" by (rule finite_used [OF gen])
  have card: "card {x \<in> used ?h L. FREELIST_IDX ?h (hashvalue (heap T x)) = j} =
      card {x \<in> used ?h L - {e}. FREELIST_IDX ?h (hashvalue (heap T x)) = j} + (if j = i then 1 else 0)" for j
    using card_insert_filter [of "used ?h L - {e}" e "\<lambda>x. FREELIST_IDX ?h (hashvalue (heap T x))" j] fin emem hv
    by (auto simp: insert_absorb i_def)
  have "htab_gen T' ?L {} (\<lambda>_. 0)"
  proof (rule htab_gen_change [OF gen fr l _ sub])
    fix j assume "j < NUM_FREELISTS"
    from htab_genD(8) [OF gen this] show "nentries (freeLists (hctl T') j) =
        int (card {x \<in> used ?h ?L. FREELIST_IDX ?h (hashvalue (heap T x)) = j}) + 0"
      unfolding U cnt card by simp
  qed simp
  then show "\<exists>L'. htab_ok T' L' \<and> used (hctl T') L' = used (hctl T) L - {e}"
    using U hdr_frameD(2) [of ?h "hctl T'"] fr by (auto simp: htab_ok_def tab_frame_def)
  show "0 < nentries (freeLists ?h i)"
    using htab_genD(8) [OF gen i] card [of i] by simp
qed

section \<open>Splitting a bucket\<close>

lemma calc_bucket_nat:
  assumes "low_mask h = mask k" "high_mask h = mask (Suc k)"
  shows "unat (calc_bucket h hv) =
    (let x = unat hv mod 2 ^ Suc k in if unat (max_bucket h) < x then x mod 2 ^ k else x)"
proof -
  have "unat (w AND mask n) = take_bit n (unat w)" for w :: uint32 and n
    by (simp only: take_bit_eq_mask [symmetric] unsigned_take_bit_eq)
  then have "unat (w AND mask n) = unat w mod 2 ^ n" for w :: uint32 and n
    by (simp only: take_bit_eq_mod)
  then show ?thesis
    by (simp add: calc_bucket_def assms Let_def word_less_nat_alt del: power_Suc)
qed

text \<open>Linear hashing: after the masks are adjusted, only the split bucket sends entries elsewhere.\<close>

lemma nat_split_bucket:
  fixes x M k :: nat
  assumes M: "2 ^ k - 1 \<le> M" "M \<le> 2 ^ Suc k - 1"
  defines "calc \<equiv> (\<lambda>k M. let y = x mod 2 ^ Suc k in if M < y then y mod 2 ^ k else y)"
  defines "k' \<equiv> if M = 2 ^ Suc k - 1 then Suc k else k"
  shows "calc k' (Suc M) = calc k M \<or> calc k' (Suc M) = Suc M \<and> calc k M = Suc M mod 2 ^ k"
proof (cases "M = 2 ^ Suc k - 1")
  case True
  then have M': "Suc M = 2 ^ Suc k" by simp
  have "x mod 2 ^ Suc k < 2 ^ Suc k" by simp
  then have "\<not> 2 ^ Suc k - 1 < x mod 2 ^ Suc k" by linarith
  then have old: "calc k M = x mod 2 ^ Suc k" unfolding calc_def Let_def True by (simp del: power_Suc)
  have "Suc M mod 2 ^ k = 0" unfolding M' by simp
  moreover have "x mod 2 ^ Suc (Suc k) mod 2 ^ Suc k = x mod 2 ^ Suc k"
    by (simp add: mod_mod_cancel le_imp_power_dvd)
  ultimately show ?thesis
    using True old unfolding k'_def calc_def Let_def M'
    by (cases "x mod 2 ^ Suc (Suc k) < 2 ^ Suc k"; cases "x mod 2 ^ Suc (Suc k) = 2 ^ Suc k")
      (auto simp del: power_Suc)
next
  case False
  define y where "y = x mod 2 ^ Suc k"
  have eqs: "calc k' (Suc M) = (if Suc M < y then y mod 2 ^ k else y)"
    "calc k M = (if M < y then y mod 2 ^ k else y)"
    using False unfolding k'_def calc_def Let_def y_def by simp_all
  consider "Suc M < y" | "y = Suc M" | "y \<le> M" by linarith
  then show ?thesis unfolding eqs by cases simp_all
qed

lemma unat_word_small: "n < 2 ^ 31 \<Longrightarrow> unat (word_of_nat n :: uint32) = n"
  by (simp add: unat_of_nat)

lemma unat_mask32: "n \<le> 31 \<Longrightarrow> unat (mask n :: uint32) = 2 ^ n - 1"
proof -
  assume "n \<le> 31"
  then have "uint (mask n :: uint32) = mask n"
    unfolding uint_mask_eq by simp
  then have "unat (mask n :: uint32) = nat (2 ^ n - 1)" by (simp only: unat_eq_nat_uint mask_eq_exp_minus_1)
  also have "\<dots> = 2 ^ n - 1" by (simp add: nat_diff_distrib nat_power_eq)
  finally show ?thesis .
qed

lemma word_Suc_unat: "word_of_nat (Suc (unat w)) = (w :: uint32) + 1"
  by simp

lemma expand_masks_masks:
  assumes h: "low_mask h = mask k" "high_mask h = mask (Suc k)" "Suc k \<le> 31"
    and M: "unat (max_bucket h) \<le> 2 ^ Suc k - 1" "Suc (unat (max_bucket h)) < 2 ^ 31"
  defines "h' \<equiv> expand_masks (Suc (unat (max_bucket h))) h"
  defines "k' \<equiv> if unat (max_bucket h) = 2 ^ Suc k - 1 then Suc k else k"
  shows "low_mask h' = mask k'" "high_mask h' = mask (Suc k')" "unat (max_bucket h') = Suc (unat (max_bucket h))"
proof -
  let ?M = "unat (max_bucket h)"
  note nb = unat_word_small [OF M(2)] and mask = unat_mask32 [OF h(3)]
  have g: "b < Suc a \<longleftrightarrow> a = b" if "a \<le> b" for a b :: nat using that by auto
  have cr: "mask (Suc k) < (word_of_nat (Suc ?M) :: uint32) \<longleftrightarrow> ?M = 2 ^ Suc k - 1"
    unfolding word_less_nat_alt nb mask by (rule g [OF M(1)])
  have big: "word_of_nat (Suc ?M) OR (mask (Suc k) :: uint32) = mask (Suc (Suc k))" if "?M = 2 ^ Suc k - 1"
  proof -
    have "Suc (2 ^ Suc k - 1) = (2 :: nat) ^ Suc k" by simp
    then have "(word_of_nat (Suc ?M) :: uint32) = word_of_nat (2 ^ Suc k)" by (simp only: that)
    also have "\<dots> = 2 ^ Suc k" by (simp only: of_nat_power of_nat_numeral)
    finally show ?thesis by (simp only: mask_Suc_exp [of "Suc k"])
  qed
  have "unat (max_bucket h + 1) = Suc ?M" using nb unfolding word_Suc_unat .
  then show "unat (max_bucket h') = Suc ?M" by (simp add: h'_def expand_masks_def Let_def)
  show "low_mask h' = mask k'" "high_mask h' = mask (Suc k')"
  proof -
    have hm: "high_mask (h\<lparr>max_bucket := x\<rparr>) = mask (Suc k)" "low_mask (h\<lparr>max_bucket := x\<rparr>) = mask k" for x
      using h by simp_all
    have h': "h' = (if ?M = 2 ^ Suc k - 1
        then h\<lparr>max_bucket := max_bucket h + 1, low_mask := mask (Suc k), high_mask := mask (Suc (Suc k))\<rparr>
        else h\<lparr>max_bucket := max_bucket h + 1\<rparr>)"
      using big unfolding h'_def expand_masks_def Let_def hm cr by (intro if_cong refl) (simp only:)
    show "low_mask h' = mask k'" "high_mask h' = mask (Suc k')"
      unfolding h' k'_def by (cases "?M = 2 ^ Suc k - 1"; simp add: h)+
  qed
qed

text \<open>The elements still to be dealt out, from the current one on.\<close>

primrec remaining :: "linkmem \<Rightarrow> elem option \<Rightarrow> elem list \<Rightarrow> bool" where
  "remaining D c [] \<longleftrightarrow> c = None"
| "remaining D c (x # xs) \<longleftrightarrow> c = Some x \<and> lchain D (LinkPtr x) xs"

lemma remaining_chain: "D r = Some c \<Longrightarrow> lchain D r xs \<longleftrightarrow> remaining D c xs"
  by (cases xs) auto

lemma remaining_next:
  assumes "remaining (deref T) (Some x) (x # xs)" "q \<notin> LinkPtr ` set (x # xs)"
  shows "remaining ((deref T)(q := v)) (link (heap T x)) xs"
proof -
  have "lchain (deref T) (LinkPtr x) xs" using assms(1) by simp
  then have "remaining (deref T) (link (heap T x)) xs" by (simp add: remaining_chain)
  moreover have "remaining ((deref T)(q := v)) c xs = remaining (deref T) c xs" for c
    using assms(2) by (cases xs) (auto simp: lchain_upd)
  ultimately show ?thesis by simp
qed

definition dealt ::
    "('k, 'v) HTAB \<Rightarrow> linkref \<Rightarrow> linkref \<Rightarrow> elem list \<Rightarrow> elem list \<Rightarrow> ('k, 'v) HTAB \<Rightarrow> bool" where
  "dealt T r n ys zs T' \<longleftrightarrow>
     lchain (deref T') r ys \<and> lchain (deref T') n zs \<and> tab_frame T T' \<and> brk T' = brk T \<and>
     (\<forall>i. nentries (freeLists (hctl T') i) = nentries (freeLists (hctl T) i)) \<and>
     (\<forall>q. q \<noteq> r \<longrightarrow> q \<noteq> n \<longrightarrow> q \<notin> LinkPtr ` (set ys \<union> set zs) \<longrightarrow> deref T' q = deref T q)"

lemma dealt_step:
  assumes "dealt (assign q v T) r n ys zs T'" "deref T q \<noteq> None" "q \<in> {r, n} \<union> LinkPtr ` (set ys \<union> set zs)"
  shows "dealt T r n ys zs T'"
  using assms tab_frame_trans [OF tab_frame_steps(1) [of T q v], of T']
  unfolding dealt_def by auto

lemma lseg_step:
  "lseg D r ys \<Longrightarrow> distinct ys \<Longrightarrow> r \<notin> range LinkPtr \<Longrightarrow> lseg (D(ends r ys := Some (Some x))) r (ys @ [x])"
  unfolding lseg_append by (subst lseg_upd_end) auto

lemma relocate_ok:
  fixes T :: "('k, 'v) HTAB"
  defines "P \<equiv> (\<lambda>T :: ('k, 'v) HTAB. \<lambda>b e. unat (calc_bucket (hctl T) (hashvalue (heap T e))) = b)"
  assumes "lseg (deref T) r ys" "lseg (deref T) n zs" "distinct (ys @ zs @ xs)" "r \<noteq> n"
    "r \<notin> range LinkPtr" "n \<notin> range LinkPtr" "deref T (ends r ys) \<noteq> None" "deref T (ends n zs) \<noteq> None"
    "remaining (deref T) c xs"
  shows "\<exists>T'. relocate T b (ends r ys) (ends n zs) c = Some T' \<and>
    dealt T r n (ys @ filter (P T b) xs) (zs @ filter (\<lambda>e. \<not> P T b e) xs) T'"
  using assms(2-)
proof (induction xs arbitrary: T ys zs c)
  case Nil
  let ?T = "assign (ends n zs) None (assign (ends r ys) None T)"
  have ne: "ends r ys \<noteq> ends n zs"
    using Nil.prems(3-6) ends_in [of r ys] ends_in [of n zs] by auto
  have D: "deref ?T = (deref T)(ends r ys := Some None, ends n zs := Some None)"
    using Nil.prems(7,8) ne by simp
  have "lseg (deref ?T) r ys \<and> lseg (deref ?T) n zs"
  proof
    have out: "ends n zs \<notin> insert r (LinkPtr ` set ys)" "ends r ys \<notin> insert n (LinkPtr ` set zs)"
      using Nil.prems(3-6) ends_in [of r ys] ends_in [of n zs] by auto
    have own: "r \<notin> LinkPtr ` set ys" "n \<notin> LinkPtr ` set zs" "distinct ys" "distinct zs"
      using Nil.prems by auto
    show "lseg (deref ?T) r ys"
      unfolding D lseg_upd [OF out(1)] lseg_upd_end [OF own(3,1)] by (rule Nil.prems)
    show "lseg (deref ?T) n zs"
      unfolding D lseg_upd_end [OF own(4,2)] lseg_upd [OF out(2)] by (rule Nil.prems)
  qed
  then have "dealt T r n ys zs ?T"
    using ne ends_in [of r ys] ends_in [of n zs] tab_frame_trans [OF tab_frame_steps(1) tab_frame_steps(1)]
    unfolding dealt_def lchain_def by (auto simp: D)
  then show ?case using Nil.prems(9) by (subst relocate.simps) simp
next
  case (Cons x xs)
  have c: "c = Some x" "lchain (deref T) (LinkPtr x) xs" using Cons.prems(9) by auto
  have notin: "ends r ys \<notin> LinkPtr ` set (x # xs)" "ends n zs \<notin> LinkPtr ` set (x # xs)"
    "ends n zs \<notin> insert r (LinkPtr ` set ys)" "ends r ys \<notin> insert n (LinkPtr ` set zs)"
    using Cons.prems(3-6) ends_in [of r ys] ends_in [of n zs] by auto
  have same: "P (assign q v T) b = P T b" for q v
    using tab_frame_steps(1) [of T q v] hdr_frameD(3) [of "hctl T" "hctl (assign q v T)"]
    by (simp add: P_def fun_eq_iff tab_frame_def)
  note rem = remaining_next [OF Cons.prems(9) [unfolded c(1)]]
  show ?case
  proof (cases "P T b x")
    case True
    let ?T = "assign (ends r ys) (Some x) T"
    have D: "deref ?T = (deref T)(ends r ys := Some (Some x))" using Cons.prems(7) by simp
    have "\<exists>T'. relocate ?T b (ends r (ys @ [x])) (ends n zs) (link (heap T x)) = Some T' \<and>
        dealt ?T r n ((ys @ [x]) @ filter (P ?T b) xs) (zs @ filter (\<lambda>e. \<not> P ?T b e) xs) T'"
    proof (rule Cons.IH)
      show "lseg (deref ?T) r (ys @ [x])" unfolding D by (rule lseg_step) (use Cons.prems in auto)
      show "lseg (deref ?T) n zs" unfolding D lseg_upd [OF notin(4)] by (rule Cons.prems)
      show "remaining (deref ?T) (link (heap T x)) xs" unfolding D by (rule rem [OF notin(1)])
      show "deref ?T (ends n zs) \<noteq> None" "deref ?T (ends r (ys @ [x])) \<noteq> None"
        using Cons.prems(8) by (auto simp: D)
    qed (use Cons.prems in auto)
    then obtain T' where "relocate ?T b (LinkPtr x) (ends n zs) (link (heap T x)) = Some T'"
      "dealt ?T r n ((ys @ [x]) @ filter (P T b) xs) (zs @ filter (\<lambda>e. \<not> P T b e) xs) T'"
      unfolding same by auto
    moreover from this have "dealt T r n ((ys @ [x]) @ filter (P T b) xs) (zs @ filter (\<lambda>e. \<not> P T b e) xs) T'"
      by (elim dealt_step) (use Cons.prems(7) ends_in [of r ys] in auto)
    ultimately show ?thesis using True c by (subst relocate.simps) (auto simp: P_def Let_def)
  next
    case False
    let ?T = "assign (ends n zs) (Some x) T"
    have D: "deref ?T = (deref T)(ends n zs := Some (Some x))" using Cons.prems(8) by simp
    have "\<exists>T'. relocate ?T b (ends r ys) (ends n (zs @ [x])) (link (heap T x)) = Some T' \<and>
        dealt ?T r n (ys @ filter (P ?T b) xs) ((zs @ [x]) @ filter (\<lambda>e. \<not> P ?T b e) xs) T'"
    proof (rule Cons.IH)
      show "lseg (deref ?T) n (zs @ [x])" unfolding D by (rule lseg_step) (use Cons.prems in auto)
      show "lseg (deref ?T) r ys" unfolding D lseg_upd [OF notin(3)] by (rule Cons.prems)
      show "remaining (deref ?T) (link (heap T x)) xs" unfolding D by (rule rem [OF notin(2)])
      show "deref ?T (ends r ys) \<noteq> None" "deref ?T (ends n (zs @ [x])) \<noteq> None"
        using Cons.prems(7) by (auto simp: D)
    qed (use Cons.prems in auto)
    then obtain T' where "relocate ?T b (ends r ys) (LinkPtr x) (link (heap T x)) = Some T'"
      "dealt ?T r n (ys @ filter (P T b) xs) ((zs @ [x]) @ filter (\<lambda>e. \<not> P T b e) xs) T'"
      unfolding same by auto
    moreover from this have "dealt T r n (ys @ filter (P T b) xs) ((zs @ [x]) @ filter (\<lambda>e. \<not> P T b e) xs) T'"
      by (elim dealt_step) (use Cons.prems(8) ends_in [of n zs] in auto)
    ultimately show ?thesis using False c by (subst relocate.simps) (auto simp: P_def Let_def)
  qed
qed

lemma lists_ok_cong:
  assumes "lists_ok D R L U" "\<And>q. q \<in> R \<union> LinkPtr ` U \<Longrightarrow> D' q = D q"
  shows "lists_ok D' R L U"
proof -
  have "lchain D' r (L r)" if "r \<in> R" for r
  proof -
    have "lchain D' r (L r) = lchain D r (L r)"
      using assms(2) lists_okD(4) [OF assms(1) that] that by (intro lchain_cong) auto
    then show ?thesis using lists_okD(1) [OF assms(1) that] by simp
  qed
  with assms(1) show ?thesis by (auto simp: lists_ok_def)
qed

text \<open>Growing the directory and its segments leaves everything reachable alone.\<close>

definition grown :: "('k, 'v) HTAB \<Rightarrow> ('k, 'v) HTAB \<Rightarrow> bool" where
  "grown T T' \<longleftrightarrow>
     heap T' = heap T \<and> hash T' = hash T \<and> brk T' = brk T \<and> isshared T' = isshared T \<and>
     frozen T' = frozen T \<and> has_seq_scans T' = has_seq_scans T \<and>
     (\<exists>n d. hctl T' = (hctl T)\<lparr>nsegs := n, dsize := d\<rparr> \<and> nsegs (hctl T) \<le> n \<and> n \<le> d) \<and>
     (\<forall>s. int s < nsegs (hctl T) \<longrightarrow> dir T' s = dir T s) \<and>
     (\<forall>s. int s < nsegs (hctl T') \<longrightarrow> dir T' s \<noteq> None)"

lemma grownD:
  assumes "grown T T'"
  shows "roots (hctl T') = roots (hctl T)" "used (hctl T') L = used (hctl T) L"
    "calc_bucket (hctl T') = calc_bucket (hctl T)" "bucket_ptr (hctl T') = bucket_ptr (hctl T)"
    "FREELIST_IDX (hctl T') = FREELIST_IDX (hctl T)" "IS_PARTITIONED (hctl T') = IS_PARTITIONED (hctl T)"
    "isfixed (hctl T') = isfixed (hctl T)" "max_bucket (hctl T') = max_bucket (hctl T)"
    "sshift (hctl T') = sshift (hctl T)" "low_mask (hctl T') = low_mask (hctl T)"
    "high_mask (hctl T') = high_mask (hctl T)" "freeLists (hctl T') = freeLists (hctl T)"
    "ssize (hctl T') = ssize (hctl T)" "nelem_alloc (hctl T') = nelem_alloc (hctl T)"
    "nsegs (hctl T) \<le> nsegs (hctl T')" "nsegs (hctl T') \<le> dsize (hctl T')"
  using assms
  by (auto simp: grown_def roots_def used_def calc_bucket_def bucket_ptr_def FREELIST_IDX_def
      IS_PARTITIONED_def fun_eq_iff Let_def)

lemma grown_hdr_ok: "grown T T' \<Longrightarrow> hdr_ok (hctl T) \<Longrightarrow> hdr_ok (hctl T')"
proof -
  assume gr: "grown T T'" and hok: "hdr_ok (hctl T)"
  have "int (unat (max_bucket (hctl T)) div 2 ^ sshift (hctl T)) < nsegs (hctl T')"
    using hdr_okD(4) [OF hok] grownD(15) [OF gr] by linarith
  then show ?thesis
    unfolding hdr_ok_def grownD [OF gr] by (intro conjI hdr_okD(1-3,6,7) [OF hok] grownD(16) [OF gr])
qed

lemma root_segment:
  assumes "hdr_ok h" "b \<le> unat (max_bucket h)"
  shows "int (b div 2 ^ sshift h) < nsegs h"
  using hdr_okD(4) [OF assms(1)] div_le_mono [OF assms(2), of "2 ^ sshift h"] by linarith

lemma grown_ok:
  assumes gen: "htab_gen T L X d" and gr: "grown T T'"
  shows "htab_gen T' L X d"
proof -
  note hok = htab_genD(1) [OF gen]
  have t: "heap T' = heap T" "hash T' = hash T" "brk T' = brk T" using gr by (auto simp: grown_def)
  have D: "deref T' q = deref T q" if q: "q \<in> roots (hctl T) \<union> LinkPtr ` ({..<brk T} - X)" for q
  proof (cases q)
    case (BucketPtr s n)
    then obtain b where "b \<le> unat (max_bucket (hctl T))" "q = bucket_ptr (hctl T) b"
      using q by (auto simp: roots_def)
    then have "int s < nsegs (hctl T)" using root_segment [OF hok] BucketPtr by (auto simp: bucket_ptr_def)
    with gr BucketPtr show ?thesis by (simp add: grown_def)
  qed (use t grownD(12) [OF gr] in auto)
  show ?thesis
  proof (rule htab_genI, unfold grownD [OF gr] t)
    show "lists_ok (deref T') (roots (hctl T)) L ({..<brk T} - X)"
      by (rule lists_ok_cong [OF htab_genD(4) [OF gen] D])
    show "hdr_ok (hctl T')" by (rule grown_hdr_ok [OF gr hok])
    show "X \<subseteq> {..<brk T}" "inj_on (\<lambda>e. ekey (heap T e)) (used (hctl T) L)"
      by (rule htab_genD(3) [OF gen] htab_genD(7) [OF gen])+
    show "dir T' s \<noteq> None" if "int s < nsegs (hctl T')" for s using gr that by (simp add: grown_def)
    show "nentries (freeLists (hctl T) i) =
        int (card {e \<in> used (hctl T) L. FREELIST_IDX (hctl T) (hashvalue (heap T e)) = i}) + d i"
      if "i < NUM_FREELISTS" for i by (rule htab_genD(8) [OF gen that])
    show "hashvalue (heap T e) = hash T (ekey (heap T e)) \<and>
        unat (calc_bucket (hctl T) (hashvalue (heap T e))) = b"
      if "b \<le> unat (max_bucket (hctl T))" "e \<in> set (L (bucket_ptr (hctl T) b))" for b e
      using htab_genD(5,6) [OF gen that] by blast
  qed
qed

lemma grown_refl:
  assumes "htab_gen T L X d"
  shows "grown T T" "grown T (T\<lparr>nreq := n\<rparr>)"
proof -
  have "\<exists>n d. hctl T = (hctl T)\<lparr>nsegs := n, dsize := d\<rparr> \<and> nsegs (hctl T) \<le> n \<and> n \<le> d"
  proof (intro exI conjI)
    show "hctl T = (hctl T)\<lparr>nsegs := nsegs (hctl T), dsize := dsize (hctl T)\<rparr>" by simp
  qed (use hdr_okD(5) [OF htab_genD(1) [OF assms]] in simp_all)
  then show "grown T T" "grown T (T\<lparr>nreq := n\<rparr>)"
    using htab_genD(2) [OF assms] by (simp_all add: grown_def)
qed

lemma grown_I:
  assumes "heap T' = heap T" "hash T' = hash T" "brk T' = brk T" "isshared T' = isshared T"
    "frozen T' = frozen T" "has_seq_scans T' = has_seq_scans T"
    "hctl T' = (hctl T)\<lparr>nsegs := n, dsize := d\<rparr>" "nsegs (hctl T) \<le> n" "n \<le> d"
    "\<And>s. int s < nsegs (hctl T) \<Longrightarrow> dir T' s = dir T s" "\<And>s. int s < n \<Longrightarrow> dir T' s \<noteq> None"
  shows "grown T T'"
  unfolding grown_def using assms by (intro conjI exI [of _ n] exI [of _ d]) auto

lemma dir_realloc_grown:
  assumes gen: "htab_gen T L X e" and al: "dir_realloc T = (ok, T')"
  shows "grown T T' \<and> nsegs (hctl T') = nsegs (hctl T) \<and> (ok \<longrightarrow> dsize (hctl T') = 2 * dsize (hctl T))"
proof (cases "max_dsize (hctl T) = NO_MAX_DSIZE \<and> alloc T (nreq T) (8 * nat (2 * dsize (hctl T)))")
  case True
  let ?T = "T\<lparr>nreq := Suc (nreq T), dir := \<lambda>s. if s < nat (dsize (hctl T)) then dir T s else None,
     hctl := (hctl T)\<lparr>dsize := 2 * dsize (hctl T)\<rparr>\<rparr>"
  have T': "T' = ?T" "ok" using True al by (auto simp: dir_realloc_def request_def Let_def cong: if_cong)
  note hok = hdr_okD(4,5) [OF htab_genD(1) [OF gen]]
  have "grown T ?T"
    by (rule grown_I [where n = "nsegs (hctl T)" and d = "2 * dsize (hctl T)"])
      (use hok htab_genD(2) [OF gen] in auto)
  with T' show ?thesis by simp
next
  case False
  with al grown_refl [OF gen] show ?thesis
    by (auto simp: dir_realloc_def request_def Let_def split: if_splits)
qed

lemma expand_segment_ok:
  assumes gen: "htab_gen T L X d" and sn: "new_segnum = Suc (unat (max_bucket (hctl T))) div 2 ^ sshift (hctl T)"
    and ex: "expand_segment new_segnum T = (ok, T')"
  shows "grown T T'" "ok \<Longrightarrow> int new_segnum < nsegs (hctl T')"
proof -
  let ?h = "hctl T"
  note hok = htab_genD(1) [OF gen] and segs = htab_genD(2) [OF gen]
  have "new_segnum \<le> Suc (unat (max_bucket ?h) div 2 ^ sshift ?h)"
    unfolding sn by (simp add: div_Suc)
  then have le: "int new_segnum \<le> nsegs ?h" using hdr_okD(4) [OF hok] by linarith
  have pos: "0 < nsegs ?h" "nsegs ?h \<le> dsize ?h" using hdr_okD(4,5) [OF hok] by linarith+
  have "grown T T' \<and> (ok \<longrightarrow> int new_segnum < nsegs (hctl T'))"
  proof (cases "int new_segnum < nsegs ?h")
    case True
    with ex grown_refl(1) [OF gen] show ?thesis by (simp add: expand_segment_def)
  next
    case False
    then have eq: "int new_segnum = nsegs ?h" using le by simp
    obtain ok1 T1 where al: "(if int new_segnum \<ge> dsize ?h then dir_realloc T else (True, T)) = (ok1, T1)"
      by (cases "if int new_segnum \<ge> dsize ?h then dir_realloc T else (True, T)") auto
    have g1: "grown T T1" and room: "ok1 \<Longrightarrow> nsegs ?h < dsize (hctl T1)" and n1: "nsegs (hctl T1) = nsegs ?h"
      using al grown_refl(1) [OF gen] dir_realloc_grown [OF gen, of ok1 T1] pos eq
      by (auto split: if_splits)
    show ?thesis
    proof (cases ok1)
      case False
      with ex eq al g1 show ?thesis by (simp add: expand_segment_def)
    next
      case True
      obtain seg T2 where s: "seg_alloc T1 = (seg, T2)" by (cases "seg_alloc T1")
      then have T2: "T2 = T1\<lparr>nreq := Suc (nreq T1)\<rparr>"
        by (auto simp: seg_alloc_def request_def Let_def split: if_splits)
      have "grown T T2" using g1 unfolding T2 grown_def by simp
      moreover have "grown T (T2\<lparr>dir := (dir T2)(new_segnum := Some x),
          hctl := (hctl T2)\<lparr>nsegs := nsegs (hctl T2) + 1\<rparr>\<rparr>)" for x
      proof -
        obtain n d where nd: "hctl T1 = ?h\<lparr>nsegs := n, dsize := d\<rparr>" using g1 by (auto simp: grown_def)
        then have "n = nsegs ?h" "d = dsize (hctl T1)" using n1 by simp_all
        show ?thesis
          by (rule grown_I [where n = "nsegs ?h + 1" and d = "dsize (hctl T1)"])
            (use g1 nd n1 room [OF True] eq in \<open>auto simp: T2 grown_def\<close>)
      qed
      ultimately have "grown T T2" "grown T (T2\<lparr>dir := (dir T2)(new_segnum := Some x),
          hctl := (hctl T2)\<lparr>nsegs := nsegs (hctl T2) + 1\<rparr>\<rparr>)" for x by blast+
      with ex eq al s True n1 show ?thesis
        by (cases seg) (auto simp: expand_segment_def T2)
    qed
  qed
  then show "grown T T'" "ok \<Longrightarrow> int new_segnum < nsegs (hctl T')" by simp_all
qed

lemma expand_masks_fields:
  "bucket_ptr (expand_masks nb h) = bucket_ptr h" "FREELIST_IDX (expand_masks nb h) = FREELIST_IDX h"
  "freeLists (expand_masks nb h) = freeLists h" "nsegs (expand_masks nb h) = nsegs h"
  "dsize (expand_masks nb h) = dsize h" "sshift (expand_masks nb h) = sshift h"
  "ssize (expand_masks nb h) = ssize h" "nelem_alloc (expand_masks nb h) = nelem_alloc h"
  "isfixed (expand_masks nb h) = isfixed h" "IS_PARTITIONED (expand_masks nb h) = IS_PARTITIONED h"
  by (auto simp: expand_masks_def Let_def bucket_ptr_def FREELIST_IDX_def IS_PARTITIONED_def fun_eq_iff)

lemma expand_masks_ok:
  assumes hok: "hdr_ok h" and M: "Suc (unat (max_bucket h)) < 2 ^ 31"
    and seg: "int (Suc (unat (max_bucket h)) div 2 ^ sshift h) < nsegs h"
  defines "h' \<equiv> expand_masks (Suc (unat (max_bucket h))) h"
  defines "ob \<equiv> unat (word_of_nat (Suc (unat (max_bucket h))) AND low_mask h)"
  shows "hdr_ok h'" "unat (max_bucket h') = Suc (unat (max_bucket h))" "ob \<le> unat (max_bucket h)"
    "unat (calc_bucket h' hv) = unat (calc_bucket h hv) \<or>
     unat (calc_bucket h' hv) = Suc (unat (max_bucket h)) \<and> unat (calc_bucket h hv) = ob"
proof -
  let ?M = "unat (max_bucket h)"
  obtain k where k: "k < 32" "low_mask h = mask k" "high_mask h = mask (Suc k)"
    using hdr_okD(7) [OF hok] by blast
  have low: "unat (low_mask h) \<le> ?M" and high: "?M \<le> unat (high_mask h)"
    using hdr_okD(2,3) [OF hok] by (simp_all add: word_le_nat_alt)
  have k31: "k \<le> 30"
  proof (rule ccontr)
    assume "\<not> k \<le> 30"
    then have "k = 31" using k(1) by simp
    then have "unat (low_mask h) = 2 ^ 31 - 1" using unat_mask32 [of 31] k(2) by simp
    with low M show False by simp
  qed
  have lo: "2 ^ k - 1 \<le> ?M" and hi: "?M \<le> 2 ^ Suc k - 1"
    using low high unat_mask32 [of k] unat_mask32 [of "Suc k"] k31 unfolding k by (simp_all del: power_Suc)
  define k' where "k' = (if ?M = 2 ^ Suc k - 1 then Suc k else k)"
  have m: "low_mask h' = mask k'" "high_mask h' = mask (Suc k')" "unat (max_bucket h') = Suc ?M"
    unfolding h'_def k'_def by (rule expand_masks_masks [OF k(2,3) _ hi M]; use k31 in simp)+
  then show "unat (max_bucket h') = Suc ?M" by simp
  have k'31: "Suc k' \<le> 31"
  proof (cases "?M = 2 ^ Suc k - 1")
    case True
    then have "2 ^ Suc k < (2 :: nat) ^ 31" using M by simp
    then have "Suc k < 31" by (rule power_less_imp_less_exp [rotated]) simp
    with True show ?thesis by (simp add: k'_def)
  qed (use k31 in \<open>simp add: k'_def\<close>)
  have ob: "ob = Suc ?M mod 2 ^ k"
    unfolding ob_def k(2) using unat_word_small [OF M]
    by (simp only: take_bit_eq_mask [symmetric] unsigned_take_bit_eq) (simp only: take_bit_eq_mod)
  have "Suc ?M mod 2 ^ k < 2 ^ k" by simp
  then show "ob \<le> ?M" unfolding ob using lo by linarith
  have lo': "2 ^ k' - 1 \<le> Suc ?M" and hi': "Suc ?M \<le> 2 ^ Suc k' - 1"
    using lo hi by (auto simp: k'_def)
  show "hdr_ok h'"
    unfolding hdr_ok_def
  proof (intro conjI)
    show "ssize h' = 2 ^ sshift h'" "nsegs h' \<le> dsize h'" "0 < nelem_alloc h'"
      using hdr_okD(1,5,6) [OF hok] by (simp_all only: h'_def expand_masks_fields)
    show "\<exists>k < 32. low_mask h' = mask k \<and> high_mask h' = mask (Suc k)"
      using m(1,2) k'31 by (intro exI [of _ k']) simp
    show "low_mask h' \<le> max_bucket h'"
      unfolding word_le_nat_alt m unat_mask32 [OF Suc_leD [OF k'31]] by (rule lo')
    show "max_bucket h' \<le> high_mask h'"
      unfolding word_le_nat_alt m unat_mask32 [OF k'31] by (rule hi')
    show "int (unat (max_bucket h') div 2 ^ sshift h') < nsegs h'"
      unfolding m using seg by (simp only: h'_def expand_masks_fields)
  qed
  show "unat (calc_bucket h' hv) = unat (calc_bucket h hv) \<or>
     unat (calc_bucket h' hv) = Suc ?M \<and> unat (calc_bucket h hv) = ob"
    using nat_split_bucket [OF lo hi, of "unat hv"] m(3)
    unfolding calc_bucket_nat [OF k(2,3)] calc_bucket_nat [OF m(1,2)] ob k'_def by simp
qed

lemma expand_relocate:
  fixes T :: "('k, 'v) HTAB"
  assumes gen: "htab_gen T L {} d" and M: "Suc (unat (max_bucket (hctl T))) < 2 ^ 31"
    and seg: "int (Suc (unat (max_bucket (hctl T))) div 2 ^ sshift (hctl T)) < nsegs (hctl T)"
  defines "nb \<equiv> Suc (unat (max_bucket (hctl T)))"
  defines "ob \<equiv> unat (word_of_nat nb AND low_mask (hctl T))"
  defines "h' \<equiv> expand_masks nb (hctl T)"
  defines "T1 \<equiv> T\<lparr>hctl := h'\<rparr>"
  shows "\<exists>c T' L'. deref T1 (bucket_ptr h' ob) = Some c \<and>
    relocate T1 ob (bucket_ptr h' ob) (bucket_ptr h' nb) c = Some T' \<and> htab_gen T' L' {} d \<and>
    used (hctl T') L' = used (hctl T) L \<and> tab_frame T1 T' \<and> brk T' = brk T"
proof -
  let ?h = "hctl T"
  note hok = htab_genD(1) [OF gen] and lists = htab_genD(4) [OF gen, simplified]
  note ex = expand_masks_ok [OF hok M seg, folded nb_def, folded ob_def h'_def]
  note bp = expand_masks_fields(1) [of nb ?h, folded h'_def]
  let ?r = "bucket_ptr ?h ob" and ?n = "bucket_ptr ?h nb"
  let ?P = "\<lambda>e. unat (calc_bucket h' (hashvalue (heap T e))) = ob"
  have D1: "deref T1 = deref T"
  proof
    fix q show "deref T1 q = deref T q"
      by (cases q) (simp_all add: T1_def h'_def expand_masks_fields)
  qed
  have f1: "hctl T1 = h'" "heap T1 = heap T" by (simp_all add: T1_def)
  have r: "?r \<in> roots ?h" using ex(3) by blast
  have n: "?n \<notin> roots ?h" using roots_iff(1) [OF hok, of nb] by (simp add: nb_def)
  have rn: "?r \<noteq> ?n" using bucket_ptr_inj [OF hok, of ob nb] ex(3) by (simp add: nb_def)
  have c: "lchain (deref T) ?r (L ?r)" "distinct (L ?r)" by (rule lists_okD [OF lists r])+
  have "deref T ?r \<noteq> None" using c(1) by (cases "L ?r") auto
  then obtain cur where cur: "deref T ?r = Some cur" by blast
  have dn: "deref T ?n \<noteq> None"
    using htab_genD(2) [OF gen seg] by (simp add: bucket_ptr_def nb_def)
  have "\<exists>T'. relocate T1 ob (ends ?r []) (ends ?n []) cur = Some T' \<and>
      dealt T1 ?r ?n ([] @ filter ?P (L ?r)) ([] @ filter (\<lambda>e. \<not> ?P e) (L ?r)) T'"
  proof -
    have "remaining (deref T) cur (L ?r)" using c(1) remaining_chain [of "deref T" ?r cur "L ?r"] cur by simp
    then show ?thesis
      using relocate_ok [of T1 ?r "[]" ?n "[]" "L ?r" cur ob] c cur dn rn by (simp add: D1 f1 image_iff)
  qed
  then obtain T' where T': "relocate T1 ob ?r ?n cur = Some T'"
    "dealt T1 ?r ?n (filter ?P (L ?r)) (filter (\<lambda>e. \<not> ?P e) (L ?r)) T'" by auto
  let ?L = "L(?r := filter ?P (L ?r), ?n := filter (\<lambda>e. \<not> ?P e) (L ?r))"
  have fr: "tab_frame T1 T'" and brk: "brk T' = brk T"
    and ne: "\<And>i. nentries (freeLists (hctl T') i) = nentries (freeLists ?h i)"
    and ch: "lchain (deref T') ?r (filter ?P (L ?r))" "lchain (deref T') ?n (filter (\<lambda>e. \<not> ?P e) (L ?r))"
    and D': "\<And>q. q \<noteq> ?r \<Longrightarrow> q \<noteq> ?n \<Longrightarrow> q \<notin> LinkPtr ` set (L ?r) \<Longrightarrow> deref T' q = deref T q"
    using T'(2) unfolding dealt_def D1 by (auto simp: T1_def h'_def expand_masks_fields)
  have h: "hdr_frame h' (hctl T')" using fr by (simp add: tab_frame_def T1_def)
  note hs = hdr_frameD [OF h]
  have roots': "roots h' = insert ?n (roots ?h)"
    unfolding roots_def bp ex(2) by (simp add: nb_def atMost_Suc)
  have Lb: "?L (bucket_ptr ?h b) = (if b = nb then filter (\<lambda>e. \<not> ?P e) (L ?r)
      else if b = ob then filter ?P (L ?r) else L (bucket_ptr ?h b))" for b
    using bucket_ptr_inj [OF hok, of b ob] bucket_ptr_inj [OF hok, of b nb] by simp
  have ob: "ob \<le> unat (max_bucket ?h)" "ob \<noteq> nb" using ex(3) by (auto simp: nb_def)
  have U: "used h' ?L = used ?h L"
  proof -
    have "used h' ?L = set (?L ?n) \<union> (\<Union>b \<in> {..unat (max_bucket ?h)}. set (?L (bucket_ptr ?h b)))"
      unfolding used_def bp ex(2) by (simp add: nb_def atMost_Suc)
    also have "\<dots> = used ?h L"
      unfolding used_def Lb using ob by (auto simp: nb_def split: if_splits)
    finally show ?thesis .
  qed
  have t: "hash T' = hash T" "dir T' s = None \<longleftrightarrow> dir T s = None" "hashvalue (heap T' e) = hashvalue (heap T e)"
    "ekey (heap T' e) = ekey (heap T e)" for s e
    using fr by (auto simp: tab_frame_def T1_def)
  have "htab_gen T' ?L {} d"
  proof (rule htab_genI, unfold hs t U brk)
    show "hdr_ok h'" by (rule ex(1))
    show "lists_ok (deref T') (roots h') ?L ({..<brk T} - {})"
      unfolding roots' using lists_ok_split [OF lists r n _ ch _ _ D'] c(2) by (auto simp: bucket_ptr_def)
    show "dir T s \<noteq> None" if "int s < nsegs h'" for s
      by (rule htab_genD(2) [OF gen]) (use that in \<open>simp only: h'_def expand_masks_fields\<close>)
    show "inj_on (\<lambda>e. ekey (heap T e)) (used ?h L)" by (rule htab_genD(7) [OF gen])
    show "nentries (freeLists (hctl T') i) =
        int (card {e \<in> used ?h L. FREELIST_IDX h' (hashvalue (heap T e)) = i}) + d i"
      if "i < NUM_FREELISTS" for i
      using htab_genD(8) [OF gen that] unfolding ne by (simp only: h'_def expand_masks_fields)
    fix b e
    assume b: "b \<le> unat (max_bucket h')" and e: "e \<in> set (?L (bucket_ptr h' b))"
    define a where "a = (if b = nb then ob else b)"
    have a: "a \<le> unat (max_bucket ?h)" "e \<in> set (L (bucket_ptr ?h a))"
      using b e ob(1) unfolding bp Lb ex(2) by (auto simp: a_def nb_def split: if_splits)
    note old = htab_genD(5,6) [OF gen a]
    have "unat (calc_bucket h' (hashvalue (heap T e))) = b"
      using ex(4) [of "hashvalue (heap T e)"] old(2) e ob(2) unfolding bp Lb
      by (auto simp: a_def nb_def split: if_splits)
    with old(1) show "hashvalue (heap T e) = hash T (ekey (heap T e)) \<and>
        unat (calc_bucket h' (hashvalue (heap T e))) = b" by blast
  qed simp
  then have "htab_gen T' ?L {} d \<and> used (hctl T') ?L = used ?h L" unfolding hs U by simp
  then show ?thesis
    using cur T'(1) fr brk unfolding D1 bp by blast
qed

section \<open>The table implements a map\<close>

definition same_config :: "('k, 'v) HTAB \<Rightarrow> ('k, 'v) HTAB \<Rightarrow> bool" where
  "same_config T T' \<longleftrightarrow>
     hash T' = hash T \<and> frozen T' = frozen T \<and> isshared T' = isshared T \<and>
     isfixed (hctl T') = isfixed (hctl T) \<and> IS_PARTITIONED (hctl T') = IS_PARTITIONED (hctl T) \<and>
     (isfixed (hctl T) \<longrightarrow> brk T' = brk T)"

text \<open>What the caller writes through the pointer that a search returns.\<close>

definition set_data :: "elem \<Rightarrow> 'v \<Rightarrow> ('k, 'v) HTAB \<Rightarrow> ('k, 'v) HTAB" where
  "set_data e v T = T\<lparr>heap := (heap T)(e := (heap T e)\<lparr>edata := v\<rparr>)\<rparr>"

lemma same_config_trans: "same_config T T' \<Longrightarrow> same_config T' T'' \<Longrightarrow> same_config T T''"
  by (auto simp: same_config_def)

lemma same_config_refl: "same_config T T"
  by (simp add: same_config_def)

lemma tab_frame_config: "tab_frame T T' \<Longrightarrow> brk T' = brk T \<or> \<not> isfixed (hctl T) \<Longrightarrow> same_config T T'"
  using hdr_frameD(7,8) [of "hctl T" "hctl T'"] by (auto simp: tab_frame_def same_config_def)

lemma holds_frame:
  assumes "holds T L m" "used (hctl T') L' = used (hctl T) L"
    "\<And>e. ekey (heap T' e) = ekey (heap T e)" "\<And>e. edata (heap T' e) = edata (heap T e)"
  shows "holds T' L' m"
  using assms by (simp add: holds_def)

lemma hash_rep_config:
  assumes "htab_ok T L" "holds T L m"
  shows "dom m = (\<lambda>e. ekey (heap T e)) ` used (hctl T) L" "card (dom m) = card (used (hctl T) L)"
proof -
  show d: "dom m = (\<lambda>e. ekey (heap T e)) ` used (hctl T) L"
    using assms(2) by (auto simp: holds_def dom_def image_iff)
  show "card (dom m) = card (used (hctl T) L)"
    unfolding d using assms(1) htab_genD(7) by (intro card_image) (auto simp: htab_ok_def)
qed

lemma full_table:
  assumes "htab_ok T L" "\<forall>j < NUM_FREELISTS. freeList (freeLists (hctl T) j) = None"
  shows "card (used (hctl T) L) = brk T"
proof -
  have gen: "htab_gen T L {} (\<lambda>_. 0)" using assms(1) by (simp add: htab_ok_def)
  note lists = htab_genD(4) [OF gen, simplified]
  have "L (FreePtr j) = []" if "j < NUM_FREELISTS" for j
    using lists_okD(1) [OF lists roots_memI(2) [OF that]] assms(2) that by (cases "L (FreePtr j)") auto
  then have "(\<Union>r \<in> roots (hctl T). set (L r)) = used (hctl T) L" by (auto simp: roots_def used_def)
  then have "used (hctl T) L = {..<brk T}" using lists by (auto simp: lists_ok_def)
  then show ?thesis by simp
qed

lemma expand_table_ok:
  assumes ok: "htab_ok T L" "holds T L m" and M: "Suc (unat (max_bucket (hctl T))) < 2 ^ 31"
  shows "\<exists>b T' L'. expand_table T = Some (b, T') \<and> htab_ok T' L' \<and> holds T' L' m \<and> same_config T T' \<and>
    brk T' = brk T"
proof -
  have gen: "htab_gen T L {} (\<lambda>_. 0)" using ok(1) by (simp add: htab_ok_def)
  let ?s = "Suc (unat (max_bucket (hctl T))) div 2 ^ sshift (hctl T)"
  obtain b T1 where e: "expand_segment ?s T = (b, T1)" by (cases "expand_segment ?s T")
  have g: "grown T T1" by (rule expand_segment_ok(1) [OF gen refl e])
  have gen1: "htab_gen T1 L {} (\<lambda>_. 0)" by (rule grown_ok [OF gen g])
  have c1: "same_config T T1" "brk T1 = brk T" "heap T1 = heap T"
    using g grownD(6,7) [OF g] by (auto simp: grown_def same_config_def)
  have h1: "holds T1 L m" using ok(2) grownD(2) [OF g] c1(3) by (intro holds_frame [OF ok(2)]) auto
  show ?thesis
  proof (cases b)
    case False
    with e gen1 h1 c1 show ?thesis by (auto simp: expand_table_def htab_ok_def)
  next
    case True
    have seg: "int (Suc (unat (max_bucket (hctl T1))) div 2 ^ sshift (hctl T1)) < nsegs (hctl T1)"
      using expand_segment_ok(2) [OF gen refl e True] grownD(8,9) [OF g] by simp
    have M1: "Suc (unat (max_bucket (hctl T1))) < 2 ^ 31" using M grownD(8) [OF g] by simp
    let ?nb = "Suc (unat (max_bucket (hctl T1)))"
    let ?T2 = "T1\<lparr>hctl := expand_masks ?nb (hctl T1)\<rparr>"
    obtain c T' L' where r: "deref ?T2 (bucket_ptr (expand_masks ?nb (hctl T1))
          (unat (word_of_nat ?nb AND low_mask (hctl T1)))) = Some c"
      "relocate ?T2 (unat (word_of_nat ?nb AND low_mask (hctl T1))) (bucket_ptr (expand_masks ?nb (hctl T1))
          (unat (word_of_nat ?nb AND low_mask (hctl T1)))) (bucket_ptr (expand_masks ?nb (hctl T1)) ?nb) c = Some T'"
      "htab_gen T' L' {} (\<lambda>_. 0)" "used (hctl T') L' = used (hctl T1) L" "tab_frame ?T2 T'" "brk T' = brk T1"
      using expand_relocate [OF gen1 M1 seg] by blast
    have "expand_table T = Some (True, T')"
      using e True r(1,2) unfolding expand_table_def grownD(8) [OF g, symmetric] by (simp del: of_nat_Suc)
    moreover have "same_config ?T2 T'" by (rule tab_frame_config [OF r(5)]) (simp add: r(6))
    then have "same_config T T'"
      using c1(1) r(6) expand_masks_fields(9,10) [of ?nb "hctl T1"] by (simp add: same_config_def)
    moreover have "holds T' L' m"
      using r(4,5) by (intro holds_frame [OF h1]) (auto simp: tab_frame_def)
    ultimately show ?thesis using r(3,6) c1(2) by (auto simp: htab_ok_def)
  qed
qed

definition can_split :: "('k, 'v) HTAB \<Rightarrow> bool" where
  "can_split T \<longleftrightarrow> IS_PARTITIONED (hctl T) \<or> Suc (unat (max_bucket (hctl T))) < 2 ^ 31"

lemma maybe_expand_ok:
  assumes "htab_ok T L" "holds T L m" "can_split T"
  shows "\<exists>T' L'. hash_search_maybe_expand T action = Some T' \<and> htab_ok T' L' \<and> holds T' L' m \<and>
    same_config T T' \<and> brk T' = brk T"
proof (cases "hash_search_maybe_expand T action = map_option snd (expand_table T) \<and> \<not> IS_PARTITIONED (hctl T)")
  case True
  with expand_table_ok [OF assms(1,2)] assms(3) show ?thesis by (auto simp: can_split_def)
next
  case False
  then have "hash_search_maybe_expand T action = Some T"
    by (auto simp: hash_search_maybe_expand_def split: if_splits)
  with assms same_config_refl show ?thesis by blast
qed

lemma search_home:
  assumes "htab_ok T L"
  shows "hash_initial_lookup T (hash T key) = Done T (unat (calc_bucket (hctl T) (hash T key)), home T key)"
    "chain_search T (matches T key (hash T key)) (home T key) =
      Some (case find (matches T key (hash T key)) (L (home T key)) of
        None \<Rightarrow> (ends (home T key) (L (home T key)), None)
      | Some e \<Rightarrow> (ends (home T key) (takeWhile (\<lambda>x. \<not> matches T key (hash T key) x) (L (home T key))), Some e))"
proof -
  have gen: "htab_gen T L {} (\<lambda>_. 0)" using assms by (simp add: htab_ok_def)
  show "hash_initial_lookup T (hash T key) = Done T (unat (calc_bucket (hctl T) (hash T key)), home T key)"
    using hash_initial_lookup_ok [OF gen] by (simp add: home_def)
  show "chain_search T (matches T key (hash T key)) (home T key) =
      Some (case find (matches T key (hash T key)) (L (home T key)) of
        None \<Rightarrow> (ends (home T key) (L (home T key)), None)
      | Some e \<Rightarrow> (ends (home T key) (takeWhile (\<lambda>x. \<not> matches T key (hash T key) x) (L (home T key))), Some e))"
    by (rule chain_search_ok [OF home_chain [OF gen]])
qed

lemma hash_search_find:
  assumes "hash_rep T m"
  shows "\<exists>e. hash_search_with_hash_value T key (hash T key) HASH_FIND = Done T (e, m key \<noteq> None) \<and>
    map_option (\<lambda>e. edata (heap T e)) e = m key"
proof -
  obtain L where L: "htab_ok T L" "holds T L m" using assms by (auto simp: hash_rep_def)
  have gen: "htab_gen T L {} (\<lambda>_. 0)" using L by (simp add: htab_ok_def)
  have "hash_search_maybe_expand T HASH_FIND = Some T" by (simp add: hash_search_maybe_expand_def)
  with search_home [OF L(1), of key] holds_find [OF gen L(2), of key] show ?thesis
    by (auto simp: hash_search_with_hash_value_def Let_def split: option.splits)
qed

lemma hash_search_remove:
  assumes "hash_rep T m"
  shows "\<exists>T' e. hash_search_with_hash_value T key (hash T key) HASH_REMOVE = Done T' (e, m key \<noteq> None) \<and>
    (e = None \<longleftrightarrow> m key = None) \<and> hash_rep T' (m(key := None)) \<and> same_config T T' \<and> brk T' = brk T"
proof -
  obtain L where L: "htab_ok T L" "holds T L m" using assms by (auto simp: hash_rep_def)
  have gen: "htab_gen T L {} (\<lambda>_. 0)" using L by (simp add: htab_ok_def)
  have ex: "hash_search_maybe_expand T HASH_REMOVE = Some T" by (simp add: hash_search_maybe_expand_def)
  let ?P = "matches T key (hash T key)" and ?i = "FREELIST_IDX (hctl T) (hash T key)"
  show ?thesis
  proof (cases "find ?P (L (home T key))")
    case None
    have none: "m key = None" using holds_find [OF gen L(2), of key] None by simp
    then have "m(key := None) = m" by (simp add: fun_upd_idem)
    with none assms ex search_home [OF L(1), of key] None same_config_refl show ?thesis
      by (auto simp: hash_search_with_hash_value_def Let_def)
  next
    case (Some e)
    have key: "m key = Some (edata (heap T e))" using holds_find [OF gen L(2), of key] Some by simp
    have e: "e \<in> used (hctl T) L" "ekey (heap T e) = key" using find_home [OF gen] Some by blast+
    let ?xs = "takeWhile (\<lambda>x. \<not> ?P x) (L (home T key))"
    obtain ys where ys: "L (home T key) = ?xs @ e # ys" using find_split [OF Some] by blast
    have hv: "hashvalue (heap T e) = hash T key" using find_Some_mem [OF Some] by simp
    let ?T = "remove_at (ends (home T key) ?xs) e ?i T"
    note rem = remove_ok [OF gen home_root [OF gen] ys hv]
    have r: "hash_search_with_hash_value T key (hash T key) HASH_REMOVE = Done ?T (Some e, True)"
      using rem(2) search_home [OF L(1), of key] Some ex
      by (simp add: hash_search_with_hash_value_def remove_at_def Let_def)
    obtain L' where L': "htab_ok ?T L'" "used (hctl ?T) L' = used (hctl T) L - {e}" using rem(1) by blast
    have inj: "inj_on (\<lambda>e. ekey (heap T e)) (used (hctl T) L)" by (rule htab_genD(7) [OF gen])
    have "holds ?T L' (m(key := None))"
      using L(2) e inj remove_at_frame(1) [of T "ends (home T key) ?xs" e ?i]
      unfolding holds_def L'(2) tab_frame_def inj_on_def by auto
    moreover have "same_config T ?T" by (rule tab_frame_config) (simp_all add: remove_at_frame)
    ultimately show ?thesis using r L'(1) key remove_at_frame(2) by (auto simp: hash_rep_def)
  qed
qed

lemma deref_set_data: "deref (set_data e v T) = deref T"
proof
  fix q show "deref (set_data e v T) q = deref T q" by (cases q) (auto simp: set_data_def)
qed

lemma set_data_ok: "htab_ok T L \<Longrightarrow> htab_ok (set_data e v T) L"
proof -
  assume ok: "htab_ok T L"
  then have gen: "htab_gen T L {} (\<lambda>_. 0)" by (simp add: htab_ok_def)
  have fields: "hctl (set_data e v T) = hctl T" "dir (set_data e v T) = dir T" "brk (set_data e v T) = brk T"
    "hash (set_data e v T) = hash T" "hashvalue (heap (set_data e v T) x) = hashvalue (heap T x)"
    "ekey (heap (set_data e v T) x) = ekey (heap T x)" for x
    by (simp_all add: set_data_def)
  show ?thesis using gen unfolding htab_ok_def htab_gen_def fields deref_set_data .
qed

lemma set_data_holds:
  assumes "holds T L m" "e \<in> used (hctl T) L" "inj_on (\<lambda>e. ekey (heap T e)) (used (hctl T) L)"
  shows "holds (set_data e v T) L (m(ekey (heap T e) \<mapsto> v))"
proof -
  have "hctl (set_data e v T) = hctl T" "ekey (heap (set_data e v T) x) = ekey (heap T x)"
    "edata (heap (set_data e v T) x) = (if x = e then v else edata (heap T x))" for x
    by (simp_all add: set_data_def)
  moreover have "(m(ekey (heap T e) \<mapsto> v)) k = Some w \<longleftrightarrow>
      (\<exists>x \<in> used (hctl T) L. ekey (heap T x) = k \<and> (if x = e then v else edata (heap T x)) = w)" for k w
  proof (cases "k = ekey (heap T e)")
    case True
    have "x = e" if "x \<in> used (hctl T) L" "ekey (heap T x) = k" for x
      using inj_onD [OF assms(3)] that assms(2) True by blast
    with True assms(2) show ?thesis by auto
  next
    case False
    then have "m k = Some w \<longleftrightarrow> (\<exists>x \<in> used (hctl T) L. ekey (heap T x) = k \<and> edata (heap T x) = w)"
      using assms(1) by (simp add: holds_def)
    with False show ?thesis by auto
  qed
  ultimately show ?thesis by (simp add: holds_def)
qed

lemma set_data_config [simp]:
  "hctl (set_data e v T) = hctl T" "same_config T' (set_data e v T) = same_config T' T"
  "brk (set_data e v T) = brk T" "hash (set_data e v T) = hash T"
  by (simp_all add: set_data_def same_config_def)

text \<open>The outcome of entering a key that is not in the table.\<close>

definition entered ::
    "('k, 'v) HTAB \<Rightarrow> ('k \<rightharpoonup> 'v) \<Rightarrow> 'k \<Rightarrow> (('k, 'v) HTAB, elem option \<times> bool) run \<Rightarrow> bool" where
  "entered T m key R \<longleftrightarrow>
     (case R of
        Done T' (Some e, found) \<Rightarrow> \<not> found \<and> (\<forall>v. hash_rep (set_data e v T') (m(key \<mapsto> v))) \<and> same_config T T'
      | Raise T' err \<Rightarrow> err = (if isshared T then HashOutOfSharedMemory else HashOutOfMemory) \<and>
          hash_rep T' m \<and> same_config T T' \<and> (IS_PARTITIONED (hctl T) \<longrightarrow> card (dom m) = brk T)
      | _ \<Rightarrow> False)"

lemma enter_after_take:
  assumes L: "htab_ok T L" "holds T L m" and none: "m key = None"
    and taken: "entry_taken T L (FREELIST_IDX (hctl T) (hash T key)) e T'"
  shows "hash_rep (set_data e v (enter_at (ends (home T key) (L (home T key))) e key (hash T key) T')) (m(key \<mapsto> v))"
    "same_config T (enter_at (ends (home T key) (L (home T key))) e key (hash T key) T')"
proof -
  let ?i = "FREELIST_IDX (hctl T) (hash T key)"
  obtain L' where L': "htab_gen T' L' {e} (\<lambda>k. if k = ?i then 1 else 0)"
    "\<And>b. L' (bucket_ptr (hctl T) b) = L (bucket_ptr (hctl T) b)" "used (hctl T) L' = used (hctl T) L"
    and fr: "tab_frame T T'" and brk: "isfixed (hctl T) \<longrightarrow> brk T' = brk T"
    using taken by (auto simp: entry_taken_def)
  have h: "hdr_frame (hctl T) (hctl T')" using fr by (simp add: tab_frame_def)
  have hash: "hash T' = hash T" and k: "ekey (heap T' x) = ekey (heap T x)"
    "edata (heap T' x) = edata (heap T x)" for x
    using fr by (auto simp: tab_frame_def)
  have home: "home T' key = home T key" "L' (home T key) = L (home T key)"
    using home_frame [OF fr] L'(2) by (simp_all add: home_def)
  have U: "used (hctl T') L' = used (hctl T) L" using L'(3) hdr_frameD(2) [OF h] by simp
  have gen': "htab_gen T' L' {e} (\<lambda>k. if k = FREELIST_IDX (hctl T') (hash T' key) then 1 else 0)"
    using L'(1) unfolding hdr_frameD [OF h] hash .
  have fresh: "ekey (heap T' x) \<noteq> key" if "x \<in> used (hctl T') L'" for x
  proof
    assume "ekey (heap T' x) = key"
    then have "m key = Some (edata (heap T x))" using L(2) that unfolding U k holds_def by blast
    with none show False by simp
  qed
  let ?T = "enter_at (ends (home T key) (L (home T key))) e key (hash T key) T'"
  let ?L = "L'(home T key := L (home T key) @ [e])"
  have ok: "htab_ok ?T ?L" and U': "used (hctl ?T) ?L = insert e (used (hctl T) L)" and e: "e \<notin> used (hctl T) L"
    using enter_ok [OF gen' fresh] unfolding home U hash by blast+
  have f: "ekey (heap ?T x) = (if x = e then key else ekey (heap T x))" "edata (heap ?T x) = edata (heap T x)" for x
    by (simp_all add: enter_at_fields k)
  have "holds ?T ?L (m(key \<mapsto> edata (heap T e)))"
  proof -
    have "ekey (heap T x) \<noteq> key" if "x \<in> used (hctl T) L" for x
      using fresh [of x] that unfolding U k .
    then have "(\<exists>x \<in> insert e (used (hctl T) L). (if x = e then key else ekey (heap T x)) = k' \<and> edata (heap T x) = w) \<longleftrightarrow>
        (m(key \<mapsto> edata (heap T e))) k' = Some w" for k' w
      using L(2) e unfolding holds_def by (cases "k' = key") (auto, metis)
    then show ?thesis unfolding holds_def U' f by simp
  qed
  moreover have "e \<in> used (hctl ?T) ?L" using U' by simp
  moreover have "inj_on (\<lambda>e. ekey (heap ?T e)) (used (hctl ?T) ?L)"
    using ok htab_genD(7) by (auto simp: htab_ok_def)
  ultimately have "holds (set_data e v ?T) ?L (m(key \<mapsto> edata (heap T e), ekey (heap ?T e) \<mapsto> v))"
    by (rule set_data_holds)
  then show "hash_rep (set_data e v ?T) (m(key \<mapsto> v))"
    using set_data_ok [OF ok] by (auto simp: hash_rep_def f)
  have "same_config T T'" using tab_frame_config [OF fr] brk by auto
  moreover have "same_config T' ?T"
    using hdr_frameD(7,8) [OF enter_at_fields(1) [where T = T' and prev = "ends (home T key) (L (home T key))"
          and e = e and key = key and hv = "hash T key"]]
    by (simp add: same_config_def enter_at_fields)
  ultimately show "same_config T ?T" by (rule same_config_trans)
qed

lemma hash_search_enter_new:
  assumes "hash_rep T m" "can_split T" and none: "m key = None" and fz: "\<not> frozen T"
  shows "entered T m key (hash_search_with_hash_value T key (hash T key) HASH_ENTER)"
proof -
  obtain T1 L where ex: "hash_search_maybe_expand T HASH_ENTER = Some T1" and L: "htab_ok T1 L" "holds T1 L m"
    and c: "same_config T T1" "brk T1 = brk T"
    using assms maybe_expand_ok unfolding hash_rep_def by blast
  have gen: "htab_gen T1 L {} (\<lambda>_. 0)" using L by (simp add: htab_ok_def)
  have cfg: "hash T = hash T1" "frozen T1 = frozen T" "isshared T1 = isshared T"
    "IS_PARTITIONED (hctl T1) = IS_PARTITIONED (hctl T)" using c by (auto simp: same_config_def)
  have idx: "FREELIST_IDX (hctl T) = FREELIST_IDX (hctl T1)" by (simp add: fun_eq_iff FREELIST_IDX_def cfg)
  let ?i = "FREELIST_IDX (hctl T1) (hash T1 key)"
  have f: "find (matches T1 key (hash T1 key)) (L (home T1 key)) = None"
    using holds_find [OF gen L(2), of key] none by simp
  note home = search_home [OF L(1), of key, unfolded f option.case]
  from get_hash_entry_ok [OF L(1) FREELIST_IDX_less, of "hctl T1" "hash T1 key"] show ?thesis
  proof (elim disjE exE conjE)
    fix e T'
    assume g: "get_hash_entry T1 ?i = Some (Some e, T')" and taken: "entry_taken T1 L ?i e T'"
    let ?T = "enter_at (ends (home T1 key) (L (home T1 key))) e key (hash T1 key) T'"
    have "hash_search_with_hash_value T key (hash T key) HASH_ENTER = Done ?T (Some e, False)"
      using ex home g fz unfolding cfg(1)
      by (simp add: hash_search_with_hash_value_def idx cfg enter_at_def Let_def)
    then show ?thesis
      using enter_after_take [OF L none taken] same_config_trans [OF c(1)] by (simp add: entered_def)
  next
    fix T'
    assume g: "get_hash_entry T1 ?i = Some (None, T')" and ok: "htab_ok T' L" and fr: "tab_frame T1 T'" "brk T' = brk T1"
      and full: "IS_PARTITIONED (hctl T1) \<longrightarrow> (\<forall>j<NUM_FREELISTS. freeList (freeLists (hctl T1) j) = None)"
    have sh: "isshared T' = isshared T" "frozen T' = frozen T" using fr cfg by (auto simp: tab_frame_def)
    have r: "hash_search_with_hash_value T key (hash T key) HASH_ENTER =
        Raise T' (if isshared T then HashOutOfSharedMemory else HashOutOfMemory)"
      using ex home g fz unfolding cfg(1)
      by (simp add: hash_search_with_hash_value_def idx cfg sh Let_def)
    have "used (hctl T') L = used (hctl T1) L" using hdr_frameD(2) fr(1) by (auto simp: tab_frame_def)
    then have "hash_rep T' m"
      using ok fr(1) L(2) holds_frame [OF L(2), of T' L] by (auto simp: hash_rep_def tab_frame_def)
    moreover have "IS_PARTITIONED (hctl T) \<longrightarrow> card (dom m) = brk T"
      using full full_table [OF L(1)] hash_rep_config(2) [OF L] cfg c(2) by simp
    moreover have "same_config T T'"
      using same_config_trans [OF c(1) tab_frame_config [OF fr(1)]] fr(2) by blast
    ultimately show ?thesis using r by (simp add: entered_def)
  qed
qed

lemma hash_search_enter_old:
  assumes "hash_rep T m" "can_split T" and some: "m key = Some v"
  shows "\<exists>T' e. hash_search_with_hash_value T key (hash T key) HASH_ENTER = Done T' (Some e, True) \<and>
    edata (heap T' e) = v \<and> hash_rep T' m \<and> same_config T T'"
proof -
  obtain T1 L where ex: "hash_search_maybe_expand T HASH_ENTER = Some T1" and L: "htab_ok T1 L" "holds T1 L m"
    and c: "same_config T T1" "brk T1 = brk T"
    using assms maybe_expand_ok unfolding hash_rep_def by blast
  have gen: "htab_gen T1 L {} (\<lambda>_. 0)" using L by (simp add: htab_ok_def)
  have cfg: "hash T = hash T1" using c by (auto simp: same_config_def)
  obtain e where f: "find (matches T1 key (hash T1 key)) (L (home T1 key)) = Some e" "edata (heap T1 e) = v"
    using holds_find [OF gen L(2), of key] some
    by (cases "find (matches T1 key (hash T1 key)) (L (home T1 key))") auto
  have "hash_search_with_hash_value T key (hash T key) HASH_ENTER = Done T1 (Some e, True)"
    using ex search_home [OF L(1), of key, unfolded f option.case] unfolding cfg
    by (simp add: hash_search_with_hash_value_def Let_def)
  then show ?thesis using f(2) L c by (auto simp: hash_rep_def)
qed

section \<open>A new table\<close>

lemma leftmost_bounds: "0 < n \<Longrightarrow> 2 ^ leftmost_one_pos n \<le> n \<and> n < 2 ^ Suc (leftmost_one_pos n)"
proof (induction n rule: leftmost_one_pos.induct)
  case (1 n)
  show ?case
  proof (cases "n < 2")
    case True
    with "1.prems" have "n = 1" by simp
    then show ?thesis by (simp add: leftmost_one_pos.simps)
  next
    case False
    let ?l = "leftmost_one_pos (n div 2)"
    have "0 < n div 2" using False by simp
    then have IH: "2 ^ ?l \<le> n div 2" "n div 2 < 2 ^ Suc ?l" using 1(1) [OF False] by blast+
    have e: "leftmost_one_pos n = Suc ?l" using False by (simp add: leftmost_one_pos.simps)
    have "2 * (n div 2) \<le> n" "n < 2 * (n div 2) + 2" by simp_all
    then show ?thesis unfolding e power_Suc [of 2 "Suc ?l"] power_Suc [of 2 ?l] using IH by simp
  qed
qed

lemma my_log2_bounds:
  assumes "1 \<le> n" "n < 2 ^ 62"
  shows "n \<le> 2 ^ my_log2 n" "2 ^ my_log2 n < 2 * n"
proof -
  have lim: "\<not> n > (2 ^ 63 - 1) div 2" using assms(2) by simp
  have w: "unat (word_of_int n :: uint64) = nat n"
    using assms by (simp add: unat_eq_nat_uint uint_word_of_int_eq take_bit_int_eq_self)
  have "n \<le> 2 ^ my_log2 n \<and> 2 ^ my_log2 n < 2 * n"
  proof (cases "n = 1")
    case True
    then have "my_log2 n = 0" by (simp add: my_log2_def pg_ceil_log2_64_def)
    with True show ?thesis by simp
  next
    case False
    then have n2: "2 \<le> n" using assms(1) by simp
    have "\<not> (word_of_int n :: uint64) < 2" using w n2 by (simp add: word_less_nat_alt)
    moreover have "unat (word_of_int n - 1 :: uint64) = nat n - 1"
      using w n2 by (subst unat_minus_one) (auto simp: word_unat_eq_iff)
    ultimately have l: "my_log2 n = Suc (leftmost_one_pos (nat n - 1))"
      using lim by (simp add: my_log2_def pg_ceil_log2_64_def Let_def)
    have "2 ^ leftmost_one_pos (nat n - 1) \<le> nat n - 1" "nat n - 1 < 2 ^ Suc (leftmost_one_pos (nat n - 1))"
      using leftmost_bounds [of "nat n - 1"] n2 by simp_all
    then have "int (2 ^ leftmost_one_pos (nat n - 1)) \<le> n - 1" "n - 1 < int (2 ^ Suc (leftmost_one_pos (nat n - 1)))"
      using n2 by linarith+
    then show ?thesis unfolding l by simp
  qed
  then show "n \<le> 2 ^ my_log2 n" "2 ^ my_log2 n < 2 * n" by simp_all
qed

lemma my_log2_le: "1 \<le> n \<Longrightarrow> n < 2 ^ 62 \<Longrightarrow> n \<le> 2 ^ k \<Longrightarrow> my_log2 n \<le> k"
proof -
  assume n: "1 \<le> n" "n < 2 ^ 62" "n \<le> 2 ^ k"
  have "(2 :: int) ^ my_log2 n < 2 ^ Suc k" using my_log2_bounds(2) [OF n(1,2)] n(3) by simp
  then have "my_log2 n < Suc k" by (rule power_less_imp_less_exp [rotated]) simp
  then show ?thesis by simp
qed

lemma next_pow2_eq: "n < 2 ^ 30 \<Longrightarrow> next_pow2_int n = next_pow2_int64 n"
  by (simp add: next_pow2_int_def next_pow2_int64_def)

lemma double_until_ge: "0 < n \<Longrightarrow> bound \<le> double_until n bound \<and> n \<le> double_until n bound"
proof (induction n bound rule: double_until.induct)
  case (1 n bound)
  then show ?case by (subst double_until.simps) (force simp: double_until.simps [of n])
qed

lemma double_until_pow2: "double_until (2 ^ a) (2 ^ b) = 2 ^ max a b"
proof (induction "b - a" arbitrary: a)
  case 0
  then have "(2 :: int) ^ b \<le> 2 ^ a" by simp
  with 0 show ?case by (simp add: double_until.simps max_def)
next
  case (Suc n)
  then have "(2 :: int) ^ a < 2 ^ b" by simp
  then have "double_until (2 ^ a) (2 ^ b) = double_until (2 ^ Suc a) (2 ^ b)"
    by (subst double_until.simps) simp
  also have "\<dots> = 2 ^ max (Suc a) b" using Suc(2) by (intro Suc(1)) simp
  finally show ?case using Suc(2) by (simp add: max_def)
qed

lemma choose_loop_ge: "0 < esize \<Longrightarrow> 0 < a \<Longrightarrow> 32 \<le> choose_loop esize a"
proof (induction esize a rule: choose_loop.induct)
  case (1 esize a)
  then show ?case by (subst choose_loop.simps) (auto simp: Let_def)
qed

lemma choose_nelem_alloc_ge: "32 \<le> choose_nelem_alloc esize"
  unfolding choose_nelem_alloc_def by (rule choose_loop_ge) (simp_all add: element_size_def MAXALIGN_def)

lemma alloc_segments_all:
  assumes "\<And>n s. alloc T n s" "0 \<le> nsegs (hctl T)"
  shows "alloc_segments k T = (True, T\<lparr>nreq := nreq T + k,
    dir := \<lambda>s. if nat (nsegs (hctl T)) \<le> s \<and> s < nat (nsegs (hctl T)) + k then Some (\<lambda>_. None) else dir T s,
    hctl := (hctl T)\<lparr>nsegs := nsegs (hctl T) + int k\<rparr>\<rparr>)"
  using assms
proof (induction k arbitrary: T)
  case (Suc k)
  let ?n = "nat (nsegs (hctl T))"
  let ?T = "T\<lparr>nreq := Suc (nreq T), dir := (dir T)(?n := Some (\<lambda>_. None)),
    hctl := (hctl T)\<lparr>nsegs := nsegs (hctl T) + 1\<rparr>\<rparr>"
  have "alloc_segments (Suc k) T = alloc_segments k ?T"
    using Suc.prems by (simp add: seg_alloc_def request_def)
  also have "\<dots> = (True, ?T\<lparr>nreq := nreq ?T + k,
    dir := \<lambda>s. if nat (nsegs (hctl ?T)) \<le> s \<and> s < nat (nsegs (hctl ?T)) + k then Some (\<lambda>_. None) else dir ?T s,
    hctl := (hctl ?T)\<lparr>nsegs := nsegs (hctl ?T) + int k\<rparr>\<rparr>)"
    using Suc.prems by (intro Suc.IH) auto
  also have "(\<lambda>s. if nat (nsegs (hctl ?T)) \<le> s \<and> s < nat (nsegs (hctl ?T)) + k then Some (\<lambda>_. None) else dir ?T s) =
      (\<lambda>s. if ?n \<le> s \<and> s < ?n + Suc k then Some (\<lambda>_. None) else dir T s)"
    using Suc.prems(2) by (auto simp: fun_eq_iff nat_add_distrib)
  finally show ?case by simp
next
  case 0
  have "(\<lambda>s. if nat (nsegs (hctl T)) \<le> s \<and> s < nat (nsegs (hctl T)) + 0 then Some (\<lambda>_. None) else dir T s) = dir T"
    by (auto simp: fun_eq_iff)
  then show ?case by simp
qed

lemma element_alloc_all:
  assumes "\<And>n s. alloc T n s" "\<not> isfixed (hctl T)"
  shows "\<exists>T'. element_alloc T n i = (True, T') \<and> alloc T' = alloc T"
proof -
  have "alloc (assign q v T) = alloc T" for q v and T :: "('a, 'b) HTAB"
    by (cases q) (auto simp: assign.simps set_free_def)
  then show ?thesis
    using assms by (simp add: element_alloc_def request_def Let_def set_free_assign)
qed

lemma alloc_freelists_ok:
  fixes T :: "('k, 'v) HTAB"
  assumes "htab_ok T L" "used (hctl T) L = {}" "\<And>n s. alloc T n s" "\<not> isfixed (hctl T)"
    "\<forall>x \<in> set xs. fst x < NUM_FREELISTS \<and> 0 < snd x"
  shows "\<exists>T' L'. alloc_freelists xs T = (True, T') \<and> htab_ok T' L' \<and> used (hctl T') L' = {} \<and>
    tab_frame T T' \<and> brk T' = brk T + sum_list (map snd xs)"
  using assms
proof (induction xs arbitrary: T L)
  case Nil
  then show ?case using tab_frame_refl [of T] by (intro exI [of _ T] exI [of _ L]) simp
next
  case (Cons x xs)
  have x: "fst x < NUM_FREELISTS" "0 < snd x" using Cons.prems(5) by auto
  obtain T1 where T1: "element_alloc T (snd x) (fst x) = (True, T1)" "alloc T1 = alloc T"
    using element_alloc_all [OF Cons.prems(3,4)] by blast
  have gen: "htab_gen T L {} (\<lambda>_. 0)" using Cons.prems(1) by (simp add: htab_ok_def)
  note new = element_alloc_links(1,2) [OF gen x T1(1)]
  note hs = hdr_frameD [of "hctl T" "hctl T1"]
  have h: "hdr_frame (hctl T) (hctl T1)" using new(1) by (simp add: tab_frame_def)
  let ?L = "L(FreePtr (fst x) := rev [brk T..<brk T + snd x] @ L (FreePtr (fst x)))"
  have "\<exists>T' L'. alloc_freelists xs T1 = (True, T') \<and> htab_ok T' L' \<and> used (hctl T') L' = {} \<and>
      tab_frame T1 T' \<and> brk T' = brk T1 + sum_list (map snd xs)"
  proof (rule Cons.IH)
    show "htab_ok T1 ?L" by (rule element_alloc_ok [OF Cons.prems(1) x T1(1)])
    show "used (hctl T1) ?L = {}" unfolding hs(2) [OF h] used_upd_free by (rule Cons.prems)
    show "alloc T1 n s" for n s unfolding T1(2) by (rule Cons.prems)
    show "\<not> isfixed (hctl T1)" unfolding hs(8) [OF h] by (rule Cons.prems)
  qed (use Cons.prems in auto)
  then show ?case using T1(1) new tab_frame_trans [OF new(1)] by (auto simp: add.assoc)
qed

lemma freelist_shares_ok:
  assumes "0 < n"
  shows "\<forall>x \<in> set (freelist_shares part n). fst x < NUM_FREELISTS \<and> 0 < snd x"
    "n \<le> sum_list (map snd (freelist_shares part n))"
proof -
  define parts where "parts = (if part then NUM_FREELISTS else 1)"
  define m where "m = (if n div parts \<le> 0 then 1 else n div parts)"
  define f where "f = (if m * parts < n then n - m * (parts - 1) else m)"
  have sh: "freelist_shares part n = map (\<lambda>i. (i, if i = 0 then f else m)) [0..<parts]"
    unfolding freelist_shares_def parts_def m_def f_def Let_def by (rule refl)
  have p: "0 < parts" "parts \<le> NUM_FREELISTS" by (auto simp: parts_def NUM_FREELISTS_def)
  have m: "0 < m" by (simp add: m_def)
  have "m * parts = m * (parts - 1) + m" using p(1) by (cases parts) auto
  then have f: "0 < f" "n \<le> f + m * (parts - 1)" using m by (auto simp: f_def)
  show "\<forall>x \<in> set (freelist_shares part n). fst x < NUM_FREELISTS \<and> 0 < snd x"
    unfolding sh using p m f by auto
  have "sum_list (map snd (freelist_shares part n)) = f + m * (parts - 1)"
  proof -
    have "[0..<parts] = 0 # [1..<parts]" using p(1) by (simp add: upt_conv_Cons)
    moreover have "map (\<lambda>i. if i = 0 then f else m) [1..<parts] = replicate (parts - 1) m"
      by (intro nth_equalityI) auto
    ultimately show ?thesis unfolding sh by (simp add: comp_def sum_list_replicate)
  qed
  with f(2) show "n \<le> sum_list (map snd (freelist_shares part n))" by simp
qed

lemma bucket_counts:
  assumes n: "1 \<le> n" "n < 2 ^ 30"
  defines "k \<equiv> max (my_log2 n) 7"
  defines "segs \<equiv> next_pow2_int ((2 ^ k - 1) div 256 + 1)"
  shows "double_until (next_pow2_int n) 128 = 2 ^ k" "k \<le> 30" "(2 ^ k - 1) div 256 < segs"
    "segs \<le> hash_select_dirsize n"
proof -
  have a: "my_log2 n \<le> 30" using n by (intro my_log2_le) auto
  then show k: "k \<le> 30" by (simp add: k_def)
  have p64: "next_pow2_int n = 2 ^ my_log2 n"
    using next_pow2_eq [OF n(2)] by (simp add: next_pow2_int64_def)
  have "double_until (2 ^ my_log2 n) (2 ^ 7) = 2 ^ max (my_log2 n) 7" by (rule double_until_pow2)
  then show "double_until (next_pow2_int n) 128 = 2 ^ k" unfolding p64 k_def by simp
  define x :: int where "x = (2 ^ k - 1) div 256 + 1"
  have "(2 :: int) ^ k \<le> 2 ^ 30" using k by (rule power_increasing) simp
  then have x: "1 \<le> x" "x < 2 ^ 30" by (auto simp: x_def pos_imp_zdiv_nonneg_iff)
  have eq: "segs = 2 ^ my_log2 x"
    using next_pow2_eq [OF x(2)] unfolding segs_def x_def [symmetric] next_pow2_int64_def by simp
  then show "(2 ^ k - 1) div 256 < segs" using my_log2_bounds(1) [of x] x by (simp add: x_def)
  show "segs \<le> hash_select_dirsize n"
  proof (cases "my_log2 n \<le> 7")
    case True
    then have "x = 1" by (simp add: x_def k_def)
    then have "segs = 1" using my_log2_le [of 1 0] eq by simp
    moreover have "256 \<le> hash_select_dirsize n"
      using double_until_ge [of 256] by (simp add: hash_select_dirsize_def DEF_DIRSIZE_def Let_def)
    ultimately show ?thesis by simp
  next
    case False
    then have "k = my_log2 n" by (simp add: k_def)
    then have "segs = next_pow2_int64 ((next_pow2_int64 n - 1) div DEF_SEGSIZE + 1)"
      using eq by (simp add: x_def next_pow2_int64_def DEF_SEGSIZE_def)
    then show ?thesis
      using double_until_ge [of DEF_DIRSIZE segs] by (simp add: hash_select_dirsize_def DEF_DIRSIZE_def Let_def)
  qed
qed

lemma empty_htab_ok:
  assumes h: "hdr_ok (hctl T)" and d: "\<And>s. int s < nsegs (hctl T) \<Longrightarrow> dir T s = Some (\<lambda>_. None)"
    and f: "freeLists (hctl T) = (\<lambda>_. \<lparr>nentries = 0, freeList = None\<rparr>)" and b: "brk T = 0"
  shows "htab_ok T (\<lambda>_. [])"
proof -
  have "deref T r = Some None" if r: "r \<in> roots (hctl T)" for r
  proof (cases r)
    case (BucketPtr s n)
    then obtain c where "c \<le> unat (max_bucket (hctl T))" "r = bucket_ptr (hctl T) c"
      using r by (auto simp: roots_def)
    then have "int s < nsegs (hctl T)" using root_segment [OF h] BucketPtr by (auto simp: bucket_ptr_def)
    with d BucketPtr show ?thesis by simp
  next
    case (FreePtr i)
    with f show ?thesis by simp
  next
    case (LinkPtr e)
    with r show ?thesis by (auto simp: roots_def bucket_ptr_def)
  qed
  then have "lists_ok (deref T) (roots (hctl T)) (\<lambda>_. []) {}"
    by (auto simp: lists_ok_def roots_def)
  then show ?thesis
    unfolding htab_ok_def htab_gen_def using h d by (auto simp: f b used_def)
qed

lemma init_htab_ok:
  assumes n: "1 \<le> n" "n < 2 ^ 30" and al: "\<And>k s. alloc T k s" and sh: "isshared T"
    and h: "ssize (hctl T) = 256" "sshift (hctl T) = 8" "nsegs (hctl T) = 0" "num_partitions (hctl T) = 128"
      "dsize (hctl T) = hash_select_dirsize n" "freeLists (hctl T) = (\<lambda>_. \<lparr>nentries = 0, freeList = None\<rparr>)"
      "\<not> isfixed (hctl T)"
    and b: "brk T = 0"
  shows "\<exists>T'. init_htab T n = (True, T') \<and> htab_ok T' (\<lambda>_. []) \<and> brk T' = 0 \<and> hash T' = hash T \<and>
    isshared T' \<and> frozen T' = frozen T \<and> IS_PARTITIONED (hctl T') \<and> \<not> isfixed (hctl T') \<and> alloc T' = alloc T"
proof -
  define k where "k = max (my_log2 n) 7"
  define segs where "segs = next_pow2_int ((2 ^ k - 1) div 256 + 1)"
  note bc = bucket_counts [OF n, folded k_def, folded segs_def]
  let ?h = "(hctl T)\<lparr>max_bucket := mask k, low_mask := mask k, high_mask := mask (Suc k), nsegs := segs,
      nelem_alloc := int (choose_nelem_alloc (entrysize (hctl T)))\<rparr>"
  let ?T = "T\<lparr>nreq := nreq T + nat segs, dir := \<lambda>s. if s < nat segs then Some (\<lambda>_. None) else dir T s, hctl := ?h\<rparr>"
  have segs0: "0 \<le> segs"
  proof -
    have "0 \<le> ((2 :: int) ^ k - 1) div 256" by (simp add: pos_imp_zdiv_nonneg_iff)
    with bc(3) show ?thesis by linarith
  qed
  let ?T1 = "T\<lparr>hctl := (hctl T)\<lparr>max_bucket := mask k, low_mask := mask k, high_mask := mask (Suc k)\<rparr>\<rparr>"
  have seg: "alloc_segments (nat segs) ?T1 = (True, ?T1\<lparr>nreq := nreq T + nat segs,
      dir := \<lambda>s. if s < nat segs then Some (\<lambda>_. None) else dir T s, hctl := (hctl ?T1)\<lparr>nsegs := segs\<rparr>\<rparr>)"
    using alloc_segments_all [of ?T1 "nat segs"] al h(3) segs0 by (simp cong: if_cong)
  have m: "(word_of_int (2 ^ k - 1) :: uint32) = mask k" "word_of_int (2 * 2 ^ k) - 1 = (mask (Suc k) :: uint32)"
    by (simp_all add: mask_eq_exp_minus_1)
  have init: "init_htab T n = (True, ?T)"
    unfolding init_htab_def Let_def h(1,4) bc(1) m
    using bc(4) sh seg by (simp add: segs_def [symmetric] h cong: if_cong)
  have um: "unat (mask k :: uint32) = 2 ^ k - 1" "unat (mask (Suc k) :: uint32) = 2 ^ Suc k - 1"
    using unat_mask32 bc(2) by simp_all
  have "hdr_ok ?h"
    unfolding hdr_ok_def
  proof (intro conjI)
    show "\<exists>j < 32. low_mask ?h = mask j \<and> high_mask ?h = mask (Suc j)"
      using bc(2) by (intro exI [of _ k]) simp
    show "low_mask ?h \<le> max_bucket ?h" by simp
    have "2 ^ k - 1 \<le> (2 :: nat) ^ Suc k - 1" by simp
    then show "max_bucket ?h \<le> high_mask ?h" unfolding word_le_nat_alt using um by simp
    have "int (unat (mask k :: uint32) div 256) = (2 ^ k - 1) div 256"
      unfolding um by (simp add: zdiv_int of_nat_diff)
    then show "int (unat (max_bucket ?h) div 2 ^ sshift ?h) < nsegs ?h" using bc(3) by (simp add: h)
    show "0 < nelem_alloc ?h" using choose_nelem_alloc_ge [of "entrysize (hctl T)"] by simp
  qed (use h bc(4) in simp_all)
  then have "htab_ok ?T (\<lambda>_. [])" by (intro empty_htab_ok) (use h b in auto)
  with init show ?thesis using h b sh by (simp add: IS_PARTITIONED_def)
qed

lemma my_log2_128: "next_pow2_int 128 = 128"
proof -
  have "my_log2 128 \<le> 7" by (rule my_log2_le) simp_all
  moreover have "(128 :: int) \<le> 2 ^ my_log2 128" by (rule my_log2_bounds) simp_all
  then have "(2 :: int) ^ 7 \<le> 2 ^ my_log2 128" by simp
  then have "7 \<le> my_log2 128" by (rule power_le_imp_le_exp [rotated]) simp
  ultimately have "my_log2 128 = 7" by simp
  then show ?thesis by (simp add: next_pow2_eq next_pow2_int64_def)
qed

text \<open>The flags and parameters with which a fixed-size partitioned table is made in shared memory.\<close>

definition shared_fixed :: "hash_flag set \<Rightarrow> bool" where
  "shared_fixed flags \<longleftrightarrow>
     {HASH_ELEM, HASH_SHARED_MEM, HASH_PARTITION, HASH_DIRSIZE, HASH_FIXED_SIZE} \<subseteq> flags \<and> HASH_SEGMENT \<notin> flags"

lemma fix_table: "htab_gen (T\<lparr>hctl := (hctl T)\<lparr>isfixed := x\<rparr>\<rparr>) L X d = htab_gen T L X d"
proof -
  let ?T = "T\<lparr>hctl := (hctl T)\<lparr>isfixed := x\<rparr>\<rparr>"
  have D: "deref ?T = deref T"
  proof
    fix q show "deref ?T q = deref T q" by (cases q) simp_all
  qed
  have h: "roots (hctl ?T) = roots (hctl T)" "used (hctl ?T) L = used (hctl T) L"
    "calc_bucket (hctl ?T) = calc_bucket (hctl T)" "bucket_ptr (hctl ?T) = bucket_ptr (hctl T)"
    "FREELIST_IDX (hctl ?T) = FREELIST_IDX (hctl T)" "hdr_ok (hctl ?T) = hdr_ok (hctl T)"
    "freeLists (hctl ?T) = freeLists (hctl T)" "nsegs (hctl ?T) = nsegs (hctl T)"
    "max_bucket (hctl ?T) = max_bucket (hctl T)"
    by (simp_all add: roots_def used_def calc_bucket_def bucket_ptr_def FREELIST_IDX_def IS_PARTITIONED_def
        hdr_ok_def fun_eq_iff Let_def)
  have t: "heap ?T = heap T" "hash ?T = hash T" "dir ?T = dir T" "brk ?T = brk T" by simp_all
  show ?thesis unfolding htab_gen_def D h t by (rule refl)
qed

lemma hash_create_shared_ok:
  assumes fl: "shared_fixed flags" and info: "info_num_partitions info = 128"
      "info_dsize info = hash_select_dirsize (int nelem)" "0 < info_keysize info"
      "info_keysize info \<le> info_entrysize info"
    and n: "1 \<le> nelem" "nelem < 2 ^ 30" and al: "\<And>k s. allocf k s"
  shows "\<exists>T. hash_create hashfn allocf memory nelem info flags = Done T () \<and> hash_rep T Map.empty \<and>
    nelem \<le> brk T \<and> hash T = hashfn \<and> IS_PARTITIONED (hctl T) \<and> isfixed (hctl T) \<and> isshared T \<and> \<not> frozen T"
proof -
  let ?h = "hdefault\<lparr>num_partitions := 128, max_dsize := info_max_dsize info,
     dsize := hash_select_dirsize (int nelem), entrysize := info_entrysize info\<rparr>"
  let ?T = "\<lparr>hctl = ?h, dir = (\<lambda>_. None), heap = memory, brk = 0, hash = hashfn, alloc = allocf,
     nreq = 0, isshared = True, frozen = False, has_seq_scans = False\<rparr>"
  have flags: "HASH_ELEM \<in> flags" "HASH_SHARED_MEM \<in> flags" "HASH_PARTITION \<in> flags" "HASH_DIRSIZE \<in> flags"
    "HASH_FIXED_SIZE \<in> flags" "HASH_SEGMENT \<notin> flags" using fl by (auto simp: shared_fixed_def)
  have hdr: "hash_create_hdr info flags = Some ?h"
    using flags info by (simp add: hash_create_hdr_def my_log2_128 hdefault_def Let_def)
  obtain T1 where T1: "init_htab ?T (int nelem) = (True, T1)" "htab_ok T1 (\<lambda>_. [])" "brk T1 = 0"
    "hash T1 = hashfn" "isshared T1" "frozen T1 = False" "IS_PARTITIONED (hctl T1)" "\<not> isfixed (hctl T1)"
    "alloc T1 = allocf"
    using init_htab_ok [of "int nelem" ?T] n al
    by (auto simp: hdefault_def DEF_SEGSIZE_def DEF_SEGSIZE_SHIFT_def)
  have "\<exists>T' L'. alloc_freelists (freelist_shares True nelem) T1 = (True, T') \<and> htab_ok T' L' \<and>
      used (hctl T') L' = {} \<and> tab_frame T1 T' \<and> brk T' = brk T1 + sum_list (map snd (freelist_shares True nelem))"
    by (rule alloc_freelists_ok [OF T1(2)]) (use T1 al freelist_shares_ok(1) [of nelem True] n in \<open>auto simp: used_def\<close>)
  then obtain T' L' where T': "alloc_freelists (freelist_shares True nelem) T1 = (True, T')" "htab_ok T' L'"
    "used (hctl T') L' = {}" "tab_frame T1 T'" "brk T' = sum_list (map snd (freelist_shares True nelem))"
    using T1(3) by auto
  let ?T' = "T'\<lparr>hctl := (hctl T')\<lparr>isfixed := True\<rparr>\<rparr>"
  have "hash_create hashfn allocf memory nelem info flags = Done ?T' ()"
    using flags info hdr T1(1,7) T'(1) by (simp add: hash_create_def)
  moreover have "htab_ok ?T' L'" using T'(2) by (simp add: htab_ok_def fix_table)
  moreover have "holds ?T' L' Map.empty"
    using T'(3) by (simp add: holds_def used_def bucket_ptr_def)
  moreover have "nelem \<le> brk ?T'" using T'(5) freelist_shares_ok(2) [of nelem True] n by simp
  moreover have "IS_PARTITIONED (hctl ?T')" "hash ?T' = hashfn" "isshared ?T'" "\<not> frozen ?T'"
    using T1 T'(4) hdr_frameD(7) [of "hctl T1" "hctl T'"] by (auto simp: tab_frame_def IS_PARTITIONED_def)
  ultimately show ?thesis by (auto simp: hash_rep_def)
qed

section \<open>Properties\<close>



text \<open>
  C29: Splitting a bucket keeps the map. Adding one bucket, with its segment and, if needed, a
  larger directory, and dealing the entries of the one affected bucket out by the adjusted
  masks changes neither what the table maps nor the elements it has, whether or not the memory
  for the segment is granted; the relocation of the chain always ends.
\<close>
theorem expand_table_preserves_map:
  assumes "hash_rep T m" "unat (max_bucket (hctl T)) + 1 < 2 ^ 31"
  shows "\<exists>b T'. expand_table T = Some (b, T') \<and> hash_rep T' m \<and> brk T' = brk T"
  using assms expand_table_ok unfolding hash_rep_def by (metis Suc_eq_plus1)

theorem expand_table_preserves_map_witness:
  "\<exists>T :: (nat, int) HTAB. \<exists>b T'. expand_table T = Some (b, T') \<and> hash_rep T' Map.empty"
proof -
  let ?h = "hdefault\<lparr>nsegs := 1, max_bucket := 3, low_mask := 3, high_mask := 7, nelem_alloc := 32\<rparr>"
  let ?T = "\<lparr>hctl = ?h, dir = (\<lambda>_. None)(0 := Some (\<lambda>_. None)), heap = undefined, brk = 0,
    hash = word_of_nat, alloc = (\<lambda>_ _. True), nreq = 0, isshared = False, frozen = False,
    has_seq_scans = False\<rparr> :: (nat, int) HTAB"
  have "hdr_ok ?h"
    unfolding hdr_ok_def
    by (intro conjI exI [of _ 2])
      (simp_all add: hdefault_def DEF_SEGSIZE_def DEF_SEGSIZE_SHIFT_def DEF_DIRSIZE_def mask_eq_exp_minus_1)
  then have "htab_ok ?T (\<lambda>_. [])" by (intro empty_htab_ok) (auto simp: hdefault_def)
  then have "hash_rep ?T Map.empty" by (auto simp: hash_rep_def holds_def used_def)
  then show ?thesis
    using expand_table_preserves_map [of ?T Map.empty] by (auto simp: hdefault_def)
qed



end
