(* ===== verification/Buf_Table.thy ===== *)
theory Buf_Table
  imports Buf_Internals Dynahash
begin

unbundle bit_operations_syntax

text \<open>
  The shared buffer lookup table of \<^verbatim>\<open>buf_table.c\<close>, on the hash tables of \<^verbatim>\<open>dynahash.c\<close>. A
  key is a buffer tag, hashed as its twenty bytes; an entry holds a buffer number. The contract
  that the buffer manager relies on is the locale \<open>buffer_mapping\<close>, interpreted at the end on the
  operations of the source.
\<close>

type_synonym buf_table = "(BufferTag, int) HTAB"

definition word_bytes :: "bool \<Rightarrow> uint32 \<Rightarrow> uint8 list" where
  "word_bytes be w =
     (let bs = [ucast w, ucast (drop_bit 8 w), ucast (drop_bit 16 w), ucast (drop_bit 24 w)]
      in if be then rev bs else bs)"

definition tag_bytes :: "bool \<Rightarrow> BufferTag \<Rightarrow> uint8 list" where
  "tag_bytes be tag =
     word_bytes be (spcOid tag) @ word_bytes be (dbOid tag) @ word_bytes be (relNumber tag) @
     word_bytes be (word_of_int (forkNum tag)) @ word_bytes be (blockNum tag)"

definition sizeof_BufferTag :: nat where "sizeof_BufferTag = 20"
definition sizeof_BufferLookupEnt :: nat where "sizeof_BufferLookupEnt = 24"

definition BufTableShmemSize :: "nat \<Rightarrow> int \<Rightarrow> nat option" where
  "BufTableShmemSize sizeof_HASHHDR n = hash_estimate_size sizeof_HASHHDR n sizeof_BufferLookupEnt"

text \<open>
  \<open>ShmemInitHash\<close> creates the table, or attaches to the one that \<open>ShmemInitStruct\<close> finds.
\<close>

definition ShmemInitHash ::
    "('k, 'v) HTAB option \<Rightarrow> ('k \<Rightarrow> uint32) \<Rightarrow> (nat \<Rightarrow> nat \<Rightarrow> bool) \<Rightarrow> (elem \<Rightarrow> ('k, 'v) HASHELEMENT) \<Rightarrow>
     nat \<Rightarrow> int \<Rightarrow> HASHCTL \<Rightarrow> hash_flag set \<Rightarrow> (('k, 'v) HTAB, unit) run" where
  "ShmemInitHash found hashfn allocf memory init_size max_size info flags =
     (let info = info\<lparr>info_dsize := hash_select_dirsize max_size, info_max_dsize := hash_select_dirsize max_size\<rparr>;
          flags = flags \<union> {HASH_SHARED_MEM, HASH_ALLOC, HASH_DIRSIZE}
      in case found of
           Some T \<Rightarrow> Done T ()
         | None \<Rightarrow> hash_create hashfn allocf memory init_size info flags)"

definition InitBufTable ::
    "bool \<Rightarrow> buf_table option \<Rightarrow> (nat \<Rightarrow> nat \<Rightarrow> bool) \<Rightarrow> (elem \<Rightarrow> (BufferTag, int) HASHELEMENT) \<Rightarrow> nat \<Rightarrow>
     (buf_table, unit) run" where
  "InitBufTable be found allocf memory n =
     (let info = \<lparr>info_num_partitions = int (unat NUM_BUFFER_PARTITIONS), info_ssize = 0, info_dsize = 0,
                  info_max_dsize = 0, info_keysize = sizeof_BufferTag, info_entrysize = sizeof_BufferLookupEnt\<rparr>;
          flags = {HASH_ELEM, HASH_BLOBS, HASH_PARTITION, HASH_FIXED_SIZE}
      in case hash_select be flags sizeof_BufferTag (\<lambda>_ _. 0) of
           None \<Rightarrow> Crash
         | Some f \<Rightarrow>
             ShmemInitHash found (\<lambda>tag. case f (tag_bytes be tag) of None \<Rightarrow> 0 | Some h \<Rightarrow> h)
               allocf memory n (int n) info flags)"

definition BufTableHashCode :: "buf_table \<Rightarrow> BufferTag \<Rightarrow> uint32" where
  "BufTableHashCode T tag = hash T tag"

definition BufTableLookup :: "buf_table \<Rightarrow> BufferTag \<Rightarrow> uint32 \<Rightarrow> (buf_table, int) run" where
  "BufTableLookup T tag hashcode =
     (case hash_search_with_hash_value T tag hashcode HASH_FIND of
        Done T (None, found) \<Rightarrow> Done T (-1)
      | Done T (Some e, found) \<Rightarrow> Done T (edata (heap T e))
      | Raise T e \<Rightarrow> Raise T e | Spin T \<Rightarrow> Spin T | Crash \<Rightarrow> Crash)"

definition BufTableInsert :: "buf_table \<Rightarrow> BufferTag \<Rightarrow> uint32 \<Rightarrow> int \<Rightarrow> (buf_table, int) run" where
  "BufTableInsert T tag hashcode buf_id =
     (if buf_id < 0 \<or> blockNum tag = InvalidBlockNumber then Crash
      else case hash_search_with_hash_value T tag hashcode HASH_ENTER of
        Done T (Some e, found) \<Rightarrow>
          if found then Done T (edata (heap T e)) else Done (set_data e buf_id T) (-1)
      | Done T (None, found) \<Rightarrow> Crash
      | Raise T e \<Rightarrow> Raise T e | Spin T \<Rightarrow> Spin T | Crash \<Rightarrow> Crash)"

definition BufTableDelete :: "buf_table \<Rightarrow> BufferTag \<Rightarrow> uint32 \<Rightarrow> (buf_table, unit) run" where
  "BufTableDelete T tag hashcode =
     (case hash_search_with_hash_value T tag hashcode HASH_REMOVE of
        Done T (None, found) \<Rightarrow> Raise T SharedBufferTableCorrupted
      | Done T (Some e, found) \<Rightarrow> Done T ()
      | Raise T e \<Rightarrow> Raise T e | Spin T \<Rightarrow> Spin T | Crash \<Rightarrow> Crash)"

section \<open>The contract of the table\<close>

locale buffer_mapping =
  fixes hashcode :: "'t \<Rightarrow> BufferTag \<Rightarrow> uint32"
    and lookup :: "'t \<Rightarrow> BufferTag \<Rightarrow> uint32 \<Rightarrow> ('t, int) run"
    and insrt :: "'t \<Rightarrow> BufferTag \<Rightarrow> uint32 \<Rightarrow> int \<Rightarrow> ('t, int) run"
    and delet :: "'t \<Rightarrow> BufferTag \<Rightarrow> uint32 \<Rightarrow> ('t, unit) run"
    and rep :: "'t \<Rightarrow> (BufferTag \<rightharpoonup> int) \<Rightarrow> bool"
    and capacity :: "'t \<Rightarrow> nat"
  assumes lookup: "rep t m \<Longrightarrow> lookup t tag (hashcode t tag) = Done t (case m tag of None \<Rightarrow> -1 | Some b \<Rightarrow> b)"
    and insert_new: "rep t m \<Longrightarrow> m tag = None \<Longrightarrow> 0 \<le> b \<Longrightarrow> blockNum tag \<noteq> InvalidBlockNumber \<Longrightarrow>
      card (dom m) < capacity t \<Longrightarrow>
      \<exists>t'. insrt t tag (hashcode t tag) b = Done t' (-1) \<and> rep t' (m(tag \<mapsto> b)) \<and>
        hashcode t' = hashcode t \<and> capacity t' = capacity t"
    and insert_old: "rep t m \<Longrightarrow> m tag = Some c \<Longrightarrow> 0 \<le> b \<Longrightarrow> blockNum tag \<noteq> InvalidBlockNumber \<Longrightarrow>
      \<exists>t'. insrt t tag (hashcode t tag) b = Done t' c \<and> rep t' m \<and> hashcode t' = hashcode t \<and>
        capacity t' = capacity t"
    and delete: "rep t m \<Longrightarrow> m tag = Some c \<Longrightarrow>
      \<exists>t'. delet t tag (hashcode t tag) = Done t' () \<and> rep t' (m(tag := None)) \<and> hashcode t' = hashcode t \<and>
        capacity t' = capacity t"
    and delete_missing: "rep t m \<Longrightarrow> m tag = None \<Longrightarrow>
      \<exists>t'. delet t tag (hashcode t tag) = Raise t' SharedBufferTableCorrupted \<and> rep t' m"
    and finite_rep: "rep t m \<Longrightarrow> finite (dom m)"
begin

text \<open>Giving a buffer a new identity: its old tag goes, the new one leads to it.\<close>

lemma retag:
  assumes "rep t m" "m old = Some b" "m new = None" "0 \<le> b" "blockNum new \<noteq> InvalidBlockNumber"
    "card (dom m) \<le> capacity t"
  shows "\<exists>t1 t2. delet t old (hashcode t old) = Done t1 () \<and> insrt t1 new (hashcode t1 new) b = Done t2 (-1) \<and>
    rep t2 (m(old := None, new \<mapsto> b)) \<and> lookup t2 new (hashcode t2 new) = Done t2 b \<and>
    (new \<noteq> old \<longrightarrow> lookup t2 old (hashcode t2 old) = Done t2 (-1))"
proof -
  obtain t1 where t1: "delet t old (hashcode t old) = Done t1 ()" "rep t1 (m(old := None))"
      "capacity t1 = capacity t"
    using delete [OF assms(1,2)] by blast
  have fin: "finite (dom m)" by (rule finite_rep [OF assms(1)])
  have "card (dom (m(old := None))) < card (dom m)"
    using fin assms(2) by (intro psubset_card_mono) auto
  then have room: "card (dom (m(old := None))) < capacity t1" using assms(6) t1(3) by simp
  have "(m(old := None)) new = None" using assms(3) by simp
  then obtain t2 where t2: "insrt t1 new (hashcode t1 new) b = Done t2 (-1)" "rep t2 (m(old := None, new \<mapsto> b))"
    using insert_new [OF t1(2) _ assms(4,5) room] by blast
  with t1 show ?thesis using lookup [OF t2(2)] by simp
qed

text \<open>An insertion is undone by a deletion: the table represents the same map again.\<close>

lemma insert_delete:
  assumes "rep t m" "m tag = None" "0 \<le> b" "blockNum tag \<noteq> InvalidBlockNumber" "card (dom m) < capacity t"
  shows "\<exists>t1 t2. insrt t tag (hashcode t tag) b = Done t1 (-1) \<and> delet t1 tag (hashcode t1 tag) = Done t2 () \<and> rep t2 m"
proof -
  obtain t1 where t1: "insrt t tag (hashcode t tag) b = Done t1 (-1)" "rep t1 (m(tag \<mapsto> b))"
    using insert_new [OF assms] by blast
  obtain t2 where "delet t1 tag (hashcode t1 tag) = Done t2 ()" "rep t2 ((m(tag \<mapsto> b))(tag := None))"
    using delete [OF t1(2), of tag b] by auto
  moreover have "(m(tag \<mapsto> b))(tag := None) = m" using assms(2) by (simp add: fun_upd_idem)
  ultimately show ?thesis using t1(1) by auto
qed

end

text \<open>
  \<open>buf_table_rep T m\<close>: a partitioned table of fixed size that implements \<open>m\<close>. Its capacity is
  the number of elements allocated at creation.
\<close>

definition buf_table_rep :: "buf_table \<Rightarrow> (BufferTag \<rightharpoonup> int) \<Rightarrow> bool" where
  "buf_table_rep T m \<longleftrightarrow>
     hash_rep T m \<and> IS_PARTITIONED (hctl T) \<and> isfixed (hctl T) \<and> isshared T \<and> \<not> frozen T"

lemma buf_table_config: "buf_table_rep T m \<Longrightarrow> same_config T T' \<Longrightarrow> hash_rep T' m' \<Longrightarrow> buf_table_rep T' m'"
  by (simp add: buf_table_rep_def same_config_def)

lemma hash_rep_finite: "hash_rep T m \<Longrightarrow> finite (dom m)"
  using hash_rep_config(1) finite_used by (fastforce simp: hash_rep_def htab_ok_def)

lemma BufTableLookup_ok:
  assumes "buf_table_rep T m"
  shows "BufTableLookup T tag (BufTableHashCode T tag) = Done T (case m tag of None \<Rightarrow> -1 | Some b \<Rightarrow> b)"
proof -
  obtain e where "hash_search_with_hash_value T tag (hash T tag) HASH_FIND = Done T (e, m tag \<noteq> None)"
    "map_option (\<lambda>e. edata (heap T e)) e = m tag"
    using hash_search_find assms by (fastforce simp: buf_table_rep_def)
  then show ?thesis by (cases e; cases "m tag") (auto simp: BufTableLookup_def BufTableHashCode_def)
qed

lemma BufTableInsert_new:
  assumes rep: "buf_table_rep T m" and new: "m tag = None" and b: "0 \<le> b" "blockNum tag \<noteq> InvalidBlockNumber"
    and room: "card (dom m) < brk T"
  shows "\<exists>T'. BufTableInsert T tag (BufTableHashCode T tag) b = Done T' (-1) \<and> buf_table_rep T' (m(tag \<mapsto> b)) \<and>
    same_config T T'"
proof -
  have "entered T m tag (hash_search_with_hash_value T tag (hash T tag) HASH_ENTER)"
    using rep by (intro hash_search_enter_new new) (auto simp: buf_table_rep_def can_split_def)
  then obtain T' e where s: "hash_search_with_hash_value T tag (hash T tag) HASH_ENTER = Done T' (Some e, False)"
    "hash_rep (set_data e b T') (m(tag \<mapsto> b))" "same_config T T'"
    using rep room by (auto simp: entered_def buf_table_rep_def split: run.splits prod.splits option.splits)
  with b buf_table_config [OF rep, of "set_data e b T'"] show ?thesis
    by (auto simp: BufTableInsert_def BufTableHashCode_def)
qed

lemma BufTableInsert_old:
  assumes rep: "buf_table_rep T m" and old: "m tag = Some c" and b: "0 \<le> b" "blockNum tag \<noteq> InvalidBlockNumber"
  shows "\<exists>T'. BufTableInsert T tag (BufTableHashCode T tag) b = Done T' c \<and> buf_table_rep T' m \<and> same_config T T'"
proof -
  obtain T' e where s: "hash_search_with_hash_value T tag (hash T tag) HASH_ENTER = Done T' (Some e, True)"
    "edata (heap T' e) = c" "hash_rep T' m" "same_config T T'"
    using hash_search_enter_old [of T m tag c] rep old by (auto simp: buf_table_rep_def can_split_def)
  with b buf_table_config [OF rep] show ?thesis
    by (auto simp: BufTableInsert_def BufTableHashCode_def)
qed

lemma BufTableDelete_ok:
  assumes rep: "buf_table_rep T m"
  shows "\<exists>T'. BufTableDelete T tag (BufTableHashCode T tag) =
      (if m tag = None then Raise T' SharedBufferTableCorrupted else Done T' ()) \<and>
    buf_table_rep T' (m(tag := None)) \<and> same_config T T'"
proof -
  obtain T' e where s: "hash_search_with_hash_value T tag (hash T tag) HASH_REMOVE = Done T' (e, m tag \<noteq> None)"
    "e = None \<longleftrightarrow> m tag = None" "hash_rep T' (m(tag := None))" "same_config T T'"
    using hash_search_remove [of T m tag] rep by (auto simp: buf_table_rep_def)
  with buf_table_config [OF rep] show ?thesis
    by (cases e) (auto simp: BufTableDelete_def BufTableHashCode_def)
qed

interpretation bt: buffer_mapping BufTableHashCode BufTableLookup BufTableInsert BufTableDelete buf_table_rep brk
proof unfold_locales
  fix t m tag and b c :: int
  show "buf_table_rep t m \<Longrightarrow>
      BufTableLookup t tag (BufTableHashCode t tag) = Done t (case m tag of None \<Rightarrow> -1 | Some b \<Rightarrow> b)"
    by (rule BufTableLookup_ok)
  have cfg: "BufTableHashCode t' = BufTableHashCode t \<and> brk t' = brk t"
    if "buf_table_rep t m" "same_config t t'" for t'
    using that by (auto simp: same_config_def buf_table_rep_def BufTableHashCode_def fun_eq_iff)
  show "buf_table_rep t m \<Longrightarrow> m tag = None \<Longrightarrow> 0 \<le> b \<Longrightarrow> blockNum tag \<noteq> InvalidBlockNumber \<Longrightarrow>
      card (dom m) < brk t \<Longrightarrow>
      \<exists>t'. BufTableInsert t tag (BufTableHashCode t tag) b = Done t' (-1) \<and> buf_table_rep t' (m(tag \<mapsto> b)) \<and>
        BufTableHashCode t' = BufTableHashCode t \<and> brk t' = brk t"
    using BufTableInsert_new cfg by blast
  show "buf_table_rep t m \<Longrightarrow> m tag = Some c \<Longrightarrow> 0 \<le> b \<Longrightarrow> blockNum tag \<noteq> InvalidBlockNumber \<Longrightarrow>
      \<exists>t'. BufTableInsert t tag (BufTableHashCode t tag) b = Done t' c \<and> buf_table_rep t' m \<and>
        BufTableHashCode t' = BufTableHashCode t \<and> brk t' = brk t"
    using BufTableInsert_old cfg by blast
  show "buf_table_rep t m \<Longrightarrow> m tag = Some c \<Longrightarrow>
      \<exists>t'. BufTableDelete t tag (BufTableHashCode t tag) = Done t' () \<and> buf_table_rep t' (m(tag := None)) \<and>
        BufTableHashCode t' = BufTableHashCode t \<and> brk t' = brk t"
    using BufTableDelete_ok [of t m tag] cfg by auto
  show "buf_table_rep t m \<Longrightarrow> m tag = None \<Longrightarrow>
      \<exists>t'. BufTableDelete t tag (BufTableHashCode t tag) = Raise t' SharedBufferTableCorrupted \<and> buf_table_rep t' m"
    using BufTableDelete_ok [of t m tag] by (auto simp: fun_upd_idem)
  show "buf_table_rep t m \<Longrightarrow> finite (dom m)"
    by (simp add: buf_table_rep_def hash_rep_finite [of t])
qed

section \<open>Properties\<close>

lemma InitBufTable_ok:
  assumes n: "1 \<le> n" "n < 2 ^ 30" and al: "\<And>k s. allocf k s"
  shows "\<exists>T. InitBufTable be None allocf memory n = Done T () \<and> buf_table_rep T Map.empty \<and> n \<le> brk T \<and>
    BufTableHashCode T = (\<lambda>tag. hash_bytes be True (tag_bytes be tag))"
proof -
  let ?info = "\<lparr>info_num_partitions = int (unat NUM_BUFFER_PARTITIONS), info_ssize = 0,
    info_dsize = hash_select_dirsize (int n), info_max_dsize = hash_select_dirsize (int n),
    info_keysize = sizeof_BufferTag, info_entrysize = sizeof_BufferLookupEnt\<rparr>"
  let ?flags = "{HASH_ELEM, HASH_BLOBS, HASH_PARTITION, HASH_FIXED_SIZE} \<union> {HASH_SHARED_MEM, HASH_ALLOC, HASH_DIRSIZE}"
  have len: "length (tag_bytes be tag) = 20" for tag by (simp add: tag_bytes_def word_bytes_def Let_def)
  have init: "InitBufTable be None allocf memory n =
      hash_create (\<lambda>tag. hash_bytes be True (tag_bytes be tag)) allocf memory n ?info ?flags"
    by (simp add: InitBufTable_def hash_select_def ShmemInitHash_def sizeof_BufferTag_def tag_hash_def len Let_def)
  have "\<exists>T. hash_create (\<lambda>tag. hash_bytes be True (tag_bytes be tag)) allocf memory n ?info ?flags = Done T () \<and>
      hash_rep T Map.empty \<and> n \<le> brk T \<and> hash T = (\<lambda>tag. hash_bytes be True (tag_bytes be tag)) \<and>
      IS_PARTITIONED (hctl T) \<and> isfixed (hctl T) \<and> isshared T \<and> \<not> frozen T"
    by (rule hash_create_shared_ok)
      (use n al in \<open>auto simp: shared_fixed_def NUM_BUFFER_PARTITIONS_def sizeof_BufferTag_def sizeof_BufferLookupEnt_def\<close>)
  then show ?thesis unfolding init by (auto simp: buf_table_rep_def BufTableHashCode_def fun_eq_iff)
qed

text \<open>
  C12: The lookup table of the buffer manager never runs out of entries. The table that
  \<open>InitBufTable\<close> makes for \<open>NBuffers + NUM_BUFFER_PARTITIONS\<close> entries is empty, hashes a tag as
  its bytes, and from any table with that many elements and fewer tags in it, inserting a
  further tag succeeds: the tag then leads to its buffer and every other tag to the one it led
  to before.
\<close>
theorem BufTable_never_full:
  assumes "1 \<le> NBuffers" "NBuffers < 2 ^ 29" "\<forall>k s. allocf k s"
  shows "(\<exists>T. InitBufTable be None allocf memory (NBuffers + 128) = Done T () \<and> buf_table_rep T Map.empty \<and>
      NBuffers + 128 \<le> brk T \<and> BufTableHashCode T = (\<lambda>tag. hash_bytes be True (tag_bytes be tag))) \<and>
    (\<forall>T m tag b. buf_table_rep T m \<and> NBuffers + 128 \<le> brk T \<and> card (dom m) < NBuffers + 128 \<and>
       m tag = None \<and> 0 \<le> b \<and> blockNum tag \<noteq> InvalidBlockNumber \<longrightarrow>
       (\<exists>T'. BufTableInsert T tag (BufTableHashCode T tag) b = Done T' (-1) \<and>
          (\<forall>tag'. BufTableLookup T' tag' (BufTableHashCode T' tag') =
             Done T' (case (m(tag \<mapsto> b)) tag' of None \<Rightarrow> -1 | Some c \<Rightarrow> c))))"
proof (intro conjI allI impI)
  show "\<exists>T. InitBufTable be None allocf memory (NBuffers + 128) = Done T () \<and> buf_table_rep T Map.empty \<and>
      NBuffers + 128 \<le> brk T \<and> BufTableHashCode T = (\<lambda>tag. hash_bytes be True (tag_bytes be tag))"
    by (rule InitBufTable_ok) (use assms in auto)
  fix T m tag and b :: int
  assume *: "buf_table_rep T m \<and> NBuffers + 128 \<le> brk T \<and> card (dom m) < NBuffers + 128 \<and>
       m tag = None \<and> 0 \<le> b \<and> blockNum tag \<noteq> InvalidBlockNumber"
  then obtain T' where "BufTableInsert T tag (BufTableHashCode T tag) b = Done T' (-1)"
      "buf_table_rep T' (m(tag \<mapsto> b))"
    using bt.insert_new [of T m tag b] by auto
  then show "\<exists>T'. BufTableInsert T tag (BufTableHashCode T tag) b = Done T' (-1) \<and>
          (\<forall>tag'. BufTableLookup T' tag' (BufTableHashCode T' tag') =
             Done T' (case (m(tag \<mapsto> b)) tag' of None \<Rightarrow> -1 | Some c \<Rightarrow> c))"
    using bt.lookup by blast
qed

theorem BufTable_never_full_witness:
  "\<exists>T. InitBufTable False None (\<lambda>_ _. True) (\<lambda>_. undefined) (16384 + 128) = Done T () \<and>
     buf_table_rep T Map.empty \<and> 16384 + 128 \<le> brk T"
  using BufTable_never_full [of 16384 "\<lambda>_ _. True" False "\<lambda>_. undefined"] by auto

text \<open>
  C28: Renaming a buffer in the table. Deleting the old tag of a buffer and inserting its new tag
  succeeds in a table whose tags fit into it, and afterwards the new tag leads to the buffer, the
  old tag to nothing and every other tag to where it led before; deleting a tag that is not in
  the table is reported as corruption and changes no entry.
\<close>
theorem BufTable_retag:
  assumes "buf_table_rep T m" "m old = Some b" "m new = None" "0 \<le> b" "blockNum new \<noteq> InvalidBlockNumber"
    "card (dom m) \<le> brk T"
  shows "\<exists>T1 T2. BufTableDelete T old (BufTableHashCode T old) = Done T1 () \<and>
    BufTableInsert T1 new (BufTableHashCode T1 new) b = Done T2 (-1) \<and>
    buf_table_rep T2 (m(old := None, new \<mapsto> b)) \<and>
    BufTableLookup T2 new (BufTableHashCode T2 new) = Done T2 b \<and>
    (\<exists>T3. BufTableDelete T2 old (BufTableHashCode T2 old) = Raise T3 SharedBufferTableCorrupted \<and>
       buf_table_rep T3 (m(old := None, new \<mapsto> b)))"
proof -
  obtain T1 T2 where "BufTableDelete T old (BufTableHashCode T old) = Done T1 ()"
    "BufTableInsert T1 new (BufTableHashCode T1 new) b = Done T2 (-1)"
    "buf_table_rep T2 (m(old := None, new \<mapsto> b))" "BufTableLookup T2 new (BufTableHashCode T2 new) = Done T2 b"
    using bt.retag [OF assms] by blast
  moreover from this have "\<exists>T3. BufTableDelete T2 old (BufTableHashCode T2 old) = Raise T3 SharedBufferTableCorrupted \<and>
       buf_table_rep T3 (m(old := None, new \<mapsto> b))"
    using assms(2,3) by (intro bt.delete_missing) auto
  ultimately show ?thesis by blast
qed

theorem BufTable_retag_witness:
  "\<exists>T m T1 T2. buf_table_rep T m \<and>
     BufTableDelete T \<lparr>spcOid = 1, dbOid = 1, relNumber = 1, forkNum = 0, blockNum = 5\<rparr>
       (BufTableHashCode T \<lparr>spcOid = 1, dbOid = 1, relNumber = 1, forkNum = 0, blockNum = 5\<rparr>) = Done T1 () \<and>
     BufTableInsert T1 \<lparr>spcOid = 1, dbOid = 1, relNumber = 1, forkNum = 0, blockNum = 6\<rparr>
       (BufTableHashCode T1 \<lparr>spcOid = 1, dbOid = 1, relNumber = 1, forkNum = 0, blockNum = 6\<rparr>) 3 = Done T2 (-1)"
proof -
  let ?a = "\<lparr>spcOid = 1, dbOid = 1, relNumber = 1, forkNum = 0, blockNum = 5\<rparr>"
  let ?b = "\<lparr>spcOid = 1, dbOid = 1, relNumber = 1, forkNum = 0, blockNum = 6\<rparr>"
  obtain T0 where T0: "buf_table_rep T0 Map.empty" "144 \<le> brk T0"
    using InitBufTable_ok [of 144 "\<lambda>_ _. True" False "\<lambda>_. undefined"] by auto
  have "\<exists>T. BufTableInsert T0 ?a (BufTableHashCode T0 ?a) 3 = Done T (-1) \<and> buf_table_rep T (Map.empty(?a \<mapsto> 3)) \<and>
      BufTableHashCode T = BufTableHashCode T0 \<and> brk T = brk T0"
    by (rule bt.insert_new [OF T0(1)]) (use T0(2) in \<open>auto simp: InvalidBlockNumber_def\<close>)
  then obtain T where T: "buf_table_rep T (Map.empty(?a \<mapsto> 3))" "brk T = brk T0" by blast
  have "blockNum ?b \<noteq> InvalidBlockNumber" "?b \<noteq> ?a" by (simp_all add: InvalidBlockNumber_def)
  with BufTable_retag [OF T(1), of ?a 3 ?b] T T0(2) show ?thesis by auto
qed

end
