(* ===== verification/Strategy.thy ===== *)
theory Strategy
  imports Clock_Sweep Sieve LRU LFU Buf_Table
begin

unbundle bit_operations_syntax

text \<open>
  The policy-independent layer of \<^verbatim>\<open>freelist.c\<close>: the table of policy operations
  (\<open>EvictionVtable\<close>), its four instances, and the functions through which the buffer manager
  reaches the active policy. The contract of a policy is the locale \<open>eviction_policy\<close>,
  interpreted on the four tables; the properties of the layer are proved once in it.
  The active policy is a parameter of the operations: the source selects it by one assignment
  in \<open>StrategyInitialize\<close>.
\<close>

section \<open>The tables of operations\<close>

record 'p EvictionVtable =
  get_buffer :: "nat \<Rightarrow> nat \<Rightarrow> interference \<Rightarrow> nat \<Rightarrow> 'p pool \<Rightarrow> (nat \<times> 'p pool, victim) run"
  notify_hit :: "(nat \<Rightarrow> nat \<Rightarrow> 'p \<Rightarrow> 'p option) option"
  notify_insert :: "(nat \<Rightarrow> nat \<Rightarrow> 'p \<Rightarrow> 'p option) option"
  notify_invalidate :: "(nat \<Rightarrow> nat \<Rightarrow> 'p \<Rightarrow> 'p option) option"
  shmem_size :: "uint32 \<Rightarrow> uint64"
  initialize :: "nat \<Rightarrow> bool \<Rightarrow> 'p \<Rightarrow> 'p option"

text \<open>
  The sizes the policies ask for. An \<open>int\<close> product is converted to \<open>Size\<close> by sign extension
  before it is multiplied by \<open>sizeof(int32)\<close>.
\<close>

definition ClockSweepShmemSize :: "uint32 \<Rightarrow> uint64" where
  "ClockSweepShmemSize n_buffers = 4"

definition SieveShmemSize :: "uint32 \<Rightarrow> uint64" where
  "SieveShmemSize n_buffers = 8 + scast (2 * (n_buffers + 1)) * 4"

definition LRUShmemSize :: "uint32 \<Rightarrow> uint64" where
  "LRUShmemSize n_buffers = 4 + scast (2 * (n_buffers + 1)) * 4"

definition LFUShmemSize :: "uint32 \<Rightarrow> uint64" where
  "LFUShmemSize n_buffers =
     8 + scast n_buffers * 4 + scast (2 * (n_buffers + word_of_nat LFU_MAX_FREQ)) * 4"

definition ClockSweepVtable :: "hand_interference \<Rightarrow> ClockSweepState EvictionVtable" where
  "ClockSweepVtable H =
     \<lparr>get_buffer = ClockSweepGetBuffer H, notify_hit = None, notify_insert = None,
      notify_invalidate = None, shmem_size = ClockSweepShmemSize, initialize = ClockSweepInitialize\<rparr>"

definition SieveVtable :: "SieveState EvictionVtable" where
  "SieveVtable =
     \<lparr>get_buffer = SieveGetBuffer, notify_hit = None, notify_insert = Some SieveNotifyInsert,
      notify_invalidate = Some SieveNotifyInvalidate, shmem_size = SieveShmemSize,
      initialize = SieveInitialize\<rparr>"

definition LFUVtable :: "LFUState EvictionVtable" where
  "LFUVtable =
     \<lparr>get_buffer = LFUGetBuffer, notify_hit = Some LFUNotifyHit, notify_insert = Some LFUNotifyInsert,
      notify_invalidate = Some LFUNotifyInvalidate, shmem_size = LFUShmemSize,
      initialize = LFUInitialize\<rparr>"

definition LRUVtable :: "LRUState EvictionVtable" where
  "LRUVtable =
     \<lparr>get_buffer = LRUGetBuffer, notify_hit = Some LRUNotifyHit, notify_insert = Some LRUNotifyInsert,
      notify_invalidate = Some LRUNotifyInvalidate, shmem_size = LRUShmemSize,
      initialize = LRUInitialize\<rparr>"

section \<open>The operations of the layer\<close>

text \<open>
  The ring is asked first; then the background writer is woken if it asked to be, the
  allocation is counted, and the policy searches. The flag of the result is \<open>from_ring\<close>.
\<close>

definition StrategyWakeBgWriter :: "'p pool \<Rightarrow> 'p pool" where
  "StrategyWakeBgWriter p =
     (let proc = bgwprocno (ctl p)
      in if proc \<noteq> -1
         then p\<lparr>ctl := (ctl p)\<lparr>bgwprocno := -1\<rparr>, latches := proc # latches p\<rparr> else p)"

definition StrategyGetBuffer ::
    "'p EvictionVtable \<Rightarrow> nat \<Rightarrow> nat \<Rightarrow> interference \<Rightarrow> nat \<Rightarrow> 'p pool
     \<Rightarrow> (nat \<times> 'p pool, victim \<times> bool) run" where
  "StrategyGetBuffer vt NBuffers fuel E t p =
     (case (case strategy p of
              None \<Rightarrow> Done (t, p) None
            | Some r \<Rightarrow> GetBufferFromRing NBuffers fuel E t r p) of
        Done s (Some v) \<Rightarrow> Done s (v, True)
      | Done (t, p) None \<Rightarrow>
          (let p = StrategyWakeBgWriter p;
               p = p\<lparr>ctl := (ctl p)\<lparr>numBufferAllocs := numBufferAllocs (ctl p) + 1\<rparr>\<rparr>
           in case get_buffer vt NBuffers fuel E t p of
                Done s v \<Rightarrow> Done s (v, False)
              | Raise s e \<Rightarrow> Raise s e | Spin s \<Rightarrow> Spin s | Crash \<Rightarrow> Crash)
      | Raise s e \<Rightarrow> Raise s e | Spin s \<Rightarrow> Spin s | Crash \<Rightarrow> Crash)"

definition StrategyNotifyBgWriter :: "int \<Rightarrow> BufferStrategyCommon \<Rightarrow> BufferStrategyCommon" where
  "StrategyNotifyBgWriter proc c = c\<lparr>bgwprocno := proc\<rparr>"

definition StrategyNotifyHit :: "'p EvictionVtable \<Rightarrow> nat \<Rightarrow> nat \<Rightarrow> 'p \<Rightarrow> 'p option" where
  "StrategyNotifyHit vt NBuffers buf s = (case notify_hit vt of None \<Rightarrow> Some s | Some f \<Rightarrow> f NBuffers buf s)"

definition StrategyNotifyInsert :: "'p EvictionVtable \<Rightarrow> nat \<Rightarrow> nat \<Rightarrow> 'p \<Rightarrow> 'p option" where
  "StrategyNotifyInsert vt NBuffers buf s =
     (case notify_insert vt of None \<Rightarrow> Some s | Some f \<Rightarrow> f NBuffers buf s)"

definition StrategyNotifyInvalidate :: "'p EvictionVtable \<Rightarrow> nat \<Rightarrow> nat \<Rightarrow> 'p \<Rightarrow> 'p option" where
  "StrategyNotifyInvalidate vt NBuffers buf s =
     (case notify_invalidate vt of None \<Rightarrow> Some s | Some f \<Rightarrow> f NBuffers buf s)"

text \<open>
  \<open>StrategySyncStart\<close> asks which table is active. \<open>policy_mem\<close> is the active table together
  with the policy's shared memory. The result is the position, the pass count and the
  allocation count, which is reset.
\<close>

datatype policy_mem =
  ClockMem ClockSweepState | SieveMem SieveState | LRUMem LRUState | LFUMem LFUState

definition sync_position :: "nat \<Rightarrow> uint32 \<Rightarrow> uint32 \<times> uint32" where
  "sync_position NBuffers seq = (seq mod word_of_nat NBuffers, seq div word_of_nat NBuffers)"

definition StrategySyncStart ::
    "nat \<Rightarrow> policy_mem \<times> BufferStrategyCommon
     \<Rightarrow> (uint32 \<times> uint32 \<times> uint32) \<times> policy_mem \<times> BufferStrategyCommon" where
  "StrategySyncStart NBuffers = (\<lambda>(m, c).
     let (result, passes, m) =
           (case m of
              SieveMem s \<Rightarrow>
                let seq = sieve_bgw_sync_seq s + 1; (r, k) = sync_position NBuffers seq
                in (r, k, SieveMem (s\<lparr>sieve_bgw_sync_seq := seq\<rparr>))
            | LRUMem s \<Rightarrow>
                let seq = lru_bgw_sync_seq s + 1; (r, k) = sync_position NBuffers seq
                in (r, k, LRUMem (s\<lparr>lru_bgw_sync_seq := seq\<rparr>))
            | LFUMem s \<Rightarrow>
                let seq = lfu_bgw_sync_seq s + 1; (r, k) = sync_position NBuffers seq
                in (r, k, LFUMem (s\<lparr>lfu_bgw_sync_seq := seq\<rparr>))
            | ClockMem s \<Rightarrow>
                let (r, k) = sync_position NBuffers (nextVictimBuffer s)
                in (r, completePasses c + k, ClockMem s))
     in ((result, passes, numBufferAllocs c), m, c\<lparr>numBufferAllocs := 0\<rparr>))"

definition strategy_area :: "nat \<Rightarrow> uint32 \<Rightarrow> nat" where
  "strategy_area sizeof_common NBuffers =
     sizeof_common +
       max (unat (ClockSweepShmemSize NBuffers)) (max (unat (SieveShmemSize NBuffers))
         (max (unat (LFUShmemSize NBuffers)) (unat (LRUShmemSize NBuffers))))"

definition StrategyShmemSize :: "nat \<Rightarrow> nat \<Rightarrow> uint32 \<Rightarrow> nat option" where
  "StrategyShmemSize sizeof_HASHHDR sizeof_common NBuffers = do {
     tab \<leftarrow> BufTableShmemSize sizeof_HASHHDR (sint (NBuffers + NUM_BUFFER_PARTITIONS));
     n \<leftarrow> add_size 0 tab;
     add_size n (MAXALIGN (strategy_area sizeof_common NBuffers))
   }"

text \<open>
  \<open>found\<close> is what \<open>ShmemInitStruct\<close> finds: nothing, with the uninitialised memory \<open>fresh\<close> in
  its place, or the control block and policy memory of an earlier initialisation.
\<close>

definition StrategyInitialize ::
    "'p EvictionVtable \<Rightarrow> bool \<Rightarrow> buf_table option \<Rightarrow> (nat \<Rightarrow> nat \<Rightarrow> bool) \<Rightarrow>
     (elem \<Rightarrow> (BufferTag, int) HASHELEMENT) \<Rightarrow> nat \<Rightarrow> (BufferStrategyCommon \<times> 'p) option \<Rightarrow> 'p \<Rightarrow> bool \<Rightarrow>
     (buf_table, BufferStrategyCommon \<times> 'p) run" where
  "StrategyInitialize vt be table allocf memory NBuffers found fresh init =
     (case InitBufTable be table allocf memory (NBuffers + unat NUM_BUFFER_PARTITIONS) of
        Done T _ \<Rightarrow>
          (case found of
             None \<Rightarrow>
               if \<not> init then Crash
               else (case initialize vt NBuffers False fresh of
                       None \<Rightarrow> Crash
                     | Some s \<Rightarrow> Done T (\<lparr>completePasses = 0, numBufferAllocs = 0, bgwprocno = -1\<rparr>, s))
           | Some (c, s) \<Rightarrow>
               if init then Crash
               else (case initialize vt NBuffers True s of None \<Rightarrow> Crash | Some s \<Rightarrow> Done T (c, s)))
      | Raise T e \<Rightarrow> Raise T e | Spin T \<Rightarrow> Spin T | Crash \<Rightarrow> Crash)"

section \<open>The contract of a policy\<close>

text \<open>
  What the searches of the layer leave behind. From the ring: the policy is not touched. From
  the policy: the victim comes from the policy's books, the background writer was woken if it
  had asked, and the allocation was counted.
\<close>

definition woken :: "'p pool \<Rightarrow> 'p pool \<Rightarrow> bool" where
  "woken p q \<longleftrightarrow>
     numBufferAllocs (ctl q) = numBufferAllocs (ctl p) + 1 \<and> bgwprocno (ctl q) = -1 \<and>
     latches q = (if bgwprocno (ctl p) = -1 then latches p else bgwprocno (ctl p) # latches p)"

definition strategy_ok ::
    "nat \<Rightarrow> ('p \<Rightarrow> bool) \<Rightarrow> ('p \<Rightarrow> nat set) \<Rightarrow> 'p pool \<Rightarrow> (nat \<times> 'p pool, victim \<times> bool) run \<Rightarrow> bool" where
  "strategy_ok NBuffers ok mem p R \<longleftrightarrow>
     (case R of
        Done (t', q) (v, from_ring) \<Rightarrow>
          fst v < NBuffers \<and> claimed p q v \<and> ok (pol q) \<and>
          (case strategy q of None \<Rightarrow> strategy p = None | Some r \<Rightarrow> ring_ok NBuffers r) \<and>
          (if from_ring then strategy p \<noteq> None \<and> pol q = pol p \<and> ctl q = ctl p \<and> latches q = latches p
           else fst v \<in> mem (pol p) \<and> mem (pol q) \<subseteq> mem (pol p) \<and>
             mem (pol p) \<subseteq> insert (fst v) (mem (pol q)) \<and> woken p q)
      | Raise (t', q) e \<Rightarrow> ok (pol q) \<and> mem (pol q) = mem (pol p) \<and> me q = me p \<and> woken p q
      | Spin (t', q) \<Rightarrow> ok (pol q) \<and> mem (pol q) = mem (pol p) \<and> me q = me p
      | Crash \<Rightarrow> False)"

datatype hook = Hit nat | Insert nat | Invalidate nat

primrec hook_buffer :: "hook \<Rightarrow> nat" where
  "hook_buffer (Hit b) = b"
| "hook_buffer (Insert b) = b"
| "hook_buffer (Invalidate b) = b"

primrec StrategyNotify :: "'p EvictionVtable \<Rightarrow> nat \<Rightarrow> hook \<Rightarrow> 'p \<Rightarrow> 'p option" where
  "StrategyNotify vt NBuffers (Hit b) = StrategyNotifyHit vt NBuffers b"
| "StrategyNotify vt NBuffers (Insert b) = StrategyNotifyInsert vt NBuffers b"
| "StrategyNotify vt NBuffers (Invalidate b) = StrategyNotifyInvalidate vt NBuffers b"

lemma InitBufTable_started:
  assumes "0 < N" "N < 2 ^ 29" "\<And>k s. allocf k s"
  shows "\<exists>T. InitBufTable be None allocf memory (N + unat NUM_BUFFER_PARTITIONS) = Done T () \<and>
    buf_table_rep T Map.empty \<and> N + 128 \<le> brk T"
proof -
  have "unat NUM_BUFFER_PARTITIONS = 128" by (simp add: NUM_BUFFER_PARTITIONS_def)
  with InitBufTable_ok [of "N + 128" allocf be memory] assms show ?thesis by auto
qed

text \<open>
  What start-up and a sequence of hook calls give under a policy: an empty lookup table with
  room for one entry per buffer and partition, a clean control block, and policy memory that is
  well formed and still has on its books every buffer that was not invalidated.
\<close>

definition started_ok ::
    "'p EvictionVtable \<Rightarrow> (nat \<Rightarrow> 'p \<Rightarrow> bool) \<Rightarrow> (nat \<Rightarrow> 'p \<Rightarrow> nat set) \<Rightarrow> nat \<Rightarrow> hook list \<Rightarrow>
     (buf_table, BufferStrategyCommon \<times> 'p) run \<Rightarrow> bool" where
  "started_ok vt ok mem N hs R \<longleftrightarrow>
     (\<exists>T s0 s. R = Done T (\<lparr>completePasses = 0, numBufferAllocs = 0, bgwprocno = -1\<rparr>, s0) \<and>
        buf_table_rep T Map.empty \<and> N + 128 \<le> brk T \<and> mem N s0 = {..<N} \<and>
        foldM (StrategyNotify vt N) hs s0 = Some s \<and> ok N s \<and> mem N s \<subseteq> {..<N} \<and>
        (\<forall>b < N. Invalidate b \<notin> set hs \<longrightarrow> b \<in> mem N s))"

locale eviction_policy =
  fixes vt :: "'p EvictionVtable"
    and ok :: "nat \<Rightarrow> 'p \<Rightarrow> bool"
    and mem :: "nat \<Rightarrow> 'p \<Rightarrow> nat set"
  assumes get: "search_pre N (ok N) E p \<Longrightarrow> victim_ok N (ok N) (mem N) p (get_buffer vt N fuel E t p)"
    and hit: "ok N s \<Longrightarrow> b < N \<Longrightarrow>
      \<exists>s'. StrategyNotifyHit vt N b s = Some s' \<and> ok N s' \<and> mem N s' = mem N s"
    and insrt: "ok N s \<Longrightarrow> b < N \<Longrightarrow>
      \<exists>s'. StrategyNotifyInsert vt N b s = Some s' \<and> ok N s' \<and> mem N s' = insert b (mem N s)"
    and invalidate: "ok N s \<Longrightarrow> b < N \<Longrightarrow>
      \<exists>s'. StrategyNotifyInvalidate vt N b s = Some s' \<and> ok N s' \<and>
        mem N s' \<subseteq> mem N s \<and> mem N s \<subseteq> insert b (mem N s')"
    and init: "0 < N \<Longrightarrow> N < 2 ^ 31 \<Longrightarrow>
      \<exists>s'. initialize vt N False s = Some s' \<and> ok N s' \<and> mem N s' = {..<N}"
    and attach: "initialize vt N True s = Some s"
begin

lemma wake_count:
  fixes p :: "'p pool"
  defines "q \<equiv> (StrategyWakeBgWriter p)\<lparr>ctl := (ctl (StrategyWakeBgWriter p))
    \<lparr>numBufferAllocs := numBufferAllocs (ctl (StrategyWakeBgWriter p)) + 1\<rparr>\<rparr>"
  shows "woken p q" "hdr q = hdr p" "pol q = pol p" "strategy q = strategy p" "me q = me p"
  by (auto simp: q_def StrategyWakeBgWriter_def woken_def Let_def)

lemma from_policy:
  assumes pre: "search_pre N (ok N) E p" and R: "get_buffer vt N fuel E t q = R"
    and q: "woken p q" "hdr q = hdr p" "pol q = pol p" "strategy q = strategy p" "me q = me p"
  shows "strategy_ok N (ok N) (mem N) p
    (case R of Done s v \<Rightarrow> Done s (v, False) | Raise s e \<Rightarrow> Raise s e | Spin s \<Rightarrow> Spin s | Crash \<Rightarrow> Crash)"
proof -
  have "search_pre N (ok N) E q" using pre q by (simp add: search_pre_def pool_ok_def)
  from get [OF this, where fuel = fuel and t = t] have "victim_ok N (ok N) (mem N) q R" using R by simp
  then show ?thesis using q
    by (auto simp: victim_ok_def victim_taken_def searching_def strategy_ok_def claimed_def woken_def
        split: run.splits prod.splits option.splits)
qed

lemma StrategyGetBuffer_meets:
  assumes pre: "search_pre N (ok N) E p"
  shows "strategy_ok N (ok N) (mem N) p (StrategyGetBuffer vt N fuel E t p)"
proof (cases "strategy p")
  case None
  then show ?thesis
    using from_policy [OF pre refl wake_count(1-5), of fuel t]
    by (simp add: StrategyGetBuffer_def Let_def)
next
  case (Some r)
  have pol: "ok N (pol p)" using pre by (simp add: search_pre_def)
  have "ring_search_ok N r p (GetBufferFromRing N fuel E t r p)"
    using pre Some by (intro GetBufferFromRing_ok) (auto simp: search_pre_def)
  then show ?thesis
  proof (cases "GetBufferFromRing N fuel E t r p")
    case (Done s v)
    obtain t1 p1 where s: "s = (t1, p1)" by (cases s)
    show ?thesis
    proof (cases v)
      case None
      with \<open>ring_search_ok _ _ _ _\<close> Done s have p1: "pool_ok N p1" "me p1 = me p" "pol p1 = pol p" "ctl p1 = ctl p"
          "strategy p1 \<noteq> None" "latches p1 = latches p"
        by (auto simp: ring_search_ok_def)
      then have "search_pre N (ok N) E p1" using pre by (simp add: search_pre_def)
      from from_policy [OF this refl wake_count(1-5), of fuel t1] p1 Some Done s None show ?thesis
        by (auto simp: StrategyGetBuffer_def Let_def strategy_ok_def claimed_def woken_def
            split: run.splits prod.splits option.splits)
    next
      case (Some v)
      with \<open>ring_search_ok _ _ _ _\<close> \<open>strategy p = _\<close> Done s pol show ?thesis
        by (cases v) (auto simp: StrategyGetBuffer_def ring_search_ok_def strategy_ok_def)
    qed
  qed (use \<open>strategy p = _\<close> pol in \<open>auto simp: StrategyGetBuffer_def ring_search_ok_def strategy_ok_def
        split: prod.splits\<close>)
qed

lemma notify:
  assumes "ok N s" "hook_buffer h < N"
  shows "\<exists>s'. StrategyNotify vt N h s = Some s' \<and> ok N s' \<and>
    (mem N s \<subseteq> {..<N} \<longrightarrow> mem N s' \<subseteq> {..<N}) \<and>
    (\<forall>b. b \<in> mem N s \<longrightarrow> h \<noteq> Invalidate b \<longrightarrow> b \<in> mem N s') \<and>
    (\<forall>b. b \<notin> mem N s \<longrightarrow> h \<noteq> Insert b \<longrightarrow> b \<notin> mem N s')"
proof (cases h)
  case (Hit b)
  with assms hit [of N s b] show ?thesis by auto
next
  case (Insert b)
  with assms insrt [of N s b] show ?thesis by auto
next
  case (Invalidate b)
  with assms invalidate [of N s b] show ?thesis by auto
qed

lemma notify_run:
  assumes "ok N s" "\<forall>h \<in> set hs. hook_buffer h < N" "mem N s \<subseteq> {..<N}"
  shows "\<exists>s'. foldM (StrategyNotify vt N) hs s = Some s' \<and> ok N s' \<and> mem N s' \<subseteq> {..<N} \<and>
    (\<forall>b. b \<in> mem N s \<longrightarrow> Invalidate b \<notin> set hs \<longrightarrow> b \<in> mem N s') \<and>
    (\<forall>b. b \<notin> mem N s \<longrightarrow> Insert b \<notin> set hs \<longrightarrow> b \<notin> mem N s')"
  using assms
proof (induction hs arbitrary: s)
  case (Cons h hs)
  obtain s1 where s1: "StrategyNotify vt N h s = Some s1" "ok N s1" "mem N s1 \<subseteq> {..<N}"
    "\<forall>b. b \<in> mem N s \<longrightarrow> h \<noteq> Invalidate b \<longrightarrow> b \<in> mem N s1"
    "\<forall>b. b \<notin> mem N s \<longrightarrow> h \<noteq> Insert b \<longrightarrow> b \<notin> mem N s1"
    using notify [of N s h] Cons.prems by auto
  from Cons.IH [OF s1(2) _ s1(3)] Cons.prems s1 show ?case by (auto; blast)
qed simp

lemma started:
  assumes "0 < N" "N < 2 ^ 29" "\<And>k s. allocf k s" "\<forall>h \<in> set hs. hook_buffer h < N"
  shows "started_ok vt ok mem N hs (StrategyInitialize vt be None allocf memory N None fresh True)"
proof -
  obtain T where T: "InitBufTable be None allocf memory (N + unat NUM_BUFFER_PARTITIONS) = Done T ()"
    "buf_table_rep T Map.empty" "N + 128 \<le> brk T"
    using InitBufTable_started [of N allocf be memory] assms(1-3) by blast
  obtain s0 where s0: "initialize vt N False fresh = Some s0" "ok N s0" "mem N s0 = {..<N}"
    using init [of N fresh] assms(1,2) by auto
  then have "mem N s0 \<subseteq> {..<N}" by simp
  from notify_run [OF s0(2) assms(4) this] obtain s where
    "foldM (StrategyNotify vt N) hs s0 = Some s" "ok N s" "mem N s \<subseteq> {..<N}"
    "\<forall>b. b \<in> mem N s0 \<longrightarrow> Invalidate b \<notin> set hs \<longrightarrow> b \<in> mem N s" by blast
  with T s0 show ?thesis by (auto simp: started_ok_def StrategyInitialize_def)
qed

end

text \<open>Policies that drop an invalidated buffer from their books.\<close>

locale forgetful_policy = eviction_policy +
  assumes forgets: "ok N s \<Longrightarrow> b < N \<Longrightarrow> StrategyNotifyInvalidate vt N b s = Some s' \<Longrightarrow> b \<notin> mem N s'"
begin

lemma drain:
  assumes "ok N s" "mem N s \<subseteq> {..<N}" "k \<le> N"
  shows "\<exists>s'. foldM (StrategyNotify vt N) (map Invalidate [0..<k]) s = Some s' \<and> ok N s' \<and> mem N s' \<subseteq> {k..<N}"
  using assms(3)
proof (induction k)
  case (Suc k)
  then obtain s1 where s1: "foldM (StrategyNotify vt N) (map Invalidate [0..<k]) s = Some s1" "ok N s1"
    "mem N s1 \<subseteq> {k..<N}" by auto
  obtain s2 where s2: "StrategyNotifyInvalidate vt N k s1 = Some s2" "ok N s2" "mem N s2 \<subseteq> mem N s1"
    using invalidate [OF s1(2), of k] Suc.prems by auto
  have "k \<notin> mem N s2" using forgets [OF s1(2) _ s2(1)] Suc.prems by simp
  then have "mem N s2 \<subseteq> {k..<N} - {k}" using s1(3) s2(3) by blast
  moreover have "{k..<N} - {k} = {Suc k..<N}" by auto
  ultimately have "mem N s2 \<subseteq> {Suc k..<N}" by simp
  with s1 s2 show ?case by (simp add: foldM_append)
qed (use assms in auto)

lemma drained:
  assumes "search_pre N (ok N) E p" "mem N (pol p) = {}" "strategy p = None"
  shows "StrategyGetBuffer vt N fuel E t p \<noteq> Done q v"
  using StrategyGetBuffer_meets [OF assms(1), of fuel t] assms(2,3)
  by (cases q; cases v) (auto simp: strategy_ok_def split: if_splits)

end

section \<open>The four policies meet the contract\<close>

lemmas notify_defs = StrategyNotifyHit_def StrategyNotifyInsert_def StrategyNotifyInvalidate_def

interpretation clock: eviction_policy "ClockSweepVtable H" clock_ok clock_mem for H
proof (unfold_locales, goal_cases)
  case (1 N E p fuel t)
  then show ?case by (simp add: ClockSweepVtable_def ClockSweepGetBuffer_def ClockSweepGetBuffer_loop_ok)
qed (simp_all add: ClockSweepVtable_def notify_defs ClockSweepInitialize_def clock_ok_def insert_absorb subset_insertI)

interpretation sieve: eviction_policy SieveVtable sieve_ok "\<lambda>N s. set (sieve_queue N s)"
proof (unfold_locales, goal_cases)
  case (1 N E p fuel t)
  then show ?case by (simp add: SieveVtable_def SieveGetBuffer_def SieveGetBuffer_loop_ok)
next
  case (2 N s b)
  then show ?case by (simp add: SieveVtable_def notify_defs)
next
  case (3 N s b)
  then obtain s' where "SieveNotifyInsert N b s = Some s'" "sieve_rep N s' (remove1 b (sieve_queue N s) @ [b])"
    using SieveNotifyInsert_rep [OF sieve_okD] by blast
  moreover have "distinct (sieve_queue N s)" by (rule sieve_rep_distinct [OF sieve_okD [OF 3(1)]])
  ultimately show ?case using sieve_rep_ok [of N s'] by (auto simp: SieveVtable_def notify_defs)
next
  case (4 N s b)
  then show ?case by (auto simp: SieveVtable_def notify_defs SieveNotifyInvalidate_def)
next
  case (5 N s)
  then obtain s' where "SieveInitialize N False s = Some s'" "sieve_rep N s' [0..<N]"
    using SieveInitialize_rep by blast
  then show ?case using sieve_rep_ok [of N s'] by (auto simp: SieveVtable_def)
qed (simp add: SieveVtable_def SieveInitialize_def)

interpretation lru: eviction_policy LRUVtable lru_ok "\<lambda>N s. set (lru_queue N s)"
proof (unfold_locales, goal_cases)
  case (1 N E p fuel t)
  then show ?case by (simp add: LRUVtable_def LRUGetBuffer_ok)
next
  case (2 N s b)
  then obtain s' where "LRUNotifyHit N b s = Some s'"
      "lru_rep N s' (if b \<in> set (lru_queue N s) then remove1 b (lru_queue N s) @ [b] else lru_queue N s)"
    using LRUNotifyHit_rep [OF lru_okD] by blast
  moreover have "distinct (lru_queue N s)" by (rule lru_rep_distinct [OF lru_okD [OF 2(1)]])
  ultimately show ?case using lru_rep_ok [of N s'] by (auto simp: LRUVtable_def notify_defs)
next
  case (3 N s b)
  then obtain s' where "LRUNotifyInsert N b s = Some s'" "lru_rep N s' (remove1 b (lru_queue N s) @ [b])"
    using LRUNotifyInsert_rep [OF lru_okD] by blast
  moreover have "distinct (lru_queue N s)" by (rule lru_rep_distinct [OF lru_okD [OF 3(1)]])
  ultimately show ?case using lru_rep_ok [of N s'] by (auto simp: LRUVtable_def notify_defs)
next
  case (4 N s b)
  then obtain s' where "LRUNotifyInvalidate N b s = Some s'" "lru_rep N s' (remove1 b (lru_queue N s))"
    using LRUNotifyInvalidate_rep [OF lru_okD] by blast
  moreover have "distinct (lru_queue N s)" by (rule lru_rep_distinct [OF lru_okD [OF 4(1)]])
  ultimately show ?case using lru_rep_ok [of N s'] by (auto simp: LRUVtable_def notify_defs)
next
  case (5 N s)
  then obtain s' where "LRUInitialize N False s = Some s'" "lru_rep N s' [0..<N]"
    using LRUInitialize_rep by blast
  then show ?case using lru_rep_ok [of N s'] by (auto simp: LRUVtable_def)
qed (simp add: LRUVtable_def LRUInitialize_def)

lemma lfu_freq_move:
  assumes "LFUFreq s' = (LFUFreq s)(x := f)" "x < N"
  shows "lfu_mem N s' = (if f = 0 then lfu_mem N s - {x} else insert x (lfu_mem N s))"
  using assms by (auto simp: lfu_mem_def)

interpretation lfu: eviction_policy LFUVtable lfu_ok lfu_mem
proof (unfold_locales, goal_cases)
  case (1 N E p fuel t)
  then show ?case by (simp add: LFUVtable_def LFUGetBuffer_def LFUGetBuffer_loop_ok)
next
  case (2 N s b)
  show ?case
  proof (cases "LFUFreq s b = 0")
    case True
    with 2 show ?thesis by (simp add: LFUVtable_def notify_defs LFUNotifyHit_def)
  next
    case False
    obtain s' where s': "LFUNotifyHit N b s = Some s'"
      "lfu_rep N s' (lfu_move b (if LFUFreq s b < LFU_MAX_FREQ then LFUFreq s b + 1 else LFU_MAX_FREQ) (lfu_bucket N s))"
      "LFUFreq s' = (LFUFreq s)(b := (if LFUFreq s b < LFU_MAX_FREQ then LFUFreq s b + 1 else LFU_MAX_FREQ))"
      using LFUNotifyHit_rep [OF lfu_okD [OF 2(1)] 2(2) False] by blast
    then have "lfu_mem N s' = lfu_mem N s"
      using lfu_freq_move [OF s'(3) 2(2)] False 2(2) by (auto simp: lfu_mem_def LFU_MAX_FREQ_def)
    with s'(1) lfu_rep_ok [OF s'(2)] show ?thesis by (simp add: LFUVtable_def notify_defs)
  qed
next
  case (3 N s b)
  then obtain s' where s': "LFUNotifyInsert N b s = Some s'" "lfu_rep N s' (lfu_move b 1 (lfu_bucket N s))"
      "LFUFreq s' = (LFUFreq s)(b := 1)"
    using LFUNotifyInsert_rep [OF lfu_okD] by blast
  with lfu_freq_move [OF s'(3) 3(2)] lfu_rep_ok [OF s'(2)] show ?case by (simp add: LFUVtable_def notify_defs)
next
  case (4 N s b)
  then obtain s' where s': "LFUNotifyInvalidate N b s = Some s'" "lfu_rep N s' (lfu_move b 0 (lfu_bucket N s))"
      "LFUFreq s' = (LFUFreq s)(b := 0)"
    using LFUNotifyInvalidate_rep [OF lfu_okD] by blast
  with lfu_freq_move [OF s'(3) 4(2)] lfu_rep_ok [OF s'(2)] show ?case by (auto simp: LFUVtable_def notify_defs)
next
  case (5 N s)
  then obtain s' where "LFUInitialize N False s = Some s'" "lfu_rep N s' (\<lambda>f. if f = 1 then [0..<N] else [])"
      "\<And>b. b < N \<Longrightarrow> LFUFreq s' b = 1"
    using LFUInitialize_rep by blast
  then show ?case using lfu_rep_ok [of N s'] by (auto simp: LFUVtable_def lfu_mem_def)
qed (simp add: LFUVtable_def LFUInitialize_def)

interpretation lru_forgets: forgetful_policy LRUVtable lru_ok "\<lambda>N s. set (lru_queue N s)"
proof (unfold_locales, goal_cases)
  case (1 N s b s')
  obtain s1 where "LRUNotifyInvalidate N b s = Some s1" "lru_rep N s1 (remove1 b (lru_queue N s))"
    using LRUNotifyInvalidate_rep [OF lru_okD [OF 1(1)] 1(2)] by blast
  moreover have "distinct (lru_queue N s)" by (rule lru_rep_distinct [OF lru_okD [OF 1(1)]])
  ultimately show ?case using lru_rep_ok [of N s1] 1(3) by (auto simp: LRUVtable_def notify_defs)
qed

interpretation lfu_forgets: forgetful_policy LFUVtable lfu_ok lfu_mem
proof (unfold_locales, goal_cases)
  case (1 N s b s')
  obtain s1 where "LFUNotifyInvalidate N b s = Some s1" "LFUFreq s1 = (LFUFreq s)(b := 0)"
    using LFUNotifyInvalidate_rep [OF lfu_okD [OF 1(1)] 1(2)] by blast
  then show ?case using 1(3) by (auto simp: LFUVtable_def notify_defs lfu_mem_def)
qed

section \<open>Properties\<close>

lemma sync_position_number:
  assumes "0 < N" "N < 2 ^ 32"
  shows "unat (fst (sync_position N q)) < N" "unat (snd (sync_position N q)) = unat q div N"
    "unat (snd (sync_position N q)) * N + unat (fst (sync_position N q)) = unat q"
proof -
  have "unat (word_of_nat N :: uint32) = N" using assms(2) by (simp add: unat_of_nat)
  then show "unat (fst (sync_position N q)) < N" "unat (snd (sync_position N q)) = unat q div N"
    "unat (snd (sync_position N q)) * N + unat (fst (sync_position N q)) = unat q"
    using assms(1) by (simp_all add: sync_position_def unat_div unat_mod)
qed

lemma StrategySyncStart_eqs:
  "StrategySyncStart N (ClockMem s, c) =
     ((fst (sync_position N (nextVictimBuffer s)), completePasses c + snd (sync_position N (nextVictimBuffer s)),
       numBufferAllocs c), ClockMem s, c\<lparr>numBufferAllocs := 0\<rparr>)"
  "StrategySyncStart N (SieveMem s1, c) =
     ((fst (sync_position N (sieve_bgw_sync_seq s1 + 1)), snd (sync_position N (sieve_bgw_sync_seq s1 + 1)),
       numBufferAllocs c), SieveMem (s1\<lparr>sieve_bgw_sync_seq := sieve_bgw_sync_seq s1 + 1\<rparr>), c\<lparr>numBufferAllocs := 0\<rparr>)"
  "StrategySyncStart N (LRUMem s2, c) =
     ((fst (sync_position N (lru_bgw_sync_seq s2 + 1)), snd (sync_position N (lru_bgw_sync_seq s2 + 1)),
       numBufferAllocs c), LRUMem (s2\<lparr>lru_bgw_sync_seq := lru_bgw_sync_seq s2 + 1\<rparr>), c\<lparr>numBufferAllocs := 0\<rparr>)"
  "StrategySyncStart N (LFUMem s3, c) =
     ((fst (sync_position N (lfu_bgw_sync_seq s3 + 1)), snd (sync_position N (lfu_bgw_sync_seq s3 + 1)),
       numBufferAllocs c), LFUMem (s3\<lparr>lfu_bgw_sync_seq := lfu_bgw_sync_seq s3 + 1\<rparr>), c\<lparr>numBufferAllocs := 0\<rparr>)"
  by (simp_all add: StrategySyncStart_def Let_def split_beta)

text \<open>
  C11: \<open>StrategyGetBuffer\<close> under each of the four policies. Whatever other backends do to the
  header words short of taking away this backend's own pins, it never leaves an array and never
  fails to track a pin. A buffer it returns was unpinned, carries exactly this backend's pin and
  is in its private counts. If the buffer comes from the ring, policy and control block are
  untouched; otherwise the policy had it on its books and lost at most it, the allocation is
  counted, and a background writer that asked for it is woken once. After an error the backend
  holds the pins it held before.
\<close>
theorem StrategyGetBuffer_safe:
  "(search_pre N (clock_ok N) E pc \<longrightarrow>
      strategy_ok N (clock_ok N) (clock_mem N) pc (StrategyGetBuffer (ClockSweepVtable H) N fuel E t pc)) \<and>
   (search_pre N (sieve_ok N) E ps \<longrightarrow>
      strategy_ok N (sieve_ok N) (\<lambda>s. set (sieve_queue N s)) ps (StrategyGetBuffer SieveVtable N fuel E t ps)) \<and>
   (search_pre N (lru_ok N) E pr \<longrightarrow>
      strategy_ok N (lru_ok N) (\<lambda>s. set (lru_queue N s)) pr (StrategyGetBuffer LRUVtable N fuel E t pr)) \<and>
   (search_pre N (lfu_ok N) E pf \<longrightarrow>
      strategy_ok N (lfu_ok N) (lfu_mem N) pf (StrategyGetBuffer LFUVtable N fuel E t pf))"
  by (intro conjI impI clock.StrategyGetBuffer_meets sieve.StrategyGetBuffer_meets
      lru.StrategyGetBuffer_meets lfu.StrategyGetBuffer_meets)

theorem StrategyGetBuffer_safe_witness:
  "strategy_ok 2 (sieve_ok 2) (\<lambda>s. set (sieve_queue 2 s)) (fresh_pool (\<lambda>_. 0) (sieve_started 2))
     (StrategyGetBuffer SieveVtable 2 9 quiet 0 (fresh_pool (\<lambda>_. 0) (sieve_started 2))) \<and>
   strategy_ok 2 (lfu_ok 2) (lfu_mem 2) (fresh_pool (\<lambda>_. 0) (lfu_started 2))
     (StrategyGetBuffer LFUVtable 2 9 quiet 0 (fresh_pool (\<lambda>_. 0) (lfu_started 2)))"
  by (intro conjI StrategyGetBuffer_safe [THEN conjunct2, THEN conjunct1, rule_format]
      StrategyGetBuffer_safe [THEN conjunct2, THEN conjunct2, THEN conjunct2, rule_format] fresh_search_pre)
    (simp_all add: sieve_started_ok lfu_started_ok)



text \<open>
  C36: \<open>StrategySyncStart\<close> reports a buffer of the pool, returns the allocation count and resets
  it, and changes nothing else of the control block. Position and pass count are the remainder
  and the quotient of one running number. Under SIEVE, LRU and LFU it is a sequence number that
  each call advances by one. Under clock-sweep, as long as the pass count does not wrap, it is
  the number of buffers the hand has passed, passes that are not yet counted included.
\<close>
theorem StrategySyncStart_position:
  assumes "0 < N" "N < 2 ^ 32" "StrategySyncStart N (m, c) = ((r, k, a), m', c')"
  shows "unat r < N \<and> a = numBufferAllocs c \<and> c' = c\<lparr>numBufferAllocs := 0\<rparr> \<and>
    (case m of
       ClockMem s \<Rightarrow> m' = m \<and>
         (unat (completePasses c) + unat (nextVictimBuffer s) div N < 2 ^ 32 \<longrightarrow>
           unat k * N + unat r = unat (completePasses c) * N + unat (nextVictimBuffer s))
     | SieveMem s \<Rightarrow> m' = SieveMem (s\<lparr>sieve_bgw_sync_seq := sieve_bgw_sync_seq s + 1\<rparr>) \<and>
         unat k * N + unat r = unat (sieve_bgw_sync_seq s + 1)
     | LRUMem s \<Rightarrow> m' = LRUMem (s\<lparr>lru_bgw_sync_seq := lru_bgw_sync_seq s + 1\<rparr>) \<and>
         unat k * N + unat r = unat (lru_bgw_sync_seq s + 1)
     | LFUMem s \<Rightarrow> m' = LFUMem (s\<lparr>lfu_bgw_sync_seq := lfu_bgw_sync_seq s + 1\<rparr>) \<and>
         unat k * N + unat r = unat (lfu_bgw_sync_seq s + 1))"
proof -
  note pos = sync_position_number [OF assms(1,2)]
  show ?thesis
  proof (cases m)
    case (ClockMem s)
    let ?q = "sync_position N (nextVictimBuffer s)"
    have eq: "r = fst ?q" "k = completePasses c + snd ?q" "a = numBufferAllocs c" "m' = m" "c' = c\<lparr>numBufferAllocs := 0\<rparr>"
      using assms(3) by (auto simp: ClockMem StrategySyncStart_eqs)
    have "unat k * N + unat r = unat (completePasses c) * N + unat (nextVictimBuffer s)"
      if "unat (completePasses c) + unat (nextVictimBuffer s) div N < 2 ^ 32"
    proof -
      have "unat k = unat (completePasses c) + unat (snd ?q)"
        using that pos(2) [of "nextVictimBuffer s"] unfolding eq(2) by (subst unat_add_lem [THEN iffD1]) auto
      then show ?thesis using pos(3) [of "nextVictimBuffer s"] by (simp add: eq(1) algebra_simps)
    qed
    with ClockMem eq pos(1) show ?thesis by simp
  next
    case (SieveMem s)
    with assms(3) pos [of "sieve_bgw_sync_seq s + 1"] show ?thesis by (auto simp: StrategySyncStart_eqs)
  next
    case (LRUMem s)
    with assms(3) pos [of "lru_bgw_sync_seq s + 1"] show ?thesis by (auto simp: StrategySyncStart_eqs)
  next
    case (LFUMem s)
    with assms(3) pos [of "lfu_bgw_sync_seq s + 1"] show ?thesis by (auto simp: StrategySyncStart_eqs)
  qed
qed

theorem StrategySyncStart_position_witness:
  "\<exists>r k a m' c'. StrategySyncStart 3 (ClockMem \<lparr>nextVictimBuffer = 7\<rparr>,
     \<lparr>completePasses = 2, numBufferAllocs = 9, bgwprocno = -1\<rparr>) = ((r, k, a), m', c') \<and> unat k * 3 + unat r = 13"
proof -
  let ?in = "(ClockMem \<lparr>nextVictimBuffer = 7\<rparr>, \<lparr>completePasses = 2, numBufferAllocs = 9, bgwprocno = -1\<rparr>)"
  obtain r k a m' c' where "StrategySyncStart 3 ?in = ((r, k, a), m', c')" by (metis prod_cases3)
  with StrategySyncStart_position [OF _ _ this] show ?thesis by auto
qed

lemma sint_small:
  assumes "unat (w :: uint32) < 2 ^ 31"
  shows "sint w = int (unat w)"
proof -
  have "uint w < 2 ^ 31" using assms of_nat_less_iff [where 'a = int, of "unat w" "2 ^ 31"] by simp
  moreover have "0 \<le> uint w" by simp
  ultimately have "signed_take_bit 31 (uint w) = uint w" by (intro signed_take_bit_int_eq_self) linarith+
  then show ?thesis by (simp add: sint_uint)
qed

lemma scast_small:
  assumes "unat (w :: uint32) < 2 ^ 31"
  shows "(scast w :: uint64) = word_of_nat (unat w)"
  by (simp only: scast_eq sint_small [OF assms] of_int_of_nat_eq)

lemma scast_double:
  assumes "unat (n :: uint32) + k < 2 ^ 30"
  shows "(scast (2 * (n + word_of_nat k)) :: uint64) = word_of_nat (2 * (unat n + k))"
proof -
  have "2 * (n + word_of_nat k) = word_of_nat (2 * (unat n + k))" by simp
  then have "unat (2 * (n + word_of_nat k)) = 2 * (unat n + k)"
    using assms by (simp only: unat_of_nat) simp
  with assms show ?thesis by (subst scast_small) (simp_all only:, simp)
qed

text \<open>
  C37: For fewer than 2 ^ 30 - 1024 buffers the sizes the policies ask for are exactly their control
  structure and their arrays, so that the link arrays of SIEVE and LRU and the frequency and
  link arrays of LFU fit, and the area after the common control block has room for any of the
  policies. At 2 ^ 30 - 1 buffers, the largest value \<open>shared_buffers\<close> accepts, the \<open>int\<close> product in
  the size has overflowed and sign extension makes the request larger than 2 ^ 63 bytes.
\<close>
theorem StrategyShmem_sizes:
  assumes "unat N + 1024 < 2 ^ 30"
  shows "unat (SieveShmemSize N) = 8 + 2 * (unat N + 1) * 4 \<and> unat (LRUShmemSize N) = 4 + 2 * (unat N + 1) * 4 \<and>
    unat (LFUShmemSize N) = 8 + unat N * 4 + 2 * (unat N + LFU_MAX_FREQ) * 4 \<and>
    strategy_area common N = common + (8 + unat N * 4 + 2 * (unat N + LFU_MAX_FREQ) * 4) \<and>
    2 ^ 63 < unat (SieveShmemSize (2 ^ 30 - 1))"
proof -
  have s: "(scast (2 * (N + 1)) :: uint64) = word_of_nat (2 * (unat N + 1))"
    using scast_double [of N 1] assms by simp
  have l: "(scast (2 * (N + word_of_nat LFU_MAX_FREQ)) :: uint64) = word_of_nat (2 * (unat N + LFU_MAX_FREQ))"
    using scast_double [of N LFU_MAX_FREQ] assms by (simp add: LFU_MAX_FREQ_def)
  have n: "(scast N :: uint64) = word_of_nat (unat N)" using scast_small [of N] assms by simp
  have sv: "SieveShmemSize N = word_of_nat (8 + 2 * (unat N + 1) * 4)" "LRUShmemSize N = word_of_nat (4 + 2 * (unat N + 1) * 4)"
    "LFUShmemSize N = word_of_nat (8 + unat N * 4 + 2 * (unat N + LFU_MAX_FREQ) * 4)"
    unfolding SieveShmemSize_def LRUShmemSize_def LFUShmemSize_def s l n by simp_all
  have u: "unat (SieveShmemSize N) = 8 + 2 * (unat N + 1) * 4" "unat (LRUShmemSize N) = 4 + 2 * (unat N + 1) * 4"
    "unat (LFUShmemSize N) = 8 + unat N * 4 + 2 * (unat N + LFU_MAX_FREQ) * 4"
    unfolding sv unat_of_nat using assms by (simp_all add: LFU_MAX_FREQ_def)
  have "2 ^ 63 < unat (SieveShmemSize (2 ^ 30 - 1))" by (simp add: SieveShmemSize_def)
  with u show ?thesis by (simp add: strategy_area_def ClockSweepShmemSize_def LFU_MAX_FREQ_def)
qed
theorem StrategyShmem_sizes_witness:
  "strategy_area 20 16384 = 20 + (8 + 16384 * 4 + 2 * (16384 + 1024) * 4)"
  using StrategyShmem_sizes [of 16384 20] by (simp add: LFU_MAX_FREQ_def)



end
