(* ===== verification/Content_Lock.thy ===== *)
theory Content_Lock
  imports Private_RefCount
begin

unbundle bit_operations_syntax

text \<open>
  The content lock of a buffer, \<^verbatim>\<open>BufferLock*\<close> in \<^verbatim>\<open>bufmgr.c\<close>. Its state is the upper part of
  the buffer's state word together with the list of waiting backends. The first part models the
  routines that work on the word under the interference of other backends; the second part is a
  transition system of any number of backends that acquire and release the lock of one buffer,
  one atomic access per step, in which the protocol with the wait list is verified.
\<close>

section \<open>The routines on the state word\<close>

text \<open>One round of the loop of \<open>BufferLockAttempt\<close>: was the lock free, and the word to swap in.\<close>

definition lock_desired :: "BufferLockMode \<Rightarrow> uint64 \<Rightarrow> bool \<times> uint64" where
  "lock_desired mode old_state =
     (if mode = BUFFER_LOCK_EXCLUSIVE
      then let lock_free = (old_state AND BM_LOCK_MASK = 0)
           in (lock_free, if lock_free then old_state + BM_LOCK_VAL_EXCLUSIVE else old_state)
      else if mode = BUFFER_LOCK_SHARE_EXCLUSIVE
      then let lock_free = (old_state AND (BM_LOCK_VAL_EXCLUSIVE OR BM_LOCK_VAL_SHARE_EXCLUSIVE) = 0)
           in (lock_free, if lock_free then old_state + BM_LOCK_VAL_SHARE_EXCLUSIVE else old_state)
      else let lock_free = (old_state AND BM_LOCK_VAL_EXCLUSIVE = 0)
           in (lock_free, if lock_free then old_state + BM_LOCK_VAL_SHARED else old_state))"

fun BufferLockAttempt_loop ::
    "nat \<Rightarrow> interference \<Rightarrow> nat \<Rightarrow> states \<Rightarrow> nat \<Rightarrow> BufferLockMode \<Rightarrow> uint64 \<Rightarrow> (nat \<times> states, bool) run" where
  "BufferLockAttempt_loop 0 E t st b mode old_state = Spin (t, st)"
| "BufferLockAttempt_loop (Suc fuel) E t st b mode old_state =
     (let (lock_free, desired_state) = lock_desired mode old_state;
          (success, found, st) = pg_atomic_compare_exchange_u64 (E t st) b old_state desired_state
      in if success then Done (Suc t, st) (\<not> lock_free)
         else BufferLockAttempt_loop fuel E (Suc t) st b mode found)"

definition BufferLockAttempt ::
    "nat \<Rightarrow> interference \<Rightarrow> nat \<Rightarrow> states \<Rightarrow> nat \<Rightarrow> BufferLockMode \<Rightarrow> (nat \<times> states, bool) run" where
  "BufferLockAttempt fuel E t st b mode =
     (let st = E t st in BufferLockAttempt_loop fuel E (Suc t) st b mode (st b))"

definition BufferLockReleaseSub :: "BufferLockMode \<Rightarrow> uint64 option" where
  "BufferLockReleaseSub mode =
     (if mode = BUFFER_LOCK_EXCLUSIVE then Some BM_LOCK_VAL_EXCLUSIVE
      else if mode = BUFFER_LOCK_SHARE_EXCLUSIVE then Some BM_LOCK_VAL_SHARE_EXCLUSIVE
      else if mode = BUFFER_LOCK_SHARE then Some BM_LOCK_VAL_SHARED
      else None)"

text \<open>Whether \<open>BufferLockProcessRelease\<close> calls \<open>BufferLockWakeup\<close>, and with which argument.\<close>

definition BufferLockProcessRelease :: "BufferLockMode \<Rightarrow> uint64 \<Rightarrow> bool option" where
  "BufferLockProcessRelease mode lockstate =
     (if lockstate AND BM_LOCK_HAS_WAITERS \<noteq> 0 \<and> lockstate AND BM_LOCK_WAKE_IN_PROGRESS = 0
      then if lockstate AND BM_LOCK_MASK = 0 then Some True
           else if mode = BUFFER_LOCK_SHARE_EXCLUSIVE then Some False
           else None
      else None)"

text \<open>
  The walk of \<open>BufferLockWakeup\<close> over the wait list: the backends to wake, and the list left.
\<close>

fun wakeup_scan ::
    "('b \<Rightarrow> BufferLockMode) \<Rightarrow> bool \<Rightarrow> bool \<Rightarrow> 'b list \<Rightarrow> 'b list \<times> 'b list" where
  "wakeup_scan wmode wake_exclusive wake_share_exclusive [] = ([], [])"
| "wakeup_scan wmode wake_exclusive wake_share_exclusive (w # ws) =
     (if (\<not> wake_exclusive \<and> wmode w = BUFFER_LOCK_EXCLUSIVE) \<or>
         (\<not> wake_share_exclusive \<and> wmode w = BUFFER_LOCK_SHARE_EXCLUSIVE)
      then let (woken, rest) = wakeup_scan wmode wake_exclusive wake_share_exclusive ws
           in (woken, w # rest)
      else if wmode w = BUFFER_LOCK_EXCLUSIVE then ([w], ws)
      else let (woken, rest) =
             (if wmode w = BUFFER_LOCK_SHARE then wakeup_scan wmode False wake_share_exclusive ws
              else if wmode w = BUFFER_LOCK_SHARE_EXCLUSIVE then wakeup_scan wmode False False ws
              else wakeup_scan wmode wake_exclusive wake_share_exclusive ws)
           in (w # woken, rest))"

text \<open>The word that \<open>BufferLockWakeup\<close> swaps in at its end.\<close>

definition wakeup_word :: "bool \<Rightarrow> bool \<Rightarrow> uint64 \<Rightarrow> uint64" where
  "wakeup_word new_wake_in_progress waiters_empty old_state =
     (let desired_state = old_state;
          desired_state = (if new_wake_in_progress then desired_state OR BM_LOCK_WAKE_IN_PROGRESS
                           else desired_state AND NOT BM_LOCK_WAKE_IN_PROGRESS);
          desired_state = (if waiters_empty then desired_state AND NOT BM_LOCK_HAS_WAITERS else desired_state)
      in desired_state AND NOT BM_LOCKED)"

section \<open>The lock field of the word\<close>

text \<open>The lock field as a number: share holders, then one bit for each of the other modes.\<close>

definition lockn :: "uint64 \<Rightarrow> nat" where
  "lockn s = unat s div 2 ^ 34"

fun mode_val :: "BufferLockMode \<Rightarrow> nat" where
  "mode_val BUFFER_LOCK_UNLOCK = 0"
| "mode_val BUFFER_LOCK_SHARE = 1"
| "mode_val BUFFER_LOCK_SHARE_EXCLUSIVE = 2 ^ 18"
| "mode_val BUFFER_LOCK_EXCLUSIVE = 2 ^ 19"

lemma and_field_eq_0:
  fixes s :: uint64
  assumes "n + k \<le> 64"
  shows "s AND push_bit n (mask k) = 0 \<longleftrightarrow> unat s div 2 ^ n mod 2 ^ k = 0"
proof -
  have "s AND push_bit n (mask k) = 0 \<longleftrightarrow> take_bit k (drop_bit n s) = 0"
  proof
    assume *: "s AND push_bit n (mask k) = 0"
    show "take_bit k (drop_bit n s) = 0"
    proof (rule bit_eqI)
      fix i assume "possible_bit TYPE(64 word) i"
      have "\<not> bit (s AND push_bit n (mask k)) (n + i)" unfolding * by simp
      then show "bit (take_bit k (drop_bit n s)) i = bit 0 i"
        using assms by (auto simp: bit_simps)
    qed
  next
    assume *: "take_bit k (drop_bit n s) = 0"
    show "s AND push_bit n (mask k) = 0"
    proof (rule bit_eqI)
      fix i assume "possible_bit TYPE(64 word) i"
      have "\<not> bit (take_bit k (drop_bit n s)) (i - n)" unfolding * by simp
      then show "bit (s AND push_bit n (mask k)) i = bit 0 i" by (auto simp: bit_simps)
    qed
  qed
  also have "\<dots> \<longleftrightarrow> unat (take_bit k (drop_bit n s)) = 0" by (simp add: unat_eq_zero)
  also have "unat (take_bit k (drop_bit n s)) = unat s div 2 ^ n mod 2 ^ k"
    unfolding unsigned_take_bit_eq unat_drop_bit_eq by (simp only: take_bit_eq_mod drop_bit_eq_div)
  finally show ?thesis .
qed

lemma lock_fields:
  "BM_LOCK_MASK = push_bit 34 (mask 20)"
  "BM_LOCK_VAL_EXCLUSIVE OR BM_LOCK_VAL_SHARE_EXCLUSIVE = push_bit 52 (mask 2)"
  "BM_LOCK_VAL_EXCLUSIVE = push_bit 53 (mask 1)"
  by (simp_all add: layout_defs mask_eq_exp_minus_1)

lemma lock_tests:
  assumes "lockn s < 2 ^ 20"
  shows "s AND BM_LOCK_MASK = 0 \<longleftrightarrow> lockn s = 0"
    "s AND (BM_LOCK_VAL_EXCLUSIVE OR BM_LOCK_VAL_SHARE_EXCLUSIVE) = 0 \<longleftrightarrow> lockn s < 2 ^ 18"
    "s AND BM_LOCK_VAL_EXCLUSIVE = 0 \<longleftrightarrow> lockn s < 2 ^ 19"
proof -
  have d: "unat s div 2 ^ 52 = lockn s div 2 ^ 18" "unat s div 2 ^ 53 = lockn s div 2 ^ 19"
    unfolding lockn_def div_mult2_eq [symmetric] by simp_all
  show "s AND BM_LOCK_MASK = 0 \<longleftrightarrow> lockn s = 0"
    unfolding lock_fields(1) using assms by (simp only: and_field_eq_0 [of 34 20] flip: lockn_def) simp
  have "lockn s div 2 ^ 18 < 4" "lockn s div 2 ^ 19 < 2" using assms by (simp_all add: less_mult_imp_div_less)
  then show "s AND (BM_LOCK_VAL_EXCLUSIVE OR BM_LOCK_VAL_SHARE_EXCLUSIVE) = 0 \<longleftrightarrow> lockn s < 2 ^ 18"
    and "s AND BM_LOCK_VAL_EXCLUSIVE = 0 \<longleftrightarrow> lockn s < 2 ^ 19"
    unfolding lock_fields(2) unfolding lock_fields(3)
    by (simp_all only: and_field_eq_0 [of 52 2] and_field_eq_0 [of 53 1] d) (auto simp: div_eq_0_iff)
qed

text \<open>Adding and subtracting a multiple of the field's unit leaves the lower bits alone.\<close>

lemma lockn_add:
  assumes "lockn s + n < 2 ^ 30"
  shows "lockn (s + word_of_nat (n * 2 ^ 34)) = lockn s + n"
    "k < 34 \<Longrightarrow> bit (s + word_of_nat (n * 2 ^ 34)) k = bit s k"
proof -
  have u: "unat s = lockn s * 2 ^ 34 + unat s mod 2 ^ 34" by (simp add: lockn_def)
  have r: "unat s mod 2 ^ 34 < 2 ^ 34" by simp
  have lt: "unat s + n * 2 ^ 34 < 2 ^ 64"
  proof -
    have "unat s + n * 2 ^ 34 = (lockn s + n) * 2 ^ 34 + unat s mod 2 ^ 34"
      using u by (simp add: algebra_simps)
    also have "\<dots> < (lockn s + n) * 2 ^ 34 + 2 ^ 34" using r by simp
    also have "\<dots> = (lockn s + n + 1) * 2 ^ 34" by (simp add: algebra_simps)
    also have "\<dots> \<le> 2 ^ 30 * 2 ^ 34" using assms by (intro mult_le_mono1) simp
    finally show ?thesis by simp
  qed
  then have n: "n * 2 ^ 34 < 2 ^ 64" by simp
  have un: "unat (word_of_nat (n * 2 ^ 34) :: uint64) = n * 2 ^ 34"
    using n unfolding unat_of_nat by simp
  have e: "unat (s + word_of_nat (n * 2 ^ 34)) = unat s + n * 2 ^ 34"
    using lt by (subst unat_add_lem [THEN iffD1]) (simp_all only: un, simp_all)
  show "lockn (s + word_of_nat (n * 2 ^ 34)) = lockn s + n"
    unfolding lockn_def e by (simp add: div_mult_self3)
  assume k: "k < 34"
  have "take_bit 34 (s + word_of_nat (n * 2 ^ 34)) = take_bit 34 s"
    unfolding word_unat_eq_iff unsigned_take_bit_eq e by (simp add: take_bit_eq_mod)
  then have "bit (take_bit 34 (s + word_of_nat (n * 2 ^ 34))) k = bit (take_bit 34 s) k" by simp
  with k show "bit (s + word_of_nat (n * 2 ^ 34)) k = bit s k" by (simp add: bit_take_bit_iff)
qed

lemma lockn_sub:
  assumes "n \<le> lockn s"
  shows "lockn (s - word_of_nat (n * 2 ^ 34)) = lockn s - n"
    "k < 34 \<Longrightarrow> bit (s - word_of_nat (n * 2 ^ 34)) k = bit s k"
proof -
  let ?r = "s - word_of_nat (n * 2 ^ 34)"
  have "lockn s < 2 ^ 30"
    using unsigned_less [of s] unfolding lockn_def by (intro less_mult_imp_div_less) simp
  then have un: "unat (word_of_nat (n * 2 ^ 34) :: uint64) = n * 2 ^ 34"
    using assms unfolding unat_of_nat by simp
  have "lockn s * 2 ^ 34 \<le> unat s" by (simp add: lockn_def)
  then have le: "n * 2 ^ 34 \<le> unat s" using assms by (meson le_trans mult_le_mono1)
  then have e: "unat ?r = unat s - n * 2 ^ 34"
    by (subst unat_sub) (simp_all only: word_le_nat_alt un)
  have l: "lockn ?r = lockn s - n"
    unfolding lockn_def e using div_mult_self3 [of "2 ^ 34" n "unat s - n * 2 ^ 34"] le by simp
  show "lockn ?r = lockn s - n" by (rule l)
  assume "k < 34"
  then show "bit ?r k = bit s k"
    using lockn_add(2) [of ?r n k] l \<open>lockn s < 2 ^ 30\<close> assms by simp
qed

lemma lockn_cong: "(\<And>k. 34 \<le> k \<Longrightarrow> bit s k = bit s' k) \<Longrightarrow> lockn s = lockn s'"
proof -
  assume *: "\<And>k. 34 \<le> k \<Longrightarrow> bit s k = bit s' k"
  have "drop_bit 34 s = drop_bit 34 s'" by (rule bit_eqI) (simp add: bit_drop_bit_eq *)
  then have "unat (drop_bit 34 s) = unat (drop_bit 34 s')" by simp
  then show ?thesis unfolding lockn_def unat_drop_bit_eq by (simp only: drop_bit_eq_div)
qed

lemma bit_uint64: "bit (s :: uint64) k \<Longrightarrow> k < 64"
  using bit_imp_le_length [of s k] by simp

lemma lockn_flags [simp]:
  "lockn (s OR BM_LOCKED) = lockn s" "lockn (s OR BM_LOCK_HAS_WAITERS) = lockn s"
  "lockn (s OR BM_LOCK_WAKE_IN_PROGRESS) = lockn s"
  "lockn (s AND NOT BM_LOCKED) = lockn s" "lockn (s AND NOT BM_LOCK_HAS_WAITERS) = lockn s"
  "lockn (s AND NOT BM_LOCK_WAKE_IN_PROGRESS) = lockn s"
  by (auto intro!: lockn_cong simp: bit_simps flag_bits dest: bit_uint64)

lemma wakeup_word_fields:
  "lockn (wakeup_word nw em s) = lockn s" "\<not> bit (wakeup_word nw em s) 22"
  "bit (wakeup_word nw em s) 32 \<longleftrightarrow> bit s 32 \<and> \<not> em" "bit (wakeup_word nw em s) 33 \<longleftrightarrow> nw"
  by (simp_all add: wakeup_word_def Let_def bit_simps flag_bits)

text \<open>When a mode can be granted, in terms of the field.\<close>

fun grantable :: "BufferLockMode \<Rightarrow> nat \<Rightarrow> bool" where
  "grantable BUFFER_LOCK_EXCLUSIVE n \<longleftrightarrow> n = 0"
| "grantable BUFFER_LOCK_SHARE_EXCLUSIVE n \<longleftrightarrow> n < 2 ^ 18"
| "grantable _ n \<longleftrightarrow> n < 2 ^ 19"

lemma mode_unit:
  "BM_LOCK_VAL_SHARED = word_of_nat (mode_val BUFFER_LOCK_SHARE * 2 ^ 34)"
  "BM_LOCK_VAL_SHARE_EXCLUSIVE = word_of_nat (mode_val BUFFER_LOCK_SHARE_EXCLUSIVE * 2 ^ 34)"
  "BM_LOCK_VAL_EXCLUSIVE = word_of_nat (mode_val BUFFER_LOCK_EXCLUSIVE * 2 ^ 34)"
  by (simp_all add: layout_defs)

lemma lock_desired_grant:
  assumes "lockn s < 2 ^ 20" "mode \<noteq> BUFFER_LOCK_UNLOCK"
  shows "lock_desired mode s =
    (grantable mode (lockn s), if grantable mode (lockn s) then s + word_of_nat (mode_val mode * 2 ^ 34) else s)"
  using assms(2) by (cases mode) (simp_all add: lock_desired_def lock_tests [OF assms(1)] Let_def, simp_all add: mode_unit)

lemma release_unit:
  "mode \<noteq> BUFFER_LOCK_UNLOCK \<Longrightarrow> BufferLockReleaseSub mode = Some (word_of_nat (mode_val mode * 2 ^ 34))"
  by (cases mode) (simp_all add: BufferLockReleaseSub_def mode_unit)

section \<open>Backends and one lock\<close>

text \<open>
  A backend's place in \<open>BufferLockAcquire\<close> (with \<open>BufferLockQueueSelf\<close> and \<open>BufferLockDequeueSelf\<close>) or
  \<open>BufferLockUnlock\<close> (with \<open>BufferLockWakeup\<close>); each constructor names the access that comes next. A
  round of a loop around a compare-and-exchange that fails changes nothing, so such a loop is the
  step of its last round, and a header lock is taken in the step that finds it free.
\<close>

datatype pc =
    Running
  | Attempt1 BufferLockMode
  | QueueLock BufferLockMode | QueueFlag BufferLockMode | QueuePush BufferLockMode | QueueUnlock BufferLockMode
  | Attempt2 BufferLockMode
  | DequeueLock BufferLockMode | DequeueDelete BufferLockMode | DequeueFlag BufferLockMode bool
  | DequeueUnlock BufferLockMode bool | DequeueDone BufferLockMode bool | DequeueSleep BufferLockMode nat
  | Sleep BufferLockMode | Retry BufferLockMode
  | WakeLock bool | WakeCollect bool | WakeState "nat list" | WakeNext "nat list" | WakeSem nat "nat list"

datatype LWLockWaitState = LW_WS_NOT_WAITING | LW_WS_WAITING | LW_WS_PENDING_WAKEUP

record proc =
  pc :: pc
  held :: BufferLockMode
  lwWaiting :: LWLockWaitState
  lwWaitMode :: BufferLockMode
  sem :: nat
  extraWaits :: nat

record lock_sys =
  word :: uint64
  lock_waiters :: "nat list"
  procs :: "nat \<Rightarrow> proc"
  hdr_taken :: bool

text \<open>The end of \<open>BufferLockAcquire\<close>: the mode is recorded and absorbed wakeups are given back.\<close>

definition acquired :: "BufferLockMode \<Rightarrow> nat \<Rightarrow> proc \<Rightarrow> proc" where
  "acquired m k p = p\<lparr>pc := Running, held := m, sem := sem p + k + extraWaits p, extraWaits := 0\<rparr>"

definition set_proc :: "nat \<Rightarrow> proc \<Rightarrow> lock_sys \<Rightarrow> lock_sys" where
  "set_proc i p s = s\<lparr>procs := (procs s)(i := p)\<rparr>"

definition goto :: "nat \<Rightarrow> pc \<Rightarrow> lock_sys \<Rightarrow> lock_sys" where
  "goto i c s = set_proc i ((procs s i)\<lparr>pc := c\<rparr>) s"

inductive lock_step :: "nat \<Rightarrow> lock_sys \<Rightarrow> lock_sys \<Rightarrow> bool" for NB where
  start: "i < NB \<Longrightarrow> pc (procs s i) = Running \<Longrightarrow> held (procs s i) = BUFFER_LOCK_UNLOCK \<Longrightarrow>
    m \<noteq> BUFFER_LOCK_UNLOCK \<Longrightarrow> lock_step NB s (goto i (Attempt1 m) s)"
| conditional: "i < NB \<Longrightarrow> pc (procs s i) = Running \<Longrightarrow> held (procs s i) = BUFFER_LOCK_UNLOCK \<Longrightarrow>
    m \<noteq> BUFFER_LOCK_UNLOCK \<Longrightarrow> lock_desired m (word s) = (True, w) \<Longrightarrow>
    lock_step NB s (set_proc i ((procs s i)\<lparr>held := m\<rparr>) (s\<lparr>word := w\<rparr>))"
| attempt1: "i < NB \<Longrightarrow> pc (procs s i) = Attempt1 m \<Longrightarrow> lock_desired m (word s) = (free, w) \<Longrightarrow>
    lock_step NB s (if free then set_proc i (acquired m 0 (procs s i)) (s\<lparr>word := w\<rparr>)
                    else goto i (QueueLock m) (s\<lparr>word := w\<rparr>))"
| queue_lock: "i < NB \<Longrightarrow> pc (procs s i) = QueueLock m \<Longrightarrow> word s AND BM_LOCKED = 0 \<Longrightarrow>
    lock_step NB s (goto i (QueueFlag m) (s\<lparr>word := word s OR BM_LOCKED\<rparr>))"
| queue_flag: "i < NB \<Longrightarrow> pc (procs s i) = QueueFlag m \<Longrightarrow>
    lock_step NB s (goto i (QueuePush m) (s\<lparr>word := word s OR BM_LOCK_HAS_WAITERS\<rparr>))"
| queue_push: "i < NB \<Longrightarrow> pc (procs s i) = QueuePush m \<Longrightarrow>
    lock_step NB s (set_proc i ((procs s i)\<lparr>pc := QueueUnlock m, lwWaiting := LW_WS_WAITING, lwWaitMode := m\<rparr>)
      (s\<lparr>lock_waiters := lock_waiters s @ [i]\<rparr>))"
| queue_unlock: "i < NB \<Longrightarrow> pc (procs s i) = QueueUnlock m \<Longrightarrow>
    lock_step NB s (goto i (Attempt2 m) (s\<lparr>word := word s - BM_LOCKED\<rparr>))"
| attempt2: "i < NB \<Longrightarrow> pc (procs s i) = Attempt2 m \<Longrightarrow> lock_desired m (word s) = (free, w) \<Longrightarrow>
    lock_step NB s (goto i (if free then DequeueLock m else Sleep m) (s\<lparr>word := w\<rparr>))"
| absorb: "i < NB \<Longrightarrow> pc (procs s i) = Sleep m \<Longrightarrow> 0 < sem (procs s i) \<Longrightarrow>
    lwWaiting (procs s i) \<noteq> LW_WS_NOT_WAITING \<Longrightarrow>
    lock_step NB s (set_proc i ((procs s i)\<lparr>sem := sem (procs s i) - 1, extraWaits := extraWaits (procs s i) + 1\<rparr>) s)"
| woken: "i < NB \<Longrightarrow> pc (procs s i) = Sleep m \<Longrightarrow> 0 < sem (procs s i) \<Longrightarrow>
    lwWaiting (procs s i) = LW_WS_NOT_WAITING \<Longrightarrow>
    lock_step NB s (set_proc i ((procs s i)\<lparr>pc := Retry m, sem := sem (procs s i) - 1\<rparr>) s)"
| retry: "i < NB \<Longrightarrow> pc (procs s i) = Retry m \<Longrightarrow>
    lock_step NB s (goto i (Attempt1 m) (s\<lparr>word := word s AND NOT BM_LOCK_WAKE_IN_PROGRESS\<rparr>))"
| dequeue_lock: "i < NB \<Longrightarrow> pc (procs s i) = DequeueLock m \<Longrightarrow> word s AND BM_LOCKED = 0 \<Longrightarrow>
    lock_step NB s (goto i (DequeueDelete m) (s\<lparr>word := word s OR BM_LOCKED\<rparr>))"
| dequeue_delete: "i < NB \<Longrightarrow> pc (procs s i) = DequeueDelete m \<Longrightarrow>
    on_waitlist = (lwWaiting (procs s i) = LW_WS_WAITING) \<Longrightarrow>
    lock_step NB s (goto i (DequeueFlag m on_waitlist)
      (if on_waitlist then s\<lparr>lock_waiters := remove1 i (lock_waiters s)\<rparr> else s))"
| dequeue_flag: "i < NB \<Longrightarrow> pc (procs s i) = DequeueFlag m on_waitlist \<Longrightarrow>
    lock_step NB s (goto i (DequeueUnlock m on_waitlist)
      (if lock_waiters s = [] \<and> word s AND BM_LOCK_HAS_WAITERS \<noteq> 0
       then s\<lparr>word := word s AND NOT BM_LOCK_HAS_WAITERS\<rparr> else s))"
| dequeue_unlock: "i < NB \<Longrightarrow> pc (procs s i) = DequeueUnlock m on_waitlist \<Longrightarrow>
    lock_step NB s (goto i (DequeueDone m on_waitlist) (s\<lparr>word := word s - BM_LOCKED\<rparr>))"
| dequeue_on: "i < NB \<Longrightarrow> pc (procs s i) = DequeueDone m True \<Longrightarrow>
    lock_step NB s (set_proc i (acquired m 0 ((procs s i)\<lparr>lwWaiting := LW_WS_NOT_WAITING\<rparr>)) s)"
| dequeue_off: "i < NB \<Longrightarrow> pc (procs s i) = DequeueDone m False \<Longrightarrow>
    lock_step NB s (goto i (DequeueSleep m 0) (s\<lparr>word := word s AND NOT BM_LOCK_WAKE_IN_PROGRESS\<rparr>))"
| dequeue_absorb: "i < NB \<Longrightarrow> pc (procs s i) = DequeueSleep m k \<Longrightarrow> 0 < sem (procs s i) \<Longrightarrow>
    lwWaiting (procs s i) \<noteq> LW_WS_NOT_WAITING \<Longrightarrow>
    lock_step NB s (set_proc i ((procs s i)\<lparr>pc := DequeueSleep m (k + 1), sem := sem (procs s i) - 1\<rparr>) s)"
| dequeue_woken: "i < NB \<Longrightarrow> pc (procs s i) = DequeueSleep m k \<Longrightarrow> 0 < sem (procs s i) \<Longrightarrow>
    lwWaiting (procs s i) = LW_WS_NOT_WAITING \<Longrightarrow>
    lock_step NB s (set_proc i (acquired m k ((procs s i)\<lparr>sem := sem (procs s i) - 1\<rparr>)) s)"
| release: "i < NB \<Longrightarrow> pc (procs s i) = Running \<Longrightarrow> held (procs s i) = m \<Longrightarrow>
    BufferLockReleaseSub m = Some sub \<Longrightarrow>
    lock_step NB s (set_proc i ((procs s i)\<lparr>held := BUFFER_LOCK_UNLOCK,
        pc := (case BufferLockProcessRelease m (word s - sub) of
                 None \<Rightarrow> Running | Some wake_exclusive \<Rightarrow> WakeLock wake_exclusive)\<rparr>)
      (s\<lparr>word := word s - sub\<rparr>))"
| wake_lock: "i < NB \<Longrightarrow> pc (procs s i) = WakeLock x \<Longrightarrow> word s AND BM_LOCKED = 0 \<Longrightarrow>
    lock_step NB s (goto i (WakeCollect x) (s\<lparr>word := word s OR BM_LOCKED\<rparr>))"
| wake_collect: "i < NB \<Longrightarrow> pc (procs s i) = WakeCollect x \<Longrightarrow>
    wakeup_scan (\<lambda>j. lwWaitMode (procs s j)) x True (lock_waiters s) = (wk, rest) \<Longrightarrow>
    lock_step NB s (goto i (WakeState wk) (s\<lparr>lock_waiters := rest,
      procs := (\<lambda>j. if j \<in> set wk then (procs s j)\<lparr>lwWaiting := LW_WS_PENDING_WAKEUP\<rparr> else procs s j)\<rparr>))"
| wake_state: "i < NB \<Longrightarrow> pc (procs s i) = WakeState wk \<Longrightarrow>
    lock_step NB s (goto i (WakeNext wk) (s\<lparr>word := wakeup_word (wk \<noteq> []) (lock_waiters s = []) (word s)\<rparr>))"
| wake_next: "i < NB \<Longrightarrow> pc (procs s i) = WakeNext (k # ks) \<Longrightarrow>
    lock_step NB s (goto i (WakeSem k ks) (set_proc k ((procs s k)\<lparr>lwWaiting := LW_WS_NOT_WAITING\<rparr>) s))"
| wake_sem: "i < NB \<Longrightarrow> pc (procs s i) = WakeSem k ks \<Longrightarrow>
    lock_step NB s (goto i (WakeNext ks) (set_proc k ((procs s k)\<lparr>sem := sem (procs s k) + 1\<rparr>) s))"
| wake_done: "i < NB \<Longrightarrow> pc (procs s i) = WakeNext [] \<Longrightarrow> lock_step NB s (goto i Running s)"
| other_bits: "bit w 22 = bit (word s) 22 \<Longrightarrow> (\<forall>k \<ge> 32. bit w k = bit (word s) k) \<Longrightarrow>
    lock_step NB s (s\<lparr>word := w\<rparr>)"
| other_lock: "word s AND BM_LOCKED = 0 \<Longrightarrow>
    lock_step NB s (s\<lparr>word := word s OR BM_LOCKED, hdr_taken := True\<rparr>)"
| other_unlock: "hdr_taken s \<Longrightarrow>
    lock_step NB s (s\<lparr>word := word s AND NOT BM_LOCKED, hdr_taken := False\<rparr>)"
| other_signal: "lock_step NB s (set_proc k ((procs s k)\<lparr>sem := sem (procs s k) + 1\<rparr>) s)"

text \<open>A buffer nobody has locked, in a pool of backends that wait for nothing.\<close>

definition lock_init :: "lock_sys \<Rightarrow> bool" where
  "lock_init s \<longleftrightarrow>
     lockn (word s) = 0 \<and> \<not> bit (word s) 22 \<and> \<not> bit (word s) 32 \<and> \<not> bit (word s) 33 \<and>
     lock_waiters s = [] \<and> \<not> hdr_taken s \<and>
     (\<forall>i. pc (procs s i) = Running \<and> held (procs s i) = BUFFER_LOCK_UNLOCK \<and>
        lwWaiting (procs s i) = LW_WS_NOT_WAITING)"

inductive lock_reachable :: "nat \<Rightarrow> lock_sys \<Rightarrow> bool" for NB where
  init: "lock_init s \<Longrightarrow> lock_reachable NB s"
| step: "lock_reachable NB s \<Longrightarrow> lock_step NB s s' \<Longrightarrow> lock_reachable NB s'"

inductive_cases lock_stepE [consumes 1, case_names start conditional attempt1 queue_lock queue_flag queue_push
    queue_unlock attempt2 absorb woken retry dequeue_lock dequeue_delete dequeue_flag dequeue_unlock dequeue_on
    dequeue_off dequeue_absorb dequeue_woken release wake_lock wake_collect wake_state wake_next wake_sem wake_done
    other_bits other_lock other_unlock other_signal]: "lock_step NB s s'"

lemma set_proc_simps [simp]:
  "word (set_proc i p s) = word s" "lock_waiters (set_proc i p s) = lock_waiters s"
  "hdr_taken (set_proc i p s) = hdr_taken s" "procs (set_proc i p s) = (procs s)(i := p)"
  by (simp_all add: set_proc_def)

lemma goto_simps [simp]:
  "word (goto i c s) = word s" "lock_waiters (goto i c s) = lock_waiters s"
  "hdr_taken (goto i c s) = hdr_taken s" "procs (goto i c s) = (procs s)(i := (procs s i)\<lparr>pc := c\<rparr>)"
  by (simp_all add: goto_def)

section \<open>Who holds the header lock\<close>

fun in_crit :: "pc \<Rightarrow> bool" where
  "in_crit (QueueFlag m) \<longleftrightarrow> True"
| "in_crit (QueuePush m) \<longleftrightarrow> True"
| "in_crit (QueueUnlock m) \<longleftrightarrow> True"
| "in_crit (DequeueDelete m) \<longleftrightarrow> True"
| "in_crit (DequeueFlag m x) \<longleftrightarrow> True"
| "in_crit (DequeueUnlock m x) \<longleftrightarrow> True"
| "in_crit (WakeCollect x) \<longleftrightarrow> True"
| "in_crit (WakeState ks) \<longleftrightarrow> True"
| "in_crit _ \<longleftrightarrow> False"

abbreviation crit :: "lock_sys \<Rightarrow> nat \<Rightarrow> bool" where
  "crit s i \<equiv> in_crit (pc (procs s i))"

definition hdr_inv :: "nat \<Rightarrow> lock_sys \<Rightarrow> bool" where
  "hdr_inv NB s \<longleftrightarrow>
     (bit (word s) 22 \<longleftrightarrow> hdr_taken s \<or> (\<exists>i < NB. crit s i)) \<and>
     (\<forall>i < NB. crit s i \<longrightarrow> \<not> hdr_taken s \<and> (\<forall>j < NB. crit s j \<longrightarrow> i = j))"

text \<open>How a step moves the header lock: a backend takes it, gives it back, or keeps it.\<close>

lemma hdr_inv_same:
  assumes "hdr_inv NB s" "bit (word s') 22 = bit (word s) 22" "hdr_taken s' = hdr_taken s"
    "\<forall>j < NB. crit s' j = crit s j"
  shows "hdr_inv NB s'"
  using assms by (auto simp: hdr_inv_def)

lemma hdr_inv_take:
  assumes "hdr_inv NB s" "\<not> bit (word s) 22" "bit (word s') 22" "hdr_taken s' = hdr_taken s" "i < NB"
    "\<forall>j < NB. crit s' j = (crit s j \<or> j = i)"
  shows "hdr_inv NB s'"
  using assms by (auto simp: hdr_inv_def)

lemma hdr_inv_give:
  assumes "hdr_inv NB s" "i < NB" "crit s i" "\<not> bit (word s') 22" "hdr_taken s' = hdr_taken s"
    "\<forall>j < NB. crit s' j = (crit s j \<and> j \<noteq> i)"
  shows "hdr_inv NB s'"
  using assms by (auto simp: hdr_inv_def)

lemma hdr_inv_bit: "hdr_inv NB s \<Longrightarrow> i < NB \<Longrightarrow> crit s i \<Longrightarrow> bit (word s) 22"
  by (auto simp: hdr_inv_def)

lemma lock_desired_bits:
  assumes "lock_desired m s = (free, w)" "lockn s < 2 ^ 20" "m \<noteq> BUFFER_LOCK_UNLOCK"
  shows "free = grantable m (lockn s)" "lockn w = (if free then lockn s + mode_val m else lockn s)"
    "\<forall>k < 34. bit w k = bit s k"
proof -
  have "mode_val m \<le> 2 ^ 19" by (cases m) simp_all
  then have lt: "lockn s + mode_val m < 2 ^ 30" using assms(2) by simp
  show "free = grantable m (lockn s)" "lockn w = (if free then lockn s + mode_val m else lockn s)"
    "\<forall>k < 34. bit w k = bit s k"
    using assms(1) lock_desired_grant [OF assms(2,3)] lockn_add [OF lt] by (auto split: if_splits)
qed

lemma low_add_sub:
  fixes s c :: uint64
  assumes "k < 34"
  shows "bit (s + push_bit 34 c) k = bit s k" "bit (s - push_bit 34 c) k = bit s k"
proof -
  have "take_bit 34 (push_bit 34 c) = 0" by (rule bit_eqI) (auto simp: bit_simps)
  then have "unat (take_bit 34 (push_bit 34 c)) = 0" by simp
  then have z: "unat (push_bit 34 c) mod 2 ^ 34 = 0" unfolding unsigned_take_bit_eq by (simp only: take_bit_eq_mod)
  have add: "bit (x + push_bit 34 c) k = bit x k" for x
  proof -
    have "unat (x + push_bit 34 c) mod 2 ^ 34 = (unat x + unat (push_bit 34 c)) mod 2 ^ 64 mod 2 ^ 34"
      by (simp add: unat_word_ariths)
    also have "\<dots> = (unat x + unat (push_bit 34 c)) mod 2 ^ 34" by (rule mod_mod_cancel) simp
    also have "\<dots> = unat x mod 2 ^ 34" using z by (metis add.right_neutral mod_add_right_eq)
    finally have "take_bit 34 (x + push_bit 34 c) = take_bit 34 x"
      unfolding word_unat_eq_iff unsigned_take_bit_eq by (simp only: take_bit_eq_mod)
    then have "bit (take_bit 34 (x + push_bit 34 c)) k = bit (take_bit 34 x) k" by simp
    with assms show ?thesis by (simp add: bit_take_bit_iff)
  qed
  show "bit (s + push_bit 34 c) k = bit s k" by (rule add)
  show "bit (s - push_bit 34 c) k = bit s k" using add [of "s - push_bit 34 c"] by simp
qed

lemma lock_val_push:
  "BM_LOCK_VAL_SHARED = push_bit 34 1" "BM_LOCK_VAL_SHARE_EXCLUSIVE = push_bit 34 (push_bit 18 1)"
  "BM_LOCK_VAL_EXCLUSIVE = push_bit 34 (push_bit 19 1)"
  by (simp_all add: layout_defs)

lemma lock_desired_low: "lock_desired m s = (free, w) \<Longrightarrow> k < 34 \<Longrightarrow> bit w k = bit s k"
  unfolding lock_desired_def Let_def lock_val_push by (simp only: prod.inject split: if_splits)
    (auto simp only: low_add_sub)

lemma release_low: "BufferLockReleaseSub m = Some sub \<Longrightarrow> k < 34 \<Longrightarrow> bit (s - sub) k = bit s k"
  unfolding BufferLockReleaseSub_def lock_val_push
  by (auto simp only: low_add_sub option.inject option.distinct split: if_splits)

lemma not_crit_acquired [simp]: "pc (acquired m k p) = Running"
  by (simp add: acquired_def)

lemma hdr_inv_step:
  assumes "lock_step NB s s'" "hdr_inv NB s"
  shows "hdr_inv NB s'"
  using assms(1)
proof cases
  case (queue_lock i m)
  show ?thesis by (rule hdr_inv_take [OF assms(2), where i = i]) (use queue_lock in \<open>auto simp: bit_simps flag_bits\<close>)
next
  case (dequeue_lock i m)
  show ?thesis by (rule hdr_inv_take [OF assms(2), where i = i]) (use dequeue_lock in \<open>auto simp: bit_simps flag_bits\<close>)
next
  case (wake_lock i x)
  show ?thesis by (rule hdr_inv_take [OF assms(2), where i = i]) (use wake_lock in \<open>auto simp: bit_simps flag_bits\<close>)
next
  case (queue_unlock i m)
  then show ?thesis using hdr_inv_bit [OF assms(2), of i]
    by (intro hdr_inv_give [OF assms(2), of i]) (auto simp: minus_BM_LOCKED bit_simps flag_bits)
next
  case (dequeue_unlock i m x)
  then show ?thesis using hdr_inv_bit [OF assms(2), of i]
    by (intro hdr_inv_give [OF assms(2), of i]) (auto simp: minus_BM_LOCKED bit_simps flag_bits)
next
  case (wake_state i wk)
  then show ?thesis
    by (intro hdr_inv_give [OF assms(2), of i]) (auto simp: wakeup_word_fields)
next
  case other_lock
  then show ?thesis using assms(2) by (auto simp: hdr_inv_def bit_simps flag_bits)
next
  case other_unlock
  then show ?thesis using assms(2) by (auto simp: hdr_inv_def bit_simps flag_bits)
next
  case (release i m sub)
  then show ?thesis
    by (intro hdr_inv_same [OF assms(2)]) (auto simp: release_low split: option.splits)
next
  case (attempt1 i m free w)
  then show ?thesis
    by (intro hdr_inv_same [OF assms(2)]) (auto simp: lock_desired_low)
next
  case (attempt2 i m free w)
  then show ?thesis
    by (intro hdr_inv_same [OF assms(2)]) (auto simp: lock_desired_low)
next
  case (conditional i m w)
  then show ?thesis
    by (intro hdr_inv_same [OF assms(2)]) (auto simp: lock_desired_low)
qed (intro hdr_inv_same [OF assms(2)]; auto simp: bit_simps flag_bits)+

section \<open>Who holds the content lock\<close>

text \<open>A backend that got the lock on its second attempt holds it while it leaves the wait list.\<close>

fun leaving :: "pc \<Rightarrow> BufferLockMode option" where
  "leaving (DequeueLock m) = Some m"
| "leaving (DequeueDelete m) = Some m"
| "leaving (DequeueFlag m x) = Some m"
| "leaving (DequeueUnlock m x) = Some m"
| "leaving (DequeueDone m x) = Some m"
| "leaving (DequeueSleep m k) = Some m"
| "leaving _ = None"

definition holding :: "proc \<Rightarrow> BufferLockMode" where
  "holding p = (case leaving (pc p) of Some m \<Rightarrow> m | None \<Rightarrow> held p)"

fun compatible :: "BufferLockMode \<Rightarrow> BufferLockMode \<Rightarrow> bool" where
  "compatible BUFFER_LOCK_UNLOCK m \<longleftrightarrow> True"
| "compatible m BUFFER_LOCK_UNLOCK \<longleftrightarrow> True"
| "compatible BUFFER_LOCK_SHARE m \<longleftrightarrow> m \<noteq> BUFFER_LOCK_EXCLUSIVE"
| "compatible BUFFER_LOCK_SHARE_EXCLUSIVE m \<longleftrightarrow> m = BUFFER_LOCK_SHARE"
| "compatible BUFFER_LOCK_EXCLUSIVE m \<longleftrightarrow> False"

fun wanted :: "pc \<Rightarrow> BufferLockMode option" where
  "wanted (Attempt1 m) = Some m"
| "wanted (QueueLock m) = Some m"
| "wanted (QueueFlag m) = Some m"
| "wanted (QueuePush m) = Some m"
| "wanted (QueueUnlock m) = Some m"
| "wanted (Attempt2 m) = Some m"
| "wanted (Sleep m) = Some m"
| "wanted (Retry m) = Some m"
| "wanted c = leaving c"

text \<open>The lock field adds up what the backends hold, and what they hold is compatible.\<close>

definition lock_inv :: "nat \<Rightarrow> lock_sys \<Rightarrow> bool" where
  "lock_inv NB s \<longleftrightarrow>
     lockn (word s) = (\<Sum>i < NB. mode_val (holding (procs s i))) \<and>
     (\<forall>i < NB. \<forall>j < NB. i \<noteq> j \<longrightarrow> compatible (holding (procs s i)) (holding (procs s j))) \<and>
     (\<forall>i < NB. wanted (pc (procs s i)) \<noteq> Some BUFFER_LOCK_UNLOCK \<and>
        (pc (procs s i) \<noteq> Running \<longrightarrow> held (procs s i) = BUFFER_LOCK_UNLOCK))"

lemma sum_upd:
  fixes f :: "'a \<Rightarrow> nat" and NB :: nat
  assumes "i < NB"
  shows "(\<Sum>j < NB. f ((P(i := p)) j)) + f (P i) = (\<Sum>j < NB. f (P j)) + f p"
proof -
  have "(\<Sum>j < NB. f ((P(i := p)) j)) = f p + (\<Sum>j \<in> {..<NB} - {i}. f (P j))"
    using assms by (subst sum.remove [of _ i]) (auto intro!: sum.cong)
  moreover have "(\<Sum>j < NB. f (P j)) = f (P i) + (\<Sum>j \<in> {..<NB} - {i}. f (P j))"
    using assms by (intro sum.remove) auto
  ultimately show ?thesis by simp
qed

lemma sum_pos_le: "i < NB \<Longrightarrow> f i \<le> (\<Sum>j < NB. f j)" for f :: "nat \<Rightarrow> nat"
  by (rule member_le_sum) auto

text \<open>What the field says of the holders, for no more backends than the field can count.\<close>

lemma lock_inv_bounds:
  assumes inv: "lock_inv NB s" and NB: "NB < 2 ^ 18"
  shows "lockn (word s) < 2 ^ 20"
    "grantable m (lockn (word s)) \<Longrightarrow> m \<noteq> BUFFER_LOCK_UNLOCK \<Longrightarrow> i < NB \<Longrightarrow> compatible m (holding (procs s i))"
    "lockn (word s) = 0 \<longleftrightarrow> (\<forall>i < NB. holding (procs s i) = BUFFER_LOCK_UNLOCK)"
proof -
  let ?h = "\<lambda>i. holding (procs s i)"
  have acct: "lockn (word s) = (\<Sum>i < NB. mode_val (?h i))" using inv by (simp add: lock_inv_def)
  have compat: "compatible (?h i) (?h j)" if "i < NB" "j < NB" "i \<noteq> j" for i j
    using inv that by (auto simp: lock_inv_def)
  have le: "mode_val (?h i) \<le> lockn (word s)" if "i < NB" for i
    unfolding acct using that by (rule sum_pos_le [where f = "\<lambda>i. mode_val (?h i)"])
  show "lockn (word s) < 2 ^ 20"
  proof (cases "\<exists>i < NB. ?h i = BUFFER_LOCK_EXCLUSIVE \<or> ?h i = BUFFER_LOCK_SHARE_EXCLUSIVE")
    case True
    then obtain i where i: "i < NB" "?h i = BUFFER_LOCK_EXCLUSIVE \<or> ?h i = BUFFER_LOCK_SHARE_EXCLUSIVE" by blast
    have "(\<Sum>j < NB. mode_val (?h j)) = mode_val (?h i) + (\<Sum>j \<in> {..<NB} - {i}. mode_val (?h j))"
      using i by (intro sum.remove) auto
    moreover have "(\<Sum>j \<in> {..<NB} - {i}. mode_val (?h j)) \<le> (\<Sum>j \<in> {..<NB} - {i}. 1)"
    proof (rule sum_mono)
      fix j assume "j \<in> {..<NB} - {i}"
      then have "compatible (?h i) (?h j)" using compat i by auto
      with i show "mode_val (?h j) \<le> 1" by (cases "?h j") auto
    qed
    moreover have "mode_val (?h i) \<le> 2 ^ 19" using i by auto
    moreover have "(\<Sum>j \<in> {..<NB} - {i}. 1) \<le> NB" using i by simp
    ultimately show ?thesis using NB unfolding acct by simp
  next
    case False
    then have "mode_val (?h j) \<le> 1" if "j < NB" for j using that by (cases "?h j") auto
    then have "(\<Sum>j < NB. mode_val (?h j)) \<le> (\<Sum>j < NB. 1)" by (intro sum_mono) auto
    then show ?thesis using NB unfolding acct by simp
  qed
  show "compatible m (?h i)" if "grantable m (lockn (word s))" "m \<noteq> BUFFER_LOCK_UNLOCK" "i < NB"
    using that le [of i] by (cases m; cases "?h i") auto
  show "lockn (word s) = 0 \<longleftrightarrow> (\<forall>i < NB. ?h i = BUFFER_LOCK_UNLOCK)"
  proof
    assume "lockn (word s) = 0"
    then have "mode_val (?h i) = 0" if "i < NB" for i using le [OF that] by simp
    then show "\<forall>i < NB. ?h i = BUFFER_LOCK_UNLOCK" by (metis mode_val.elims one_neq_zero power_not_zero zero_neq_numeral)
  qed (simp add: acct)
qed

definition pc_ok :: "proc \<Rightarrow> bool" where
  "pc_ok p \<longleftrightarrow> wanted (pc p) \<noteq> Some BUFFER_LOCK_UNLOCK \<and> (pc p \<noteq> Running \<longrightarrow> held p = BUFFER_LOCK_UNLOCK)"

lemma lock_inv_frame:
  assumes "lock_inv NB s" "lockn (word s') = lockn (word s)"
    "\<forall>j < NB. holding (procs s' j) = holding (procs s j) \<and> pc_ok (procs s' j)"
  shows "lock_inv NB s'"
  using assms by (auto simp: lock_inv_def pc_ok_def)

lemma lock_inv_frame1:
  assumes "lock_inv NB s" "i < NB" "lockn (word s') = lockn (word s)" "procs s' = (procs s)(i := p)"
    "holding p = holding (procs s i)" "pc_ok p"
  shows "lock_inv NB s'"
  using assms by (intro lock_inv_frame [OF assms(1)]) (auto simp: lock_inv_def pc_ok_def)

lemma compatible_sym: "compatible m m' = compatible m' m"
  by (cases m; cases m') auto

lemma lock_inv_grant:
  assumes inv: "lock_inv NB s" and NB: "NB < 2 ^ 18" and i: "i < NB" "holding (procs s i) = BUFFER_LOCK_UNLOCK"
    and g: "lock_desired m (word s) = (True, word s')" "m \<noteq> BUFFER_LOCK_UNLOCK"
    and p: "procs s' = (procs s)(i := p)" "holding p = m" "pc_ok p"
  shows "lock_inv NB s'"
proof -
  note b = lock_inv_bounds [OF inv NB]
  note d = lock_desired_bits [OF g(1) b(1) g(2)]
  have "lockn (word s') = (\<Sum>j < NB. mode_val (holding (procs s j))) + mode_val m"
    using d(2) inv by (simp add: lock_inv_def)
  then have "lockn (word s') = (\<Sum>j < NB. mode_val (holding (procs s' j)))"
    using sum_upd [OF i(1), of "\<lambda>q. mode_val (holding q)" "procs s" p] i(2) p by simp
  moreover have "compatible m (holding (procs s j))" if "j < NB" for j using b(2) [OF _ g(2) that] d(1) by simp
  then have "compatible (holding (procs s' j)) (holding (procs s' k))" if "j < NB" "k < NB" "j \<noteq> k" for j k
    using that inv p by (auto simp: lock_inv_def compatible_sym)
  ultimately show ?thesis using inv p by (auto simp: lock_inv_def pc_ok_def)
qed

lemma lock_inv_release:
  assumes inv: "lock_inv NB s" and i: "i < NB" "holding (procs s i) = m" and g: "BufferLockReleaseSub m = Some sub"
    and p: "procs s' = (procs s)(i := p)" "word s' = word s - sub" "holding p = BUFFER_LOCK_UNLOCK" "pc_ok p"
  shows "lock_inv NB s'" "lockn (word s') = lockn (word s) - mode_val m"
proof -
  have acct: "lockn (word s) = (\<Sum>j < NB. mode_val (holding (procs s j)))" using inv by (simp add: lock_inv_def)
  have m: "m \<noteq> BUFFER_LOCK_UNLOCK" using g by (auto simp: BufferLockReleaseSub_def)
  have le: "mode_val m \<le> lockn (word s)"
    using sum_pos_le [OF i(1), of "\<lambda>j. mode_val (holding (procs s j))"] i(2) acct by simp
  show l: "lockn (word s') = lockn (word s) - mode_val m"
    using lockn_sub(1) [OF le] release_unit [OF m] g p(2) by simp
  have "lockn (word s') = (\<Sum>j < NB. mode_val (holding (procs s' j)))"
    using sum_upd [OF i(1), of "\<lambda>q. mode_val (holding q)" "procs s" p] i(2) p l acct by simp
  moreover have "compatible (holding (procs s' j)) (holding (procs s' k))" if "j < NB" "k < NB" "j \<noteq> k" for j k
    using that inv p by (auto simp: lock_inv_def compatible_sym)
  ultimately show "lock_inv NB s'" using inv p by (auto simp: lock_inv_def pc_ok_def)
qed

lemma lock_inv_pc_ok: "lock_inv NB s \<Longrightarrow> i < NB \<Longrightarrow> pc_ok (procs s i)"
  by (simp add: lock_inv_def pc_ok_def)

lemma holding_acquired [simp]: "holding (acquired m k p) = m" "pc_ok (acquired m k p)"
  by (simp_all add: holding_def acquired_def pc_ok_def)

lemma holding_pc_ok: "pc_ok p \<Longrightarrow> holding p = (case leaving (pc p) of Some m \<Rightarrow> m
    | None \<Rightarrow> if pc p = Running then held p else BUFFER_LOCK_UNLOCK)"
  by (auto simp: holding_def pc_ok_def split: option.splits)

lemma lock_inv_step:
  assumes "lock_step NB s s'" "hdr_inv NB s" and inv: "lock_inv NB s" and NB: "NB < 2 ^ 18"
  shows "lock_inv NB s'"
proof -
  note ok = lock_inv_pc_ok [OF inv]
  note b = lock_inv_bounds(1) [OF inv NB]
  from assms(1) show ?thesis
  proof cases
    case (conditional i m w)
    show ?thesis
      by (rule lock_inv_grant [OF inv NB conditional(2), where m = m and p = "(procs s i)\<lparr>held := m\<rparr>"])
        (use conditional in \<open>simp_all add: holding_def pc_ok_def\<close>)
  next
    case (attempt1 i m free w)
    have m: "m \<noteq> BUFFER_LOCK_UNLOCK" "holding (procs s i) = BUFFER_LOCK_UNLOCK"
      using ok [OF attempt1(2)] attempt1(3) by (auto simp: pc_ok_def holding_def)
    show ?thesis
    proof (cases free)
      case True
      show ?thesis
        by (rule lock_inv_grant [OF inv NB attempt1(2) m(2), where m = m and p = "acquired m 0 (procs s i)"])
          (use True m attempt1 in simp_all)
    next
      case False
      then show ?thesis using attempt1 m ok lock_desired_bits(2) [OF attempt1(4) b m(1)]
        by (intro lock_inv_frame [OF inv]) (auto simp: holding_def pc_ok_def)
    qed
  next
    case (attempt2 i m free w)
    have m: "m \<noteq> BUFFER_LOCK_UNLOCK" "holding (procs s i) = BUFFER_LOCK_UNLOCK"
      using ok [OF attempt2(2)] attempt2(3) by (auto simp: pc_ok_def holding_def)
    show ?thesis
    proof (cases free)
      case True
      show ?thesis
        by (rule lock_inv_grant [OF inv NB attempt2(2) m(2), where m = m and p = "(procs s i)\<lparr>pc := DequeueLock m\<rparr>"])
          (use True m attempt2 ok [OF attempt2(2)] in \<open>simp_all add: holding_def pc_ok_def\<close>)
    next
      case False
      then show ?thesis using attempt2 m ok lock_desired_bits(2) [OF attempt2(4) b m(1)]
        by (intro lock_inv_frame [OF inv]) (auto simp: holding_def pc_ok_def)
    qed
  next
    case (release i m sub)
    show ?thesis
      by (rule lock_inv_release(1) [OF inv release(2) _ release(5)])
        (use release in \<open>auto simp: holding_def pc_ok_def split: option.splits\<close>)
  next
    case (other_bits w)
    then have "lockn w = lockn (word s)" by (intro lockn_cong) auto
    then show ?thesis using other_bits ok by (intro lock_inv_frame [OF inv]) auto
  next
    case (queue_unlock i m)
    show ?thesis
      by (rule lock_inv_frame1 [OF inv queue_unlock(2)])
        (use queue_unlock ok [OF queue_unlock(2)] hdr_inv_bit [OF assms(2) queue_unlock(2)] in
          \<open>auto simp: holding_def pc_ok_def minus_BM_LOCKED\<close>)
  next
    case (dequeue_unlock i m x)
    show ?thesis
      by (rule lock_inv_frame1 [OF inv dequeue_unlock(2)])
        (use dequeue_unlock ok [OF dequeue_unlock(2)] hdr_inv_bit [OF assms(2) dequeue_unlock(2)] in
          \<open>auto simp: holding_def pc_ok_def minus_BM_LOCKED\<close>)
  next
    case (wake_state i wk)
    show ?thesis
      by (rule lock_inv_frame1 [OF inv wake_state(2)])
        (use wake_state ok [OF wake_state(2)] in \<open>auto simp: holding_def pc_ok_def wakeup_word_fields\<close>)
  next
    case (wake_collect i x wk rest)
    then show ?thesis using ok ok [OF wake_collect(2)]
      by (intro lock_inv_frame [OF inv]) (auto simp: holding_def pc_ok_def cong: option.case_cong)
  next
    case (wake_next i k ks)
    then show ?thesis using ok ok [OF wake_next(2)]
      by (intro lock_inv_frame [OF inv]) (auto simp: holding_def pc_ok_def cong: option.case_cong)
  next
    case (wake_sem i k ks)
    then show ?thesis using ok ok [OF wake_sem(2)]
      by (intro lock_inv_frame [OF inv]) (auto simp: holding_def pc_ok_def cong: option.case_cong)
  next
    case (other_signal k)
    then show ?thesis using ok by (intro lock_inv_frame [OF inv]) (auto simp: holding_def pc_ok_def cong: option.case_cong)
  next
    case other_lock
    then show ?thesis using ok by (intro lock_inv_frame [OF inv]) auto
  next
    case other_unlock
    then show ?thesis using ok by (intro lock_inv_frame [OF inv]) auto
  qed (rule lock_inv_frame1 [OF inv], assumption, (auto simp: holding_def pc_ok_def acquired_def dest: ok cong: option.case_cong)[4])+
qed

section \<open>The attempt under interference\<close>

text \<open>
  \<open>BufferLockAttempt\<close> is one atomic step, the one the transition system has for it: the round whose
  compare-and-exchange succeeds.
\<close>

lemma BufferLockAttempt_loop_atomic:
  "BufferLockAttempt_loop fuel E t st b mode (st b) = Done (t', st') mustwait \<Longrightarrow> P (st b) \<Longrightarrow>
    (\<And>u st. P (st b) \<Longrightarrow> P (E u st b)) \<Longrightarrow>
    \<exists>u st0 w. t \<le> u \<and> P (E u st0 b) \<and> t' = Suc u \<and> lock_desired mode (E u st0 b) = (\<not> mustwait, w) \<and> st' = (E u st0)(b := w)"
proof (induction fuel arbitrary: t st)
  case (Suc fuel)
  show ?case
  proof (cases "E t st b = st b")
    case True
    then show ?thesis using Suc.prems
      by (intro exI [of _ t] exI [of _ st]) (auto simp: pg_atomic_compare_exchange_u64_def split: prod.splits)
  next
    case False
    then have "BufferLockAttempt_loop fuel E (Suc t) (E t st) b mode (E t st b) = Done (t', st') mustwait"
      using Suc.prems by (auto simp: pg_atomic_compare_exchange_u64_def split: prod.splits)
    then have "\<exists>u st0 w. Suc t \<le> u \<and> P (E u st0 b) \<and> t' = Suc u \<and> lock_desired mode (E u st0 b) = (\<not> mustwait, w) \<and>
        st' = (E u st0)(b := w)"
      by (rule Suc.IH) (use Suc.prems(2,3) in blast)+
    then show ?thesis by (metis Suc_leD)
  qed
qed simp

lemma BufferLockAttempt_loop_ends:
  "k < fuel \<Longrightarrow> \<forall>st. E (t + k) st b = st b \<Longrightarrow> \<exists>x r. BufferLockAttempt_loop fuel E t st b mode (st b) = Done x r"
proof (induction fuel arbitrary: t st k)
  case (Suc fuel)
  show ?case
  proof (cases "E t st b = st b")
    case False
    then obtain k' where k: "k = Suc k'" using Suc.prems(2) by (cases k) auto
    then have "\<exists>x r. BufferLockAttempt_loop fuel E (Suc t) (E t st) b mode (E t st b) = Done x r"
      using Suc.prems by (intro Suc.IH [of k']) auto
    then show ?thesis using False by (auto simp: pg_atomic_compare_exchange_u64_def split: prod.splits)
  qed (auto simp: pg_atomic_compare_exchange_u64_def split: prod.splits)
qed simp

text \<open>
  C34: BufferLockAttempt is atomic and ends. Whatever other backends do to the buffer headers between its
  accesses, when it returns it has done exactly one step on the word it found at its last
  compare-and-exchange: the lock granted and counted, or refused with the word unchanged. And it
  returns as soon as one of its rounds is not disturbed by a change of that word.
\<close>

theorem BufferLockAttempt_atomic:
  assumes "k < fuel" "\<forall>st. E (Suc t + k) st b = st b" "mode \<noteq> BUFFER_LOCK_UNLOCK" "lockn (st b) < 2 ^ 20"
    "\<forall>u st. lockn (st b) < 2 ^ 20 \<longrightarrow> lockn (E u st b) < 2 ^ 20"
  shows "\<exists>u st0 mustwait. t < u \<and>
    BufferLockAttempt fuel E t st b mode =
      Done (Suc u, if mustwait then E u st0
                   else (E u st0)(b := E u st0 b + word_of_nat (mode_val mode * 2 ^ 34))) mustwait \<and>
    (mustwait \<longleftrightarrow> \<not> grantable mode (lockn (E u st0 b)))"
proof -
  obtain t' st' mustwait where r: "BufferLockAttempt fuel E t st b mode = Done (t', st') mustwait"
    using BufferLockAttempt_loop_ends [of k fuel E "Suc t" b "E t st" mode] assms(1,2)
    by (auto simp: BufferLockAttempt_def Let_def)
  have "\<exists>u st0 w. Suc t \<le> u \<and> lockn (E u st0 b) < 2 ^ 20 \<and> t' = Suc u \<and>
      lock_desired mode (E u st0 b) = (\<not> mustwait, w) \<and> st' = (E u st0)(b := w)"
    by (rule BufferLockAttempt_loop_atomic [where P = "\<lambda>s. lockn s < 2 ^ 20" and st = "E t st"])
      (use r assms(4,5) in \<open>auto simp: BufferLockAttempt_def Let_def\<close>)
  then obtain u st0 w where u: "Suc t \<le> u" "lockn (E u st0 b) < 2 ^ 20" "t' = Suc u"
      "lock_desired mode (E u st0 b) = (\<not> mustwait, w)" "st' = (E u st0)(b := w)"
    by blast
  then show ?thesis using r lock_desired_grant [OF u(2) assms(3)]
    by (intro exI [of _ u] exI [of _ st0] exI [of _ mustwait]) (auto split: if_splits)
qed

text \<open>Another backend takes the lock shared between the first read and the exchange.\<close>

theorem BufferLockAttempt_atomic_witness:
  "let E = (\<lambda>t st. if t = 1 then st(0 := BM_LOCK_VAL_SHARED) else st) in
   \<exists>u st0 mustwait. 0 < u \<and>
     BufferLockAttempt 2 E 0 (\<lambda>b. 0) 0 BUFFER_LOCK_EXCLUSIVE =
       Done (Suc u, if mustwait then E u st0 else (E u st0)(0 := E u st0 0 + word_of_nat (mode_val BUFFER_LOCK_EXCLUSIVE * 2 ^ 34))) mustwait \<and>
     (mustwait \<longleftrightarrow> \<not> grantable BUFFER_LOCK_EXCLUSIVE (lockn (E u st0 0)))"
  unfolding Let_def by (rule BufferLockAttempt_atomic [where k = 1]) (simp_all add: lockn_def layout_defs)

end
