(* ===== verification/Lock_Queue.thy ===== *)
theory Lock_Queue
  imports Content_Lock
begin

unbundle bit_operations_syntax

text \<open>
  The wait list of the content lock: the invariants that tie the list, the waiting states of the
  backends and the lists of the backends that are being woken together, and from them that no
  wakeup is lost.
\<close>

section \<open>The wait list\<close>

lemma wakeup_scan_Cons:
  assumes "wakeup_scan f a b (w # ws) = (wk, rest)"
  obtains (skip) rest' where "wakeup_scan f a b ws = (wk, rest')" "rest = w # rest'"
    | (last) "wk = [w]" "rest = ws"
    | (wake) a' b' wk' where "wakeup_scan f a' b' ws = (wk', rest)" "wk = w # wk'"
proof -
  consider "(\<not> a \<and> f w = BUFFER_LOCK_EXCLUSIVE) \<or> (\<not> b \<and> f w = BUFFER_LOCK_SHARE_EXCLUSIVE)"
    | "a \<and> f w = BUFFER_LOCK_EXCLUSIVE" | "f w \<noteq> BUFFER_LOCK_EXCLUSIVE" "b \<or> f w \<noteq> BUFFER_LOCK_SHARE_EXCLUSIVE"
    by blast
  then show thesis
  proof cases
    case 1
    with assms skip show ?thesis by (cases "wakeup_scan f a b ws") auto
  next
    case 2
    with assms last show ?thesis by auto
  next
    case 3
    then have "\<exists>a' b'. wakeup_scan f a b (w # ws) = (let (wk', r) = wakeup_scan f a' b' ws in (w # wk', r))"
      by (cases "f w") auto
    then obtain a' b' where "(let (wk', r) = wakeup_scan f a' b' ws in (w # wk', r)) = (wk, rest)"
      using assms by auto
    with wake show ?thesis by (cases "wakeup_scan f a' b' ws") auto
  qed
qed

lemma wakeup_scan_split:
  "wakeup_scan f a b ws = (wk, rest) \<Longrightarrow> set ws = set wk \<union> set rest \<and>
    (distinct ws \<longrightarrow> distinct wk \<and> distinct rest \<and> set wk \<inter> set rest = {})"
proof (induction ws arbitrary: a b wk rest)
  case (Cons w ws)
  from Cons.prems show ?case
  proof (cases rule: wakeup_scan_Cons)
    case (skip rest')
    with Cons.IH [OF skip(1)] show ?thesis by auto
  next
    case (wake a' b' wk')
    with Cons.IH [OF wake(1)] show ?thesis by auto
  qed auto
qed simp

lemma wakeup_scan_first:
  "wakeup_scan f True True (w # ws) = (wk, rest) \<Longrightarrow> w \<in> set wk"
  by (auto split: if_splits prod.splits)

text \<open>Past the point where it looked itself up in the list: was it there?\<close>

fun looked_up :: "pc \<Rightarrow> bool option" where
  "looked_up (DequeueFlag m x) = Some x"
| "looked_up (DequeueUnlock m x) = Some x"
| "looked_up (DequeueDone m x) = Some x"
| "looked_up (DequeueSleep m k) = Some False"
| "looked_up _ = None"

text \<open>The backends a waking backend has still to signal.\<close>

fun wake_list :: "pc \<Rightarrow> nat list" where
  "wake_list (WakeState ks) = ks"
| "wake_list (WakeNext ks) = ks"
| "wake_list (WakeSem k ks) = ks"
| "wake_list _ = []"

text \<open>The waiting states a backend can have at each place.\<close>

fun wait_states :: "pc \<Rightarrow> LWLockWaitState set" where
  "wait_states (QueueUnlock m) = {LW_WS_WAITING}"
| "wait_states (Attempt2 m) = UNIV"
| "wait_states (Sleep m) = UNIV"
| "wait_states (DequeueLock m) = UNIV"
| "wait_states (DequeueDelete m) = UNIV"
| "wait_states (DequeueFlag m x) = (if x then {LW_WS_WAITING} else - {LW_WS_WAITING})"
| "wait_states (DequeueUnlock m x) = (if x then {LW_WS_WAITING} else - {LW_WS_WAITING})"
| "wait_states (DequeueDone m x) = (if x then {LW_WS_WAITING} else - {LW_WS_WAITING})"
| "wait_states (DequeueSleep m k) = - {LW_WS_WAITING}"
| "wait_states _ = {LW_WS_NOT_WAITING}"

definition wait_ok :: "proc \<Rightarrow> bool" where
  "wait_ok p \<longleftrightarrow> lwWaiting p \<in> wait_states (pc p)"

lemma wait_states_wake:
  "LW_WS_WAITING \<in> wait_states c \<Longrightarrow> looked_up c = None \<Longrightarrow> \<not> (\<exists>m. c = QueueUnlock m) \<Longrightarrow>
    LW_WS_PENDING_WAKEUP \<in> wait_states c"
  "LW_WS_PENDING_WAKEUP \<in> wait_states c \<Longrightarrow> LW_WS_NOT_WAITING \<in> wait_states c"
  by (cases c; auto split: if_splits)+

lemma looked_up_wait: "x \<in> wait_states c \<Longrightarrow> looked_up c = Some True \<Longrightarrow> x = LW_WS_WAITING"
  by (cases c) auto

definition queued :: "proc \<Rightarrow> bool" where
  "queued p \<longleftrightarrow> lwWaiting p = LW_WS_WAITING \<and> looked_up (pc p) = None"

abbreviation to_wake :: "lock_sys \<Rightarrow> nat \<Rightarrow> nat set" where
  "to_wake s i \<equiv> set (wake_list (pc (procs s i)))"

abbreviation pending :: "lock_sys \<Rightarrow> nat \<Rightarrow> bool" where
  "pending s k \<equiv> lwWaiting (procs s k) = LW_WS_PENDING_WAKEUP"

definition queue_inv :: "nat \<Rightarrow> lock_sys \<Rightarrow> bool" where
  "queue_inv NB s \<longleftrightarrow>
     (\<forall>i < NB. wait_ok (procs s i) \<and> distinct (wake_list (pc (procs s i)))) \<and>
     distinct (lock_waiters s) \<and> set (lock_waiters s) = {i. i < NB \<and> queued (procs s i)} \<and>
     (\<forall>i < NB. \<forall>k \<in> to_wake s i. k < NB \<and> pending s k) \<and>
     (\<forall>i < NB. \<forall>j < NB. i \<noteq> j \<longrightarrow> to_wake s i \<inter> to_wake s j = {}) \<and>
     (\<forall>k < NB. pending s k \<longrightarrow> (\<exists>i < NB. k \<in> to_wake s i))"

lemma queue_invD:
  assumes "queue_inv NB s"
  shows "i < NB \<Longrightarrow> wait_ok (procs s i)" "i < NB \<Longrightarrow> distinct (wake_list (pc (procs s i)))"
    "distinct (lock_waiters s)" "set (lock_waiters s) = {i. i < NB \<and> queued (procs s i)}"
    "i < NB \<Longrightarrow> k \<in> to_wake s i \<Longrightarrow> k < NB \<and> pending s k"
    "i < NB \<Longrightarrow> j < NB \<Longrightarrow> i \<noteq> j \<Longrightarrow> to_wake s i \<inter> to_wake s j = {}"
    "k < NB \<Longrightarrow> pending s k \<Longrightarrow> \<exists>i < NB. k \<in> to_wake s i"
  using assms by (auto simp: queue_inv_def)

lemma queue_invI:
  assumes "\<And>i. i < NB \<Longrightarrow> wait_ok (procs s i)" "\<And>i. i < NB \<Longrightarrow> distinct (wake_list (pc (procs s i)))"
    "distinct (lock_waiters s)" "set (lock_waiters s) = {i. i < NB \<and> queued (procs s i)}"
    "\<And>i k. i < NB \<Longrightarrow> k \<in> to_wake s i \<Longrightarrow> k < NB \<and> pending s k"
    "\<And>i j. i < NB \<Longrightarrow> j < NB \<Longrightarrow> i \<noteq> j \<Longrightarrow> to_wake s i \<inter> to_wake s j = {}"
    "\<And>k. k < NB \<Longrightarrow> pending s k \<Longrightarrow> \<exists>i < NB. k \<in> to_wake s i"
  shows "queue_inv NB s"
  using assms by (simp add: queue_inv_def)

lemma queue_inv_frame:
  assumes "queue_inv NB s" "lock_waiters s' = lock_waiters s"
    "\<And>j. j < NB \<Longrightarrow> wait_ok (procs s j) \<Longrightarrow> lwWaiting (procs s' j) = lwWaiting (procs s j) \<and>
       wake_list (pc (procs s' j)) = wake_list (pc (procs s j)) \<and>
       queued (procs s' j) = queued (procs s j) \<and> wait_ok (procs s' j)"
  shows "queue_inv NB s'"
proof -
  have e: "lwWaiting (procs s' j) = lwWaiting (procs s j)" "wake_list (pc (procs s' j)) = wake_list (pc (procs s j))"
    "queued (procs s' j) = queued (procs s j)" "wait_ok (procs s' j)" if "j < NB" for j
    using assms(3) [OF that queue_invD(1) [OF assms(1) that]] by auto
  have "(\<exists>i < NB. k \<in> to_wake s' i) = (\<exists>i < NB. k \<in> to_wake s i)" for k using e(2) by auto
  then show ?thesis
    using assms(1,2) e unfolding queue_inv_def by (simp add: Collect_conj_eq cong: conj_cong)
qed

lemma queue_inv_frame1:
  assumes "queue_inv NB s" "i < NB" "procs s' = (procs s)(i := p)" "lock_waiters s' = lock_waiters s"
    "wait_ok (procs s i) \<Longrightarrow> lwWaiting p = lwWaiting (procs s i) \<and> wake_list (pc p) = wake_list (pc (procs s i)) \<and>
      queued p = queued (procs s i) \<and> wait_ok p"
  shows "queue_inv NB s'"
  by (rule queue_inv_frame [OF assms(1,4)]) (use assms in auto)

lemma queue_inv_push:
  assumes q: "queue_inv NB s" and i: "i < NB" "pc (procs s i) = QueuePush m"
    and s': "lock_waiters s' = lock_waiters s @ [i]" "procs s' = (procs s)(i := p)"
    and p: "lwWaiting p = LW_WS_WAITING" "pc p = QueueUnlock m"
  shows "queue_inv NB s'"
proof -
  note D = queue_invD [OF q]
  have lw: "lwWaiting (procs s i) = LW_WS_NOT_WAITING" using D(1) [OF i(1)] i(2) by (simp add: wait_ok_def)
  then have "i \<notin> set (lock_waiters s)" by (simp add: D(4) queued_def)
  moreover have "to_wake s' j = to_wake s j" for j using s' p i by auto
  moreover have "pending s' k = pending s k" for k using s' p lw by auto
  ultimately show ?thesis
    using q s' p i unfolding queue_inv_def
    by (auto simp: queued_def wait_ok_def)
qed

lemma queue_inv_delete:
  assumes q: "queue_inv NB s" and i: "i < NB" "pc (procs s i) = DequeueDelete m"
    and s': "lock_waiters s' = (if x then remove1 i (lock_waiters s) else lock_waiters s)"
      "procs s' = (procs s)(i := (procs s i)\<lparr>pc := DequeueFlag m x\<rparr>)" "x = (lwWaiting (procs s i) = LW_WS_WAITING)"
  shows "queue_inv NB s'"
proof -
  note D = queue_invD [OF q]
  have "to_wake s' j = to_wake s j" "pending s' j = pending s j" for j using s' i by auto
  moreover have "set (lock_waiters s') = set (lock_waiters s) - {i}"
    using s' i D(3,4) by (auto simp: queued_def)
  ultimately show ?thesis
    using q s' i unfolding queue_inv_def
    by (auto simp: queued_def wait_ok_def)
qed

lemma queue_inv_left:
  assumes q: "queue_inv NB s" and i: "i < NB" "looked_up (pc (procs s i)) = Some True"
    and s': "lock_waiters s' = lock_waiters s" "procs s' = (procs s)(i := p)"
    and p: "lwWaiting p = LW_WS_NOT_WAITING" "pc p = Running"
  shows "queue_inv NB s'"
proof -
  note D = queue_invD [OF q]
  have lw: "lwWaiting (procs s i) = LW_WS_WAITING" using D(1) [OF i(1)] i(2) looked_up_wait by (auto simp: wait_ok_def)
  have "wake_list (pc (procs s i)) = []" using i(2) by (cases "pc (procs s i)") auto
  then have "to_wake s' j = to_wake s j" "pending s' j = pending s j" for j using s' p lw by auto
  moreover have "{j. j < NB \<and> queued (procs s' j)} = {j. j < NB \<and> queued (procs s j)}"
    using s' p i by (auto simp: queued_def)
  ultimately show ?thesis
    using q s' p unfolding queue_inv_def by (auto simp: wait_ok_def)
qed

lemma queue_inv_collect:
  assumes q: "queue_inv NB s" and h: "hdr_inv NB s" and i: "i < NB" "pc (procs s i) = WakeCollect x"
    and sc: "wakeup_scan f x True (lock_waiters s) = (wk, rest)"
    and s': "lock_waiters s' = rest" "procs s' = (\<lambda>j. if j = i then (procs s i)\<lparr>pc := WakeState wk\<rparr>
      else if j \<in> set wk then (procs s j)\<lparr>lwWaiting := LW_WS_PENDING_WAKEUP\<rparr> else procs s j)"
  shows "queue_inv NB s'"
proof -
  note D = queue_invD [OF q]
  have split: "set (lock_waiters s) = set wk \<union> set rest" "distinct wk" "distinct rest" "set wk \<inter> set rest = {}"
    using wakeup_scan_split [OF sc] D(3) by auto
  have wk: "j < NB" "queued (procs s j)" "j \<noteq> i"
    "\<not> (\<exists>m. pc (procs s j) = QueueUnlock m)" if "j \<in> set wk" for j
  proof -
    show j: "j < NB" and qd: "queued (procs s j)" using that split(1) D(4) by auto
    show "j \<noteq> i" using qd D(1) [OF i(1)] i(2) by (auto simp: queued_def wait_ok_def)
    then have "\<not> crit s j" using h i j by (auto simp: hdr_inv_def)
    then show "\<not> (\<exists>m. pc (procs s j) = QueueUnlock m)" by auto
  qed
  have lw: "lwWaiting (procs s' j) = (if j \<in> set wk then LW_WS_PENDING_WAKEUP else lwWaiting (procs s j))" for j
    using s'(2) wk(3) by auto
  have tw: "to_wake s' j = (if j = i then set wk else to_wake s j)" for j using s'(2) by auto
  have pc: "pc (procs s' j) = (if j = i then WakeState wk else pc (procs s j))" for j using s'(2) by auto
  have disj: "l \<notin> set wk" if "j < NB" "l \<in> to_wake s j" for j l
    using D(5) [OF that] wk(2) [of l] by (auto simp: queued_def)
  show ?thesis
  proof (rule queue_invI)
    fix j assume j: "j < NB"
    show "wait_ok (procs s' j)"
      using D(1) [OF j] wk [of j] i wait_states_wake(1) [of "pc (procs s j)"] unfolding wait_ok_def lw pc by (auto simp: queued_def)
    show "distinct (wake_list (pc (procs s' j)))" using D(2) [OF j] split(2) pc by auto
    show "k < NB \<and> pending s' k" if "k \<in> to_wake s' j" for k
      using that D(5) [OF j, of k] wk(1) lw tw by (auto split: if_splits)
    show "to_wake s' j \<inter> to_wake s' k = {}" if "k < NB" "j \<noteq> k" for k
      using that D(6) [OF j that] disj j unfolding tw by auto
  next
    show "distinct (lock_waiters s')" using split(3) s'(1) by simp
    show "set (lock_waiters s') = {j. j < NB \<and> queued (procs s' j)}"
    proof -
      have "queued (procs s' j) = (queued (procs s j) \<and> j \<notin> set wk)" for j
        unfolding queued_def lw pc using i D(1) [OF i(1)] by (auto simp: wait_ok_def)
      then show ?thesis using split D(4) s'(1) by auto
    qed
  next
    fix k assume k: "k < NB" "pending s' k"
    show "\<exists>j < NB. k \<in> to_wake s' j"
    proof (cases "k \<in> set wk")
      case True
      then show ?thesis using i(1) tw by (intro exI [of _ i]) simp
    next
      case False
      then obtain j where "j < NB" "k \<in> to_wake s j" using D(7) [OF k(1)] k(2) lw by auto
      then show ?thesis using i(2) tw by (intro exI [of _ j]) auto
    qed
  qed
qed

lemma queue_inv_next:
  assumes q: "queue_inv NB s" and i: "i < NB" "pc (procs s i) = WakeNext (k # ks)"
    and s': "lock_waiters s' = lock_waiters s"
      "procs s' = (procs s)(k := (procs s k)\<lparr>lwWaiting := LW_WS_NOT_WAITING\<rparr>, i := (procs s i)\<lparr>pc := WakeSem k ks\<rparr>)"
  shows "queue_inv NB s'"
proof -
  note D = queue_invD [OF q]
  have k: "k < NB" "pending s k" "k \<notin> set ks" using D(2,5) [OF i(1)] i(2) by auto
  have ki: "k \<noteq> i" using k(2) D(1) [OF i(1)] i(2) by (auto simp: wait_ok_def)
  have lw: "lwWaiting (procs s' j) = (if j = k then LW_WS_NOT_WAITING else lwWaiting (procs s j))" for j
    using s'(2) ki by auto
  have pc: "pc (procs s' j) = (if j = i then WakeSem k ks else pc (procs s j))" for j using s'(2) ki by auto
  have tw: "to_wake s' j = to_wake s j - {k}" if "j < NB" for j
    using D(6) [OF i(1) that] i k(3) that unfolding pc by auto
  show ?thesis
  proof (rule queue_invI)
    fix j assume j: "j < NB"
    show "wait_ok (procs s' j)" using D(1) [OF j] k(2) i ki wait_states_wake(2) [of "pc (procs s j)"] unfolding wait_ok_def lw pc by auto
    show "distinct (wake_list (pc (procs s' j)))" using D(2) [OF j] D(2) [OF i(1)] i pc by auto
    show "l < NB \<and> pending s' l" if "l \<in> to_wake s' j" for l using that D(5) [OF j, of l] lw tw [OF j] by auto
    show "to_wake s' j \<inter> to_wake s' l = {}" if "l < NB" "j \<noteq> l" for l
      using D(6) [OF j that] tw [OF j] tw [OF that(1)] by auto
  next
    have "queued (procs s' j) = queued (procs s j)" for j
      unfolding queued_def lw pc using k(2) i D(1) [OF i(1)] by (auto simp: wait_ok_def)
    then show "distinct (lock_waiters s')" "set (lock_waiters s') = {j. j < NB \<and> queued (procs s' j)}"
      using D(3,4) s'(1) by simp_all
  next
    fix l assume "l < NB" "pending s' l"
    then have "l \<noteq> k" "pending s l" using lw by (auto split: if_splits)
    then obtain j where "j < NB" "l \<in> to_wake s j" using D(7) [OF \<open>l < NB\<close>] by blast
    with \<open>l \<noteq> k\<close> show "\<exists>j < NB. l \<in> to_wake s' j" using tw by (intro exI [of _ j]) auto
  qed
qed

lemma queue_inv_step:
  assumes "lock_step NB s s'" and h: "hdr_inv NB s" and q: "queue_inv NB s"
  shows "queue_inv NB s'"
proof -
  note ok = queue_invD(1) [OF q]
  from assms(1) show ?thesis
  proof cases
    case (queue_push i m)
    show ?thesis by (rule queue_inv_push [OF q queue_push(2,3)]) (use queue_push in auto)
  next
    case (dequeue_delete i m x)
    show ?thesis by (rule queue_inv_delete [OF q dequeue_delete(2,3)]) (use dequeue_delete in simp_all)
  next
    case (dequeue_on i m)
    show ?thesis by (rule queue_inv_left [OF q dequeue_on(2)]) (use dequeue_on in \<open>auto simp: acquired_def\<close>)
  next
    case (wake_collect i x wk rest)
    have "\<not> queued (procs s i)" using ok [OF wake_collect(2)] wake_collect(3) by (simp add: queued_def wait_ok_def)
    then have "i \<notin> set (lock_waiters s)" unfolding queue_invD(4) [OF q] by simp
    then have "i \<notin> set wk" using wakeup_scan_split [OF wake_collect(4)] by blast
    then have "procs s' = (\<lambda>j. if j = i then (procs s i)\<lparr>pc := WakeState wk\<rparr>
        else if j \<in> set wk then (procs s j)\<lparr>lwWaiting := LW_WS_PENDING_WAKEUP\<rparr> else procs s j)"
      by (simp add: wake_collect(1) fun_eq_iff)
    moreover have "lock_waiters s' = rest" by (simp add: wake_collect(1))
    ultimately show ?thesis by (intro queue_inv_collect [OF q h wake_collect(2,3,4)])
  next
    case (wake_next i k ks)
    have "k \<noteq> i"
      using queue_invD(5) [OF q wake_next(2), of k] ok [OF wake_next(2)] wake_next(3) by (auto simp: wait_ok_def)
    then show ?thesis by (intro queue_inv_next [OF q wake_next(2,3)]) (use wake_next in auto)
  next
    case (wake_sem i k ks)
    show ?thesis
      by (rule queue_inv_frame [OF q]) (use wake_sem in \<open>auto simp: queued_def wait_ok_def\<close>)
  next
    case (other_signal k)
    show ?thesis by (rule queue_inv_frame [OF q]) (use other_signal in \<open>auto simp: queued_def wait_ok_def\<close>)
  next
    case (other_bits w)
    show ?thesis by (rule queue_inv_frame [OF q]) (use other_bits in auto)
  next
    case other_lock
    show ?thesis by (rule queue_inv_frame [OF q]) (use other_lock in auto)
  next
    case other_unlock
    show ?thesis by (rule queue_inv_frame [OF q]) (use other_unlock in auto)
  next
    case (attempt1 i m free w)
    show ?thesis
      by (rule queue_inv_frame1 [OF q attempt1(2), where p = "if free then acquired m 0 (procs s i) else (procs s i)\<lparr>pc := QueueLock m\<rparr>"])
        (use attempt1 in \<open>simp_all add: queued_def wait_ok_def acquired_def\<close>)
  next
    case (release i m sub)
    show ?thesis
      by (rule queue_inv_frame1 [OF q release(2)], simp add: release(1), simp add: release(1))
        (use release in \<open>simp add: queued_def wait_ok_def split: option.split\<close>)
  next
    case (dequeue_flag i m x)
    show ?thesis
      by (rule queue_inv_frame1 [OF q dequeue_flag(2), where p = "(procs s i)\<lparr>pc := DequeueUnlock m x\<rparr>"])
        (use dequeue_flag in \<open>simp_all add: queued_def wait_ok_def\<close>)
  qed (rule queue_inv_frame1 [OF q], assumption, simp, simp, simp add: queued_def wait_ok_def acquired_def)+
qed

section \<open>No wakeup is lost\<close>

text \<open>A nonempty list shows in the word, and so it does before the first backend is put on it.\<close>

definition flag_inv :: "nat \<Rightarrow> lock_sys \<Rightarrow> bool" where
  "flag_inv NB s \<longleftrightarrow>
     (lock_waiters s \<noteq> [] \<longrightarrow> bit (word s) 32) \<and> (\<forall>i < NB. \<forall>m. pc (procs s i) = QueuePush m \<longrightarrow> bit (word s) 32)"

lemma flag_inv_keep:
  assumes "flag_inv NB s" "bit (word s) 32 \<longrightarrow> bit (word s') 32" "lock_waiters s = [] \<longrightarrow> lock_waiters s' = []"
    "\<forall>i < NB. \<forall>m. pc (procs s' i) = QueuePush m \<longrightarrow> pc (procs s i) = QueuePush m"
  shows "flag_inv NB s'"
  using assms by (auto simp: flag_inv_def)

lemma wakeup_scan_Nil: "wakeup_scan f a b ws = (wk, rest) \<Longrightarrow> ws = [] \<Longrightarrow> rest = []"
  by simp

lemma minus_BM_LOCKED_bits: "bit s 22 \<Longrightarrow> k \<noteq> 22 \<Longrightarrow> bit (s - BM_LOCKED) k = bit s k"
  by (auto simp: minus_BM_LOCKED bit_simps flag_bits dest: bit_uint64)

lemma crit_unique: "hdr_inv NB s \<Longrightarrow> i < NB \<Longrightarrow> crit s i \<Longrightarrow> j < NB \<Longrightarrow> crit s j \<Longrightarrow> i = j"
  by (auto simp: hdr_inv_def)

lemma flag_inv_step:
  assumes "lock_step NB s s'" and h: "hdr_inv NB s" and f: "flag_inv NB s"
  shows "flag_inv NB s'"
  using assms(1)
proof cases
  case (queue_flag i m)
  then show ?thesis using f by (auto simp: flag_inv_def bit_simps flag_bits)
next
  case (queue_push i m)
  then show ?thesis using f by (auto simp: flag_inv_def)
next
  case (queue_unlock i m)
  then show ?thesis using hdr_inv_bit [OF h queue_unlock(2)]
    by (intro flag_inv_keep [OF f]) (auto simp: minus_BM_LOCKED_bits)
next
  case (dequeue_unlock i m x)
  then show ?thesis using hdr_inv_bit [OF h dequeue_unlock(2)]
    by (intro flag_inv_keep [OF f]) (auto simp: minus_BM_LOCKED_bits)
next
  case (dequeue_flag i m x)
  have "pc (procs s j) \<noteq> QueuePush n" if "j < NB" for j n
    using crit_unique [OF h dequeue_flag(2) _ that] dequeue_flag(3) by auto
  then show ?thesis using f dequeue_flag by (auto simp: flag_inv_def)
next
  case (wake_state i wk)
  have "pc (procs s j) \<noteq> QueuePush n" if "j < NB" for j n
    using crit_unique [OF h wake_state(2) _ that] wake_state(3) by auto
  then show ?thesis using f wake_state by (auto simp: flag_inv_def wakeup_word_fields)
next
  case (attempt1 i m free w)
  then show ?thesis by (intro flag_inv_keep [OF f]) (auto simp: lock_desired_low)
next
  case (attempt2 i m free w)
  then show ?thesis by (intro flag_inv_keep [OF f]) (auto simp: lock_desired_low)
next
  case (conditional i m w)
  then show ?thesis by (intro flag_inv_keep [OF f]) (auto simp: lock_desired_low)
next
  case (release i m sub)
  then show ?thesis by (intro flag_inv_keep [OF f]) (auto simp: release_low split: option.splits if_splits)
next
  case (dequeue_delete i m x)
  then show ?thesis by (intro flag_inv_keep [OF f]) auto
qed (rule flag_inv_keep [OF f]; force simp: bit_simps flag_bits acquired_def split: if_splits)+

text \<open>A backend off the list has been signalled, or the backend that took it off is about to.\<close>

definition off_list :: "proc \<Rightarrow> bool" where
  "off_list p \<longleftrightarrow> lwWaiting p = LW_WS_NOT_WAITING \<and> LW_WS_PENDING_WAKEUP \<in> wait_states (pc p)"

definition signalled :: "nat \<Rightarrow> lock_sys \<Rightarrow> nat \<Rightarrow> bool" where
  "signalled NB s k \<longleftrightarrow> 0 < sem (procs s k) \<or> (\<exists>i < NB. \<exists>ks. pc (procs s i) = WakeSem k ks)"

definition sem_inv :: "nat \<Rightarrow> lock_sys \<Rightarrow> bool" where
  "sem_inv NB s \<longleftrightarrow> (\<forall>k < NB. off_list (procs s k) \<longrightarrow> signalled NB s k)"

text \<open>
  A backend that was taken off the list and has not yet cleared the flag that stands for the
  wakeup in progress.
\<close>

definition recalled :: "proc \<Rightarrow> bool" where
  "recalled p \<longleftrightarrow> (\<exists>m. pc p = Retry m) \<or>
     (\<forall>m k. pc p \<noteq> DequeueSleep m k) \<and> LW_WS_PENDING_WAKEUP \<in> wait_states (pc p) \<and> lwWaiting p \<noteq> LW_WS_WAITING"

fun parked :: "pc \<Rightarrow> bool" where
  "parked (Attempt2 m) \<longleftrightarrow> True"
| "parked (Sleep m) \<longleftrightarrow> True"
| "parked (DequeueLock m) \<longleftrightarrow> True"
| "parked _ \<longleftrightarrow> False"

definition wake_inv :: "nat \<Rightarrow> lock_sys \<Rightarrow> bool" where
  "wake_inv NB s \<longleftrightarrow>
     (bit (word s) 33 \<longrightarrow> (\<exists>i < NB. recalled (procs s i))) \<and>
     (\<forall>i < NB. \<forall>wk. pc (procs s i) = WakeState wk \<longrightarrow> (\<forall>k \<in> set wk. parked (pc (procs s k))))"

text \<open>
  A backend that will try the lock again, or that will look through the list for any waiter.
\<close>

fun trying :: "pc \<Rightarrow> bool" where
  "trying (Attempt1 m) \<longleftrightarrow> True"
| "trying (QueueLock m) \<longleftrightarrow> True"
| "trying (QueueFlag m) \<longleftrightarrow> True"
| "trying (QueuePush m) \<longleftrightarrow> True"
| "trying (QueueUnlock m) \<longleftrightarrow> True"
| "trying (Attempt2 m) \<longleftrightarrow> True"
| "trying (Retry m) \<longleftrightarrow> True"
| "trying (WakeLock x) \<longleftrightarrow> x"
| "trying (WakeCollect x) \<longleftrightarrow> x"
| "trying _ \<longleftrightarrow> False"

definition active :: "proc \<Rightarrow> bool" where
  "active p \<longleftrightarrow> trying (pc p) \<or> (\<exists>m. pc p = Sleep m) \<and> lwWaiting p \<noteq> LW_WS_WAITING"

definition progress_inv :: "nat \<Rightarrow> lock_sys \<Rightarrow> bool" where
  "progress_inv NB s \<longleftrightarrow>
     (lock_waiters s \<noteq> [] \<longrightarrow> lockn (word s) = 0 \<longrightarrow> (\<exists>i < NB. active (procs s i)))"

lemma sem_inv_frame1:
  assumes v: "sem_inv NB s" and q: "queue_inv NB s" and i: "i < NB" and s': "procs s' = (procs s)(i := p)"
    and p: "wait_ok (procs s i) \<Longrightarrow> (\<forall>k ks. pc (procs s i) \<noteq> WakeSem k ks) \<and>
      (off_list p \<longrightarrow> off_list (procs s i) \<and> sem (procs s i) \<le> sem p)"
  shows "sem_inv NB s'"
proof -
  note p = p [OF queue_invD(1) [OF q i]]
  have "signalled NB s' k" if "k < NB" "off_list (procs s' k)" for k
  proof -
    have "signalled NB s k" using that v p s' by (auto simp: sem_inv_def split: if_splits)
    then show ?thesis
    proof (cases "0 < sem (procs s k)")
      case True
      then show ?thesis using that p s' by (auto simp: signalled_def)
    next
      case False
      then obtain j ks where "j < NB" "pc (procs s j) = WakeSem k ks"
        using \<open>signalled NB s k\<close> by (auto simp: signalled_def)
      then show ?thesis using p s' unfolding signalled_def by (intro disjI2 exI [of _ j]) auto
    qed
  qed
  then show ?thesis by (simp add: sem_inv_def)
qed

lemma sem_inv_frame:
  assumes v: "sem_inv NB s" and f: "\<And>j k ks. j < NB \<Longrightarrow> pc (procs s j) = WakeSem k ks \<Longrightarrow> pc (procs s' j) = WakeSem k ks"
    "\<And>j. j < NB \<Longrightarrow> off_list (procs s' j) \<Longrightarrow> off_list (procs s j) \<and> sem (procs s j) \<le> sem (procs s' j)"
  shows "sem_inv NB s'"
proof -
  have "signalled NB s' k" if k: "k < NB" "off_list (procs s' k)" for k
    using f(2) [OF k] f(1) v k(1) unfolding sem_inv_def signalled_def by (meson less_le_trans)
  then show ?thesis by (simp add: sem_inv_def)
qed

lemma sem_inv_step:
  assumes "lock_step NB s s'" and q: "queue_inv NB s" and v: "sem_inv NB s"
  shows "sem_inv NB s'"
  using assms(1)
proof cases
  case (wake_sem i k ks)
  have i: "pc (procs s' i) = WakeNext ks" "0 < sem (procs s' k)" using wake_sem(1) by auto
  have j: "pc (procs s' j) = pc (procs s j)" if "j \<noteq> i" for j using wake_sem(1) that by auto
  have "signalled NB s' l" if l: "l < NB" "off_list (procs s' l)" for l
  proof (cases "l = k")
    case False
    have "l \<noteq> i" using l(2) i(1) by (auto simp: off_list_def)
    then have "procs s' l = procs s l" using False wake_sem(1) by simp
    then have "signalled NB s l" using l v by (simp add: sem_inv_def)
    then consider "0 < sem (procs s l)" | j ks' where "j < NB" "pc (procs s j) = WakeSem l ks'"
      by (auto simp: signalled_def)
    then show ?thesis
    proof cases
      case 2
      then have "j \<noteq> i" using wake_sem(3) False by auto
      with 2 j show ?thesis unfolding signalled_def by metis
    qed (simp add: signalled_def \<open>procs s' l = procs s l\<close>)
  qed (use i in \<open>simp add: signalled_def\<close>)
  then show ?thesis by (simp add: sem_inv_def)
next
  case (wake_next i k ks)
  have i: "pc (procs s' i) = WakeSem k ks" using wake_next(1) by simp
  have "signalled NB s' l" if l: "l < NB" "off_list (procs s' l)" for l
  proof (cases "l = k")
    case True
    then show ?thesis using i wake_next(2) by (auto simp: signalled_def)
  next
    case False
    have "l \<noteq> i" using l(2) i by (auto simp: off_list_def)
    then have "procs s' l = procs s l" using False wake_next(1) by simp
    then have "signalled NB s l" using l v by (simp add: sem_inv_def)
    then consider "0 < sem (procs s l)" | j ks' where "j < NB" "pc (procs s j) = WakeSem l ks'"
      by (auto simp: signalled_def)
    then show ?thesis
    proof cases
      case 2
      then have "j \<noteq> i" using wake_next(3) by auto
      then have "pc (procs s' j) = pc (procs s j)" using wake_next(1) by simp
      with 2 show ?thesis unfolding signalled_def by metis
    qed (simp add: signalled_def \<open>procs s' l = procs s l\<close>)
  qed
  then show ?thesis by (simp add: sem_inv_def)
next
  case (wake_collect i x wk rest)
  show ?thesis
    by (rule sem_inv_frame [OF v]) (use wake_collect in \<open>auto simp: off_list_def split: if_splits\<close>)
next
  case (other_signal k)
  show ?thesis by (rule sem_inv_frame [OF v]) (use other_signal in \<open>auto simp: off_list_def\<close>)
next
  case (other_bits w)
  then show ?thesis by (intro sem_inv_frame [OF v]) auto
next
  case other_lock
  then show ?thesis by (intro sem_inv_frame [OF v]) auto
next
  case other_unlock
  then show ?thesis by (intro sem_inv_frame [OF v]) auto
next
  case (attempt1 i m free w)
  show ?thesis
    by (rule sem_inv_frame1 [OF v q attempt1(2), where p = "if free then acquired m 0 (procs s i) else (procs s i)\<lparr>pc := QueueLock m\<rparr>"])
      (use attempt1 in \<open>simp_all add: off_list_def acquired_def\<close>)
next
  case (release i m sub)
  show ?thesis
    by (rule sem_inv_frame1 [OF v q release(2)], simp add: release(1))
      (use release in \<open>simp add: off_list_def split: option.split\<close>)
next
  case (dequeue_flag i m x)
  show ?thesis
    by (rule sem_inv_frame1 [OF v q dequeue_flag(2), where p = "(procs s i)\<lparr>pc := DequeueUnlock m x\<rparr>"])
      (use dequeue_flag in \<open>simp_all add: off_list_def\<close>)
next
  case (dequeue_delete i m x)
  show ?thesis
    by (rule sem_inv_frame1 [OF v q dequeue_delete(2), where p = "(procs s i)\<lparr>pc := DequeueFlag m x\<rparr>"])
      (use dequeue_delete in \<open>simp_all add: off_list_def\<close>)
qed (rule sem_inv_frame1 [OF v q], assumption, simp, simp add: off_list_def wait_ok_def acquired_def)+

lemma recalled_keep:
  assumes "recalled p" "pc q = pc p" "lwWaiting p \<noteq> LW_WS_WAITING \<longrightarrow> lwWaiting q \<noteq> LW_WS_WAITING"
  shows "recalled q"
  using assms by (auto simp: recalled_def)

lemma recalled_mover:
  assumes "procs s' = (procs s)(i := p)" "recalled (procs s j)" "recalled (procs s i) \<Longrightarrow> recalled p \<or> \<not> bit (word s') 33"
  shows "recalled (procs s' j) \<or> \<not> bit (word s') 33"
  using assms by auto

lemma recalled_step:
  assumes "lock_step NB s s'" "recalled (procs s j)" and q: "queue_inv NB s"
  shows "recalled (procs s' j) \<or> \<not> bit (word s') 33"
proof -
  note ok = queue_invD(1) [OF q]
  from assms(1) show ?thesis
  proof cases
    case (wake_collect i x wk rest)
    then show ?thesis using assms(2) ok [OF wake_collect(2)]
      by (cases "j = i") (auto simp: recalled_def)
  next
    case (wake_next i k ks)
    then show ?thesis using assms(2)
      by (cases "j = i"; cases "j = k") (auto simp: recalled_def)
  next
    case (wake_sem i k ks)
    then show ?thesis using assms(2)
      by (cases "j = i"; cases "j = k") (auto simp: recalled_def)
  next
    case (dequeue_delete i m x)
    show ?thesis
      by (rule recalled_mover [OF _ assms(2), where p = "(procs s i)\<lparr>pc := DequeueFlag m x\<rparr>" and i = i])
        (use dequeue_delete in \<open>auto simp: recalled_def\<close>)
  next
    case (dequeue_flag i m x)
    show ?thesis
      by (rule recalled_mover [OF _ assms(2), where p = "(procs s i)\<lparr>pc := DequeueUnlock m x\<rparr>" and i = i])
        (use dequeue_flag in \<open>auto simp: recalled_def split: if_splits\<close>)
  next
    case (attempt1 i m free w)
    show ?thesis
      by (rule recalled_mover [OF _ assms(2), where i = i and
            p = "if free then acquired m 0 (procs s i) else (procs s i)\<lparr>pc := QueueLock m\<rparr>"])
        (use attempt1 in \<open>auto simp: recalled_def\<close>)
  next
    case (dequeue_on i m)
    show ?thesis
      by (rule recalled_mover [OF _ assms(2), where i = i], simp add: dequeue_on(1))
        (use dequeue_on ok [OF dequeue_on(2)] in \<open>auto simp: recalled_def wait_ok_def\<close>)
  next
    case (dequeue_off i m)
    then show ?thesis by (simp add: bit_simps flag_bits)
  next
    case (retry i m)
    then show ?thesis by (simp add: bit_simps flag_bits)
  next
    case (other_signal k)
    then show ?thesis using assms(2) by (cases "j = k") (auto simp: recalled_def)
  next
    case (other_bits w)
    then show ?thesis using assms(2) by simp
  next
    case other_lock
    then show ?thesis using assms(2) by simp
  next
    case other_unlock
    then show ?thesis using assms(2) by simp
  qed (rule recalled_mover [OF _ assms(2)], simp, simp add: recalled_def wait_ok_def split: if_split)+
qed

lemma wake_bit_step:
  assumes "lock_step NB s s'" and h: "hdr_inv NB s" and b: "bit (word s') 33"
  shows "bit (word s) 33 \<or> (\<exists>i < NB. \<exists>wk. pc (procs s i) = WakeState wk \<and> wk \<noteq> [])"
  using assms(1)
proof cases
  case (queue_unlock i m)
  then show ?thesis using b hdr_inv_bit [OF h queue_unlock(2)] by (simp add: minus_BM_LOCKED_bits)
next
  case (dequeue_unlock i m x)
  then show ?thesis using b hdr_inv_bit [OF h dequeue_unlock(2)] by (simp add: minus_BM_LOCKED_bits)
next
  case (attempt1 i m free w)
  then show ?thesis using b lock_desired_low [OF attempt1(4), of 33] by (simp split: if_splits)
next
  case (attempt2 i m free w)
  then show ?thesis using b lock_desired_low [OF attempt2(4), of 33] by simp
next
  case (conditional i m w)
  then show ?thesis using b lock_desired_low [OF conditional(6), of 33] by simp
next
  case (release i m sub)
  then show ?thesis using b release_low [OF release(5), of 33] by simp
next
  case (wake_state i wk)
  then show ?thesis using b by (auto simp: wakeup_word_fields)
next
  case (dequeue_flag i m x)
  then show ?thesis using b by (simp add: bit_simps flag_bits split: if_splits)
next
  case (dequeue_delete i m x)
  then show ?thesis using b by (simp split: if_splits)
qed (use b in \<open>simp add: bit_simps flag_bits\<close>)+

lemma parked_step:
  assumes "lock_step NB s s'" "parked (pc (procs s k))" "pending s k" "bit (word s) 22"
  shows "parked (pc (procs s' k))"
  using assms(1)
proof cases
  case (wake_next i l ks)
  then show ?thesis using assms(2) by (cases "k = i"; cases "k = l") auto
next
  case (wake_sem i l ks)
  then show ?thesis using assms(2) by (cases "k = i"; cases "k = l") auto
next
  case (wake_collect i x wk rest)
  then show ?thesis using assms(2) by (cases "k = i") auto
next
  case (other_signal l)
  then show ?thesis using assms(2) by (cases "k = l") auto
next
  case (attempt1 i m free w)
  then show ?thesis using assms(2) by (cases "k = i"; cases free) auto
next
  case (dequeue_delete i m x)
  then show ?thesis using assms(2) by (cases "k = i") auto
next
  case (dequeue_flag i m x)
  then show ?thesis using assms(2) by (cases "k = i") auto
qed (use assms(2-4) in \<open>auto split: if_splits\<close>)

lemma parked_recalled: "parked (pc p) \<Longrightarrow> lwWaiting p = LW_WS_PENDING_WAKEUP \<Longrightarrow> recalled p"
  by (cases "pc p") (auto simp: recalled_def)

lemma queued_parked:
  assumes "wait_ok p" "queued p" "\<not> in_crit (pc p)"
  shows "parked (pc p)"
  using assms by (cases "pc p") (auto simp: wait_ok_def queued_def)

lemma WakeState_step:
  assumes "lock_step NB s s'" "pc (procs s' i) = WakeState wk" "pc (procs s i) \<noteq> WakeState wk"
  shows "\<exists>x. pc (procs s i) = WakeCollect x \<and> set wk \<subseteq> set (lock_waiters s) \<and>
    (\<forall>j. j \<noteq> i \<longrightarrow> pc (procs s' j) = pc (procs s j))"
  using assms(1)
proof cases
  case (wake_collect l x ks rest)
  then show ?thesis using assms(2,3) wakeup_scan_split [OF wake_collect(4)]
    by (cases "i = l") (auto split: if_splits)
next
  case (release l m sub)
  then show ?thesis using assms(2,3) by (cases "i = l") (auto split: option.splits)
next
  case (wake_next l k ks)
  then show ?thesis using assms(2,3) by (cases "i = l"; cases "i = k") auto
next
  case (wake_sem l k ks)
  then show ?thesis using assms(2,3) by (cases "i = l"; cases "i = k") auto
qed (use assms(2,3) in \<open>auto split: if_splits\<close>)

lemma wake_inv_step:
  assumes st: "lock_step NB s s'" and h: "hdr_inv NB s" and q: "queue_inv NB s" and v: "wake_inv NB s"
  shows "wake_inv NB s'"
proof -
  have "\<exists>i < NB. recalled (procs s' i)" if b: "bit (word s') 33"
  proof -
    have "\<exists>j < NB. recalled (procs s j)"
    proof (cases "bit (word s) 33")
      case False
      then obtain i wk where i: "i < NB" "pc (procs s i) = WakeState wk" "wk \<noteq> []"
        using wake_bit_step [OF st h b] by blast
      then obtain k where k: "k \<in> set wk" by (cases wk) auto
      then have "k < NB \<and> pending s k" "parked (pc (procs s k))"
        using queue_invD(5) [OF q i(1), of k] i v by (auto simp: wake_inv_def)
      then show ?thesis using parked_recalled by blast
    qed (use v in \<open>simp add: wake_inv_def\<close>)
    then show ?thesis using recalled_step [OF st _ q] b by blast
  qed
  moreover have "parked (pc (procs s' k))" if i: "i < NB" "pc (procs s' i) = WakeState wk" and k: "k \<in> set wk" for i k wk
  proof (cases "pc (procs s i) = WakeState wk")
    case True
    then show ?thesis
      using parked_step [OF st, of k] v i(1) k queue_invD(5) [OF q i(1), of k] hdr_inv_bit [OF h i(1)]
      by (auto simp: wake_inv_def)
  next
    case False
    obtain x where x: "pc (procs s i) = WakeCollect x" "k \<in> set (lock_waiters s)"
      "\<And>j. j \<noteq> i \<Longrightarrow> pc (procs s' j) = pc (procs s j)"
      using WakeState_step [OF st i(2) False] k by blast
    then have "k < NB" "queued (procs s k)" using queue_invD(4) [OF q] by auto
    moreover have "k \<noteq> i" using x(1) calculation queue_invD(1) [OF q i(1)] by (auto simp: queued_def wait_ok_def)
    moreover have "\<not> in_crit (pc (procs s k))"
      using crit_unique [OF h i(1) _ calculation(1)] x(1) calculation(3) by auto
    ultimately show ?thesis using queued_parked [OF queue_invD(1) [OF q]] x(3) by simp
  qed
  ultimately show ?thesis by (auto simp: wake_inv_def)
qed

lemma progress_inv_frame:
  assumes "progress_inv NB s" "lock_waiters s = [] \<Longrightarrow> lock_waiters s' = []" "lockn (word s) = lockn (word s')"
    "\<And>j. j < NB \<Longrightarrow> active (procs s j) \<Longrightarrow> active (procs s' j)"
  shows "progress_inv NB s'"
  using assms unfolding progress_inv_def by metis

lemma progress_inv_frame1:
  assumes "progress_inv NB s" "lock_waiters s = [] \<Longrightarrow> lock_waiters s' = []" "lockn (word s) = lockn (word s')"
    "procs s' = (procs s)(i := p)" "active (procs s i) \<Longrightarrow> active p"
  shows "progress_inv NB s'"
  using assms by (intro progress_inv_frame [OF assms(1)]) auto

lemma recalled_active:
  "recalled p \<Longrightarrow> pc_ok p \<Longrightarrow> holding p = BUFFER_LOCK_UNLOCK \<Longrightarrow> active p"
  by (cases "pc p") (auto simp: recalled_def active_def holding_def pc_ok_def)

lemma lock_desired_taken:
  assumes "lock_desired m s = (free, w)" "lockn s < 2 ^ 20" "m \<noteq> BUFFER_LOCK_UNLOCK"
  shows "lockn w \<noteq> 0"
  using lock_desired_bits(1,2) [OF assms] assms(3) by (cases m) (auto split: if_splits)

text \<open>The last holder to leave starts a wakeup, or one it did not start is still under way.\<close>

lemma progress_inv_release:
  assumes st: "procs s' = (procs s)(i := p)" "word s' = word s - sub" "lock_waiters s' = lock_waiters s"
    and i: "i < NB" "pc (procs s i) = Running" "BufferLockReleaseSub (held (procs s i)) = Some sub"
      "pc p = (case BufferLockProcessRelease (held (procs s i)) (word s') of None \<Rightarrow> Running | Some x \<Rightarrow> WakeLock x)"
    and inv': "lock_inv NB s'" and NB: "NB < 2 ^ 18" and f: "flag_inv NB s" and v: "wake_inv NB s"
  shows "progress_inv NB s'"
  unfolding progress_inv_def
proof (intro impI)
  assume w: "lock_waiters s' \<noteq> []" and z: "lockn (word s') = 0"
  have b: "bit (word s') 32" "bit (word s') 33 = bit (word s) 33"
    using f w st(2,3) release_low [OF i(3)] by (auto simp: flag_inv_def)
  have none: "holding (procs s' j) = BUFFER_LOCK_UNLOCK" if "j < NB" for j
    using lock_inv_bounds(3) [OF inv' NB] z that by blast
  show "\<exists>j < NB. active (procs s' j)"
  proof (cases "bit (word s) 33")
    case True
    then obtain j where j: "j < NB" "recalled (procs s j)" using v by (auto simp: wake_inv_def)
    then have "j \<noteq> i" using i(2) by (auto simp: recalled_def)
    then have "recalled (procs s' j)" using j(2) st(1) by simp
    then show ?thesis using recalled_active lock_inv_pc_ok [OF inv'] none j(1) by blast
  next
    case False
    have "word s' AND BM_LOCK_MASK = 0" using lock_inv_bounds(1) [OF inv' NB] z by (simp add: lock_tests)
    then have "pc p = WakeLock True"
      using i(4) b False by (simp add: BufferLockProcessRelease_def flag_tests)
    then show ?thesis using i(1) st(1) by (intro exI [of _ i]) (simp add: active_def)
  qed
qed

text \<open>Looking for any waiter, a wakeup takes the first one off the list.\<close>

lemma progress_inv_collect:
  assumes inv': "lock_inv NB s'" and NB: "NB < 2 ^ 18" and h: "hdr_inv NB s" and q: "queue_inv NB s"
    and i: "i < NB" "pc (procs s i) = WakeCollect True"
    and w: "wakeup_scan f True True (k # ks) = (wk, rest)" "lock_waiters s = k # ks"
    and s': "\<And>j. j \<noteq> i \<Longrightarrow> procs s' j = (if j \<in> set wk then (procs s j)\<lparr>lwWaiting := LW_WS_PENDING_WAKEUP\<rparr> else procs s j)"
  shows "progress_inv NB s'"
  unfolding progress_inv_def
proof (intro impI)
  assume z: "lockn (word s') = 0"
  have k: "k < NB" "queued (procs s k)" using queue_invD(4) [OF q] w(2) by auto
  moreover have "k \<noteq> i" using i(2) k(2) queue_invD(1) [OF q i(1)] by (auto simp: queued_def wait_ok_def)
  moreover have "\<not> in_crit (pc (procs s k))"
    using crit_unique [OF h i(1) _ k(1)] i(2) calculation(3) by auto
  ultimately have "parked (pc (procs s' k))" "lwWaiting (procs s' k) = LW_WS_PENDING_WAKEUP"
    using queued_parked [OF queue_invD(1) [OF q]] s' wakeup_scan_first [OF w(1)] by auto
  then have "active (procs s' k)"
    using parked_recalled recalled_active lock_inv_pc_ok [OF inv' k(1)] lock_inv_bounds(3) [OF inv' NB] z k(1) by blast
  then show "\<exists>j < NB. active (procs s' j)" using k(1) by blast
qed

lemma progress_inv_step:
  assumes st: "lock_step NB s s'" and h: "hdr_inv NB s" and inv: "lock_inv NB s" and NB: "NB < 2 ^ 18"
    and q: "queue_inv NB s" and f: "flag_inv NB s" and v: "wake_inv NB s" and g: "progress_inv NB s"
  shows "progress_inv NB s'"
proof -
  note b = lock_inv_bounds(1) [OF inv NB]
  note inv' = lock_inv_step [OF st h inv NB]
  note u = lock_inv_pc_ok [OF inv, unfolded pc_ok_def]
  from st show ?thesis
  proof cases
    case (attempt1 i m free w)
    then have "lockn (word s') \<noteq> 0" using lock_desired_taken [OF attempt1(4) b] u [OF attempt1(2)] by auto
    then show ?thesis by (simp add: progress_inv_def)
  next
    case (attempt2 i m free w)
    then have "lockn (word s') \<noteq> 0" using lock_desired_taken [OF attempt2(4) b] u [OF attempt2(2)] by auto
    then show ?thesis by (simp add: progress_inv_def)
  next
    case (conditional i m w)
    then have "lockn (word s') \<noteq> 0" using lock_desired_taken [OF conditional(6) b] by auto
    then show ?thesis by (simp add: progress_inv_def)
  next
    case (release i m sub)
    show ?thesis
      by (rule progress_inv_release [OF _ _ _ release(2,3) _ _ inv' NB f v]) (use release in auto)
  next
    case (queue_push i m)
    then show ?thesis unfolding progress_inv_def by (intro impI exI [of _ i]) (simp add: active_def)
  next
    case (queue_unlock i m)
    then show ?thesis using hdr_inv_bit [OF h queue_unlock(2)]
      by (intro progress_inv_frame1 [OF g, where i = i]) (auto simp: minus_BM_LOCKED active_def)
  next
    case (dequeue_unlock i m x)
    then show ?thesis using hdr_inv_bit [OF h dequeue_unlock(2)]
      by (intro progress_inv_frame1 [OF g, where i = i]) (auto simp: minus_BM_LOCKED active_def)
  next
    case (wake_collect i x wk rest)
    show ?thesis
    proof (cases "lock_waiters s")
      case Nil
      then show ?thesis using wake_collect by (simp add: progress_inv_def)
    next
      case (Cons k ks)
      then show ?thesis
      proof (cases x)
        case True
        then show ?thesis using progress_inv_collect [OF inv' NB h q wake_collect(2)] wake_collect Cons by auto
      next
        case False
        then show ?thesis using wake_collect Cons by (intro progress_inv_frame [OF g]) (auto simp: active_def)
      qed
    qed
  next
    case (wake_next i k ks)
    then show ?thesis by (intro progress_inv_frame [OF g]) (auto simp: active_def)
  next
    case (wake_sem i k ks)
    then show ?thesis by (intro progress_inv_frame [OF g]) (auto simp: active_def)
  next
    case (other_signal k)
    then show ?thesis by (intro progress_inv_frame [OF g]) (auto simp: active_def)
  next
    case (other_bits w)
    then show ?thesis using lockn_cong [of "word s" w] by (intro progress_inv_frame [OF g]) auto
  next
    case other_lock
    then show ?thesis by (intro progress_inv_frame [OF g]) auto
  next
    case other_unlock
    then show ?thesis by (intro progress_inv_frame [OF g]) auto
  next
    case (dequeue_delete i m x)
    then show ?thesis by (intro progress_inv_frame1 [OF g, where i = i and p = "(procs s i)\<lparr>pc := DequeueFlag m x\<rparr>"])
      (auto simp: active_def)
  next
    case (dequeue_flag i m x)
    then show ?thesis by (intro progress_inv_frame1 [OF g, where i = i and p = "(procs s i)\<lparr>pc := DequeueUnlock m x\<rparr>"])
      (auto simp: active_def)
  qed (rule progress_inv_frame1 [OF g], simp, simp add: wakeup_word_fields, simp, simp add: active_def)+
qed

section \<open>Every reachable state\<close>

lemma lock_init_invs:
  assumes "lock_init s"
  shows "hdr_inv NB s" "lock_inv NB s" "queue_inv NB s" "flag_inv NB s" "sem_inv NB s" "wake_inv NB s" "progress_inv NB s"
  using assms
  by (auto simp: lock_init_def hdr_inv_def lock_inv_def queue_inv_def flag_inv_def sem_inv_def wake_inv_def
      progress_inv_def wait_ok_def queued_def off_list_def holding_def)

lemma lock_reachable_invs:
  assumes "lock_reachable NB s" "NB < 2 ^ 18"
  shows "hdr_inv NB s \<and> lock_inv NB s \<and> queue_inv NB s \<and> flag_inv NB s \<and> sem_inv NB s \<and> wake_inv NB s \<and> progress_inv NB s"
  using assms(1)
proof induction
  case (init s)
  then show ?case by (simp add: lock_init_invs)
next
  case (step s s')
  then show ?case
    by (auto intro: hdr_inv_step lock_inv_step [OF _ _ _ assms(2)] queue_inv_step flag_inv_step sem_inv_step
        wake_inv_step progress_inv_step [OF _ _ _ assms(2)])
qed

text \<open>
  A backend is at rest outside the protocol without the lock, and on its semaphore while that is zero.
\<close>

fun on_semaphore :: "pc \<Rightarrow> bool" where
  "on_semaphore (Sleep m) \<longleftrightarrow> True"
| "on_semaphore (DequeueSleep m k) \<longleftrightarrow> True"
| "on_semaphore _ \<longleftrightarrow> False"

definition at_rest :: "proc \<Rightarrow> bool" where
  "at_rest p \<longleftrightarrow>
     (if pc p = Running then held p = BUFFER_LOCK_UNLOCK else on_semaphore (pc p) \<and> sem p = 0)"

text \<open>A sleeper that is off the list is backed by a backend that is on its way to signal it.\<close>

lemma off_list_backed:
  assumes "queue_inv NB s" "sem_inv NB s" "k < NB" "on_semaphore (pc (procs s k))" "sem (procs s k) = 0"
    "lwWaiting (procs s k) \<noteq> LW_WS_WAITING"
  shows "\<exists>i < NB. \<not> at_rest (procs s i)"
proof (cases "pending s k")
  case True
  then obtain i where i: "i < NB" "k \<in> to_wake s i" using queue_invD(7) [OF assms(1,3)] by blast
  then have "\<not> at_rest (procs s i)" by (cases "pc (procs s i)") (auto simp: at_rest_def)
  then show ?thesis using i(1) by blast
next
  case False
  then have "off_list (procs s k)"
    using assms(4,6) by (cases "pc (procs s k)"; cases "lwWaiting (procs s k)") (auto simp: off_list_def)
  then obtain i ks where "i < NB" "pc (procs s i) = WakeSem k ks"
    using assms(2,3,5) by (auto simp: sem_inv_def signalled_def)
  then show ?thesis by (intro exI [of _ i]) (simp add: at_rest_def)
qed

lemma some_not_at_rest:
  assumes r: "lock_reachable NB s" "NB < 2 ^ 18" and k: "k < NB" "pc (procs s k) \<noteq> Running"
  shows "\<exists>i < NB. \<not> at_rest (procs s i)"
proof (rule ccontr)
  note inv = lock_reachable_invs [OF r]
  have q: "queue_inv NB s" "sem_inv NB s" and l: "lock_inv NB s" and g: "progress_inv NB s" using inv by simp_all
  assume "\<not> ?thesis"
  then have rest: "at_rest (procs s i)" if "i < NB" for i using that by blast
  have w: "lwWaiting (procs s i) = LW_WS_WAITING" "\<exists>m. pc (procs s i) = Sleep m"
    if i: "i < NB" "pc (procs s i) \<noteq> Running" for i
  proof -
    have o: "on_semaphore (pc (procs s i))" "sem (procs s i) = 0" using rest [OF i(1)] i(2) by (simp_all add: at_rest_def)
    then show w: "lwWaiting (procs s i) = LW_WS_WAITING" using off_list_backed [OF q i(1) o] rest by blast
    show "\<exists>m. pc (procs s i) = Sleep m"
      using o(1) w queue_invD(1) [OF q(1) i(1)] by (cases "pc (procs s i)") (auto simp: wait_ok_def)
  qed
  have "queued (procs s k)" using w [OF k] by (auto simp: queued_def)
  then have "k \<in> set (lock_waiters s)" unfolding queue_invD(4) [OF q(1)] using k(1) by simp
  then have "lock_waiters s \<noteq> []" by auto
  moreover have "holding (procs s i) = BUFFER_LOCK_UNLOCK" if i: "i < NB" for i
  proof (cases "pc (procs s i) = Running")
    case False
    then obtain m where "pc (procs s i) = Sleep m" using w(2) [OF i] by blast
    then show ?thesis using lock_inv_pc_ok [OF l i] by (simp add: holding_def pc_ok_def)
  qed (use rest [OF i] in \<open>simp add: holding_def at_rest_def\<close>)
  then have "lockn (word s) = 0" using lock_inv_bounds(3) [OF l r(2)] by blast
  ultimately obtain i where i: "i < NB" "active (procs s i)" using g by (auto simp: progress_inv_def)
  then have "pc (procs s i) \<noteq> Running" by (auto simp: active_def)
  then show False using w [OF i(1)] i(2) by (auto simp: active_def)
qed

text \<open>What a step does for the backend that takes it.\<close>

definition advances :: "nat \<Rightarrow> lock_sys \<Rightarrow> lock_sys \<Rightarrow> bool" where
  "advances i s s' \<longleftrightarrow> pc (procs s' i) \<noteq> pc (procs s i) \<or> sem (procs s' i) < sem (procs s i) \<or>
     held (procs s' i) \<noteq> held (procs s i)"

lemma advancesI:
  "lock_step NB s s' \<Longrightarrow> pc (procs s' i) \<noteq> pc (procs s i) \<or> sem (procs s' i) < sem (procs s i) \<or>
    held (procs s' i) \<noteq> held (procs s i) \<Longrightarrow> \<exists>s'. lock_step NB s s' \<and> advances i s s'"
  by (auto simp: advances_def)

lemma step_enabled:
  assumes i: "i < NB" "\<not> at_rest (procs s i)" and u: "\<not> bit (word s) 22 \<or> crit s i"
  shows "\<exists>s'. lock_step NB s s' \<and> advances i s s'"
proof (cases "pc (procs s i)")
  case Running
  then obtain sub where "BufferLockReleaseSub (held (procs s i)) = Some sub"
    using i(2) by (auto simp: at_rest_def release_unit)
  then show ?thesis
    by (rule advancesI [OF lock_step.release [OF i(1) Running refl]]) (use i(2) Running in \<open>auto simp: at_rest_def\<close>)
next
  case (Attempt1 m)
  obtain free w where "lock_desired m (word s) = (free, w)" by fastforce
  then show ?thesis by (rule advancesI [OF lock_step.attempt1 [OF i(1) Attempt1]]) (simp add: Attempt1)
next
  case (Attempt2 m)
  obtain free w where "lock_desired m (word s) = (free, w)" by fastforce
  then show ?thesis by (rule advancesI [OF lock_step.attempt2 [OF i(1) Attempt2]]) (simp add: Attempt2)
next
  case (Sleep m)
  then have z: "0 < sem (procs s i)" using i(2) by (simp add: at_rest_def)
  show ?thesis
  proof (cases "lwWaiting (procs s i) = LW_WS_NOT_WAITING")
    case True
    show ?thesis by (rule advancesI [OF lock_step.woken [OF i(1) Sleep z True]]) (simp add: Sleep)
  next
    case False
    show ?thesis by (rule advancesI [OF lock_step.absorb [OF i(1) Sleep z False]]) (simp add: z)
  qed
next
  case (DequeueSleep m k)
  then have z: "0 < sem (procs s i)" using i(2) by (simp add: at_rest_def)
  show ?thesis
  proof (cases "lwWaiting (procs s i) = LW_WS_NOT_WAITING")
    case True
    show ?thesis by (rule advancesI [OF lock_step.dequeue_woken [OF i(1) DequeueSleep z True]]) (simp add: DequeueSleep)
  next
    case False
    show ?thesis by (rule advancesI [OF lock_step.dequeue_absorb [OF i(1) DequeueSleep z False]]) (simp add: z)
  qed
next
  case (DequeueDone m x)
  show ?thesis
  proof (cases x)
    case True
    show ?thesis by (rule advancesI [OF lock_step.dequeue_on [OF i(1), of s m]]) (simp_all add: DequeueDone True)
  next
    case False
    show ?thesis by (rule advancesI [OF lock_step.dequeue_off [OF i(1), of s m]]) (simp_all add: DequeueDone False)
  qed
next
  case (WakeCollect x)
  obtain wk rest where "wakeup_scan (\<lambda>j. lwWaitMode (procs s j)) x True (lock_waiters s) = (wk, rest)" by fastforce
  then show ?thesis by (rule advancesI [OF lock_step.wake_collect [OF i(1) WakeCollect]]) (simp add: WakeCollect)
next
  case (WakeNext ks)
  show ?thesis
  proof (cases ks)
    case Nil
    show ?thesis by (rule advancesI [OF lock_step.wake_done [OF i(1), of s]]) (simp_all add: WakeNext Nil)
  next
    case (Cons k ks')
    show ?thesis by (rule advancesI [OF lock_step.wake_next [OF i(1), of s k ks']]) (simp_all add: WakeNext Cons)
  qed
next
  case (QueueLock m)
  show ?thesis by (rule advancesI [OF lock_step.queue_lock [OF i(1) QueueLock]]) (use u in \<open>simp_all add: QueueLock\<close>)
next
  case (QueueFlag m)
  show ?thesis by (rule advancesI [OF lock_step.queue_flag [OF i(1) QueueFlag]]) (use u in \<open>simp_all add: QueueFlag\<close>)
next
  case (QueuePush m)
  show ?thesis by (rule advancesI [OF lock_step.queue_push [OF i(1) QueuePush]]) (use u in \<open>simp_all add: QueuePush\<close>)
next
  case (QueueUnlock m)
  show ?thesis by (rule advancesI [OF lock_step.queue_unlock [OF i(1) QueueUnlock]]) (use u in \<open>simp_all add: QueueUnlock\<close>)
next
  case (Retry m)
  show ?thesis by (rule advancesI [OF lock_step.retry [OF i(1) Retry]]) (use u in \<open>simp_all add: Retry\<close>)
next
  case (DequeueLock m)
  show ?thesis by (rule advancesI [OF lock_step.dequeue_lock [OF i(1) DequeueLock]]) (use u in \<open>simp_all add: DequeueLock\<close>)
next
  case (DequeueDelete m)
  show ?thesis by (rule advancesI [OF lock_step.dequeue_delete [OF i(1) DequeueDelete]]) (use u in \<open>simp_all add: DequeueDelete\<close>)
next
  case (DequeueFlag m x)
  show ?thesis by (rule advancesI [OF lock_step.dequeue_flag [OF i(1) DequeueFlag]]) (use u in \<open>simp_all add: DequeueFlag\<close>)
next
  case (DequeueUnlock m x)
  show ?thesis by (rule advancesI [OF lock_step.dequeue_unlock [OF i(1) DequeueUnlock]]) (use u in \<open>simp_all add: DequeueUnlock\<close>)
next
  case (WakeLock x)
  show ?thesis by (rule advancesI [OF lock_step.wake_lock [OF i(1) WakeLock]]) (use u in \<open>simp_all add: WakeLock\<close>)
next
  case (WakeState wk)
  show ?thesis by (rule advancesI [OF lock_step.wake_state [OF i(1) WakeState]]) (use u in \<open>simp_all add: WakeState\<close>)
next
  case (WakeSem k ks)
  show ?thesis by (rule advancesI [OF lock_step.wake_sem [OF i(1) WakeSem]]) (use u in \<open>simp_all add: WakeSem\<close>)
qed

text \<open>
  A run that the claims are applied to: backend 0 locks the buffer exclusively, backend 1 asks for it
  shared, fails, and is about to put itself on the wait list.
\<close>

definition example_start :: lock_sys where
  "example_start = \<lparr>word = 0, lock_waiters = [],
     procs = (\<lambda>i. \<lparr>pc = Running, held = BUFFER_LOCK_UNLOCK, lwWaiting = LW_WS_NOT_WAITING,
       lwWaitMode = BUFFER_LOCK_UNLOCK, sem = 0, extraWaits = 0\<rparr>), hdr_taken = False\<rparr>"

definition example_queueing :: lock_sys where
  "example_queueing = example_start\<lparr>word := BM_LOCK_VAL_EXCLUSIVE OR BM_LOCKED OR BM_LOCK_HAS_WAITERS,
     procs := (procs example_start)(0 := (procs example_start 0)\<lparr>held := BUFFER_LOCK_EXCLUSIVE\<rparr>,
       1 := (procs example_start 1)\<lparr>pc := QueuePush BUFFER_LOCK_SHARE\<rparr>)\<rparr>"

lemma example_reachable: "lock_reachable 2 example_queueing"
proof -
  note d = example_start_def set_proc_def goto_def
  have b: "\<not> bit BM_LOCK_VAL_EXCLUSIVE 22" by (simp add: layout_defs)
  have "lock_reachable 2 example_start"
    by (rule lock_reachable.init) (simp add: lock_init_def example_start_def lockn_def)
  from lock_reachable.step [OF this lock_step.conditional [of 0 2 _ BUFFER_LOCK_EXCLUSIVE BM_LOCK_VAL_EXCLUSIVE]]
  have "lock_reachable 2 (example_start\<lparr>word := BM_LOCK_VAL_EXCLUSIVE,
      procs := (procs example_start)(0 := (procs example_start 0)\<lparr>held := BUFFER_LOCK_EXCLUSIVE\<rparr>)\<rparr>)"
    (is "lock_reachable 2 ?s1") by (simp add: d lock_desired_def)
  from lock_reachable.step [OF this lock_step.start [of 1 2 _ BUFFER_LOCK_SHARE]]
  have "lock_reachable 2 (goto 1 (Attempt1 BUFFER_LOCK_SHARE) ?s1)" by (simp add: d)
  from lock_reachable.step [OF this lock_step.attempt1 [of 1 2 _ BUFFER_LOCK_SHARE False BM_LOCK_VAL_EXCLUSIVE]]
  have "lock_reachable 2 (goto 1 (QueueLock BUFFER_LOCK_SHARE) ?s1)" by (simp add: d lock_desired_def layout_defs)
  from lock_reachable.step [OF this lock_step.queue_lock [of 1 2 _ BUFFER_LOCK_SHARE]]
  have "lock_reachable 2 (goto 1 (QueueFlag BUFFER_LOCK_SHARE) (?s1\<lparr>word := BM_LOCK_VAL_EXCLUSIVE OR BM_LOCKED\<rparr>))"
    by (simp add: d b)
  from lock_reachable.step [OF this lock_step.queue_flag [of 1 2 _ BUFFER_LOCK_SHARE]]
  show ?thesis by (simp add: d example_queueing_def or.assoc)
qed

section \<open>The claims\<close>

text \<open>
  C6: the content lock excludes. In every state that up to MAX_BACKENDS backends can reach by acquiring,
  trying and releasing the lock in any interleaving, two backends never hold it in conflicting modes, the
  lock field of the state word counts exactly the modes held (so it never overflows into a neighbouring
  field), and a backend that puts itself on the wait list is not on a list already, so the PANIC of
  BufferLockQueueSelf is not reached.
\<close>

theorem content_lock_exclusion:
  assumes "lock_reachable NB s" "NB < 2 ^ 18" "i < NB" "j < NB" "i \<noteq> j"
  shows "compatible (holding (procs s i)) (holding (procs s j)) \<and>
    lockn (word s) = (\<Sum>k < NB. mode_val (holding (procs s k))) \<and> lockn (word s) < 2 ^ 20 \<and>
    (pc (procs s i) = QueuePush m \<longrightarrow> lwWaiting (procs s i) = LW_WS_NOT_WAITING \<and> i \<notin> set (lock_waiters s))"
proof -
  have l: "lock_inv NB s" and q: "queue_inv NB s" using lock_reachable_invs [OF assms(1,2)] by simp_all
  have "i \<notin> set (lock_waiters s)" if "pc (procs s i) = QueuePush m"
    unfolding queue_invD(4) [OF q] using that queue_invD(1) [OF q assms(3)] by (auto simp: wait_ok_def queued_def)
  then show ?thesis
    using l lock_inv_bounds(1) [OF l assms(2)] queue_invD(1) [OF q assms(3)] assms(3-5)
    by (auto simp: lock_inv_def wait_ok_def)
qed

theorem content_lock_exclusion_witness:
  "compatible (holding (procs example_queueing 1)) (holding (procs example_queueing 0)) \<and>
   pc (procs example_queueing 1) = QueuePush BUFFER_LOCK_SHARE \<and>
   lwWaiting (procs example_queueing 1) = LW_WS_NOT_WAITING \<and> lockn (word example_queueing) = 2 ^ 19"
  using content_lock_exclusion [OF example_reachable, of 1 0 BUFFER_LOCK_SHARE]
  by (simp add: example_queueing_def example_start_def holding_def lessThan_nat_numeral)

text \<open>
  C7: no wakeup of the content lock is lost. In a reachable state in which some backend is still on its
  way through BufferLockAcquire or BufferLockUnlock and nobody outside holds the buffer header lock, there
  is a backend that is not at rest, that is, one that holds the lock or is not blocked on a semaphore
  whose count is zero, and that can take its next step. So the backends are never all asleep on a
  free lock with the wait list nonempty, although the releasing backend skips the wakeup while one is
  in progress; the list holds each waiting backend once, and its flag is set while it is not empty.
\<close>

theorem content_lock_no_lost_wakeup:
  assumes "lock_reachable NB s" "NB < 2 ^ 18" "\<not> hdr_taken s" "k < NB" "pc (procs s k) \<noteq> Running"
  shows "(\<exists>i < NB. \<exists>s'. \<not> at_rest (procs s i) \<and> lock_step NB s s' \<and> advances i s s') \<and>
    distinct (lock_waiters s) \<and> set (lock_waiters s) = {i. i < NB \<and> queued (procs s i)} \<and>
    (lock_waiters s \<noteq> [] \<longrightarrow> word s AND BM_LOCK_HAS_WAITERS \<noteq> 0)"
proof -
  have h: "hdr_inv NB s" and q: "queue_inv NB s" "flag_inv NB s" using lock_reachable_invs [OF assms(1,2)] by simp_all
  obtain i where i: "i < NB" "\<not> at_rest (procs s i)" using some_not_at_rest [OF assms(1,2,4,5)] by blast
  have "\<exists>i < NB. \<not> at_rest (procs s i) \<and> (\<not> bit (word s) 22 \<or> crit s i)"
  proof (cases "bit (word s) 22")
    case True
    then obtain j where "j < NB" "crit s j" using h assms(3) by (auto simp: hdr_inv_def)
    then show ?thesis by (intro exI [of _ j]) (cases "pc (procs s j)"; simp add: at_rest_def)
  qed (use i in blast)
  then show ?thesis using step_enabled queue_invD(3,4) [OF q(1)] q(2) by (fastforce simp: flag_inv_def)
qed

theorem content_lock_no_lost_wakeup_witness:
  "\<exists>i < 2. \<exists>s'. \<not> at_rest (procs example_queueing i) \<and> lock_step 2 example_queueing s' \<and> advances i example_queueing s'"
  using content_lock_no_lost_wakeup [OF example_reachable, of 1]
  by (simp add: example_queueing_def example_start_def)

end
