(* ===== verification/Buffer_Pin.thy ===== *)
theory Buffer_Pin
  imports Victim_Search
begin

unbundle bit_operations_syntax

text \<open>
  Pins: \<^verbatim>\<open>PinBuffer\<close>, \<^verbatim>\<open>PinBuffer_Locked\<close>, \<^verbatim>\<open>UnpinBuffer\<close> and their callers in \<^verbatim>\<open>bufmgr.c\<close>. A pin
  is counted twice, in the shared state word once per backend and in the backend's private
  table once per pin; the state of a run is the pool of \<^verbatim>\<open>Buffer_Ring\<close>, with the other backends as
  interference on the words. A latch that is set is recorded in \<^const>\<open>latches\<close>.
\<close>

section \<open>The routines\<close>

text \<open>A routine on the header words, run on the pool.\<close>

definition on_hdr :: "'p pool \<Rightarrow> (nat \<times> states, 'a) run \<Rightarrow> (nat \<times> 'p pool, 'a) run" where
  "on_hdr p r = (case r of
       Done (t, st) a \<Rightarrow> Done (t, p\<lparr>hdr := st\<rparr>) a | Raise (t, st) e \<Rightarrow> Raise (t, p\<lparr>hdr := st\<rparr>) e
     | Spin (t, st) \<Rightarrow> Spin (t, p\<lparr>hdr := st\<rparr>) | Crash \<Rightarrow> Crash)"

text \<open>The word \<open>PinBuffer\<close> swaps in: one more reference, and the usage count raised.\<close>

definition pin_bump :: "bool \<Rightarrow> uint64 \<Rightarrow> uint64" where
  "pin_bump default_strategy old_buf_state =
     (let buf_state = old_buf_state + BUF_REFCOUNT_ONE
      in if default_strategy
         then (if BUF_STATE_GET_USAGECOUNT buf_state < BM_MAX_USAGE_COUNT then buf_state + BUF_USAGECOUNT_ONE else buf_state)
         else (if BUF_STATE_GET_USAGECOUNT buf_state = 0 then buf_state + BUF_USAGECOUNT_ONE else buf_state))"

fun PinBuffer_loop ::
    "nat \<Rightarrow> interference \<Rightarrow> nat \<Rightarrow> 'p pool \<Rightarrow> nat \<Rightarrow> bool \<Rightarrow> bool \<Rightarrow> uint64 \<Rightarrow> (nat \<times> 'p pool, bool) run" where
  "PinBuffer_loop 0 E t p buf default_strategy skip_if_not_valid old_buf_state = Spin (t, p)"
| "PinBuffer_loop (Suc fuel) E t p buf default_strategy skip_if_not_valid old_buf_state =
     (if skip_if_not_valid \<and> old_buf_state AND BM_VALID = 0 then Done (t, p) False
      else andThen (if old_buf_state AND BM_LOCKED \<noteq> 0 then on_hdr p (WaitBufHdrUnlocked fuel E t (hdr p) buf)
                    else Done (t, p) old_buf_state)
        (\<lambda>(t, p) old_buf_state.
           let buf_state = pin_bump default_strategy old_buf_state;
               (success, found, st) = pg_atomic_compare_exchange_u64 (E t (hdr p)) buf old_buf_state buf_state
           in if success
              then (case TrackNewBufferPin (BufferDescriptorGetBuffer buf) (me p) of
                      None \<Rightarrow> Crash
                    | Some m \<Rightarrow> Done (Suc t, p\<lparr>hdr := st, me := m\<rparr>) (buf_state AND BM_VALID \<noteq> 0))
              else PinBuffer_loop fuel E (Suc t) (p\<lparr>hdr := st\<rparr>) buf default_strategy skip_if_not_valid found))"

text \<open>\<open>ref->data.refcount += k\<close>.\<close>

definition add_refcount :: "refptr \<Rightarrow> int \<Rightarrow> backend \<Rightarrow> backend" where
  "add_refcount ref k m = set_entry_data ref ((entry_data m ref)\<lparr>refcount := refcount (entry_data m ref) + k\<rparr>) m"

definition remember_buffer :: "nat \<Rightarrow> backend \<Rightarrow> backend" where
  "remember_buffer buf m = m\<lparr>owned_buffers := BufferDescriptorGetBuffer buf # owned_buffers m\<rparr>"

definition PinBuffer ::
    "nat \<Rightarrow> interference \<Rightarrow> nat \<Rightarrow> 'p pool \<Rightarrow> nat \<Rightarrow> bool \<Rightarrow> bool \<Rightarrow> (nat \<times> 'p pool, bool) run" where
  "PinBuffer fuel E t p buf default_strategy skip_if_not_valid =
     (case GetPrivateRefCountEntry (BufferDescriptorGetBuffer buf) True (me p) of
        None \<Rightarrow> Crash
      | Some (None, m) \<Rightarrow>
          (let st = E t (hdr p)
           in PinBuffer_loop fuel E (Suc t) (p\<lparr>hdr := st, me := m\<rparr>) buf default_strategy skip_if_not_valid (st buf))
      | Some (Some ref, m) \<Rightarrow>
          (let st = E t (hdr p)
           in Done (Suc t, p\<lparr>hdr := st, me := remember_buffer buf (add_refcount ref 1 m)\<rparr>) (st buf AND BM_VALID \<noteq> 0)))"

definition PinBuffer_Locked :: "nat \<Rightarrow> interference \<Rightarrow> nat \<Rightarrow> 'p pool \<Rightarrow> nat \<Rightarrow> (nat \<times> 'p pool, unit) run" where
  "PinBuffer_Locked fuel E t p buf =
     (let st = E t (hdr p)
      in andThen (on_hdr p (UnlockBufHdrExt fuel E (Suc t) st buf (st buf) 0 0 1))
        (\<lambda>(t, p) _. case TrackNewBufferPin (BufferDescriptorGetBuffer buf) (me p) of
           None \<Rightarrow> Crash | Some m \<Rightarrow> Done (t, p\<lparr>me := m\<rparr>) ()))"

text \<open>
  Waking the backend that waits for a pin count of one. Its number is read from the descriptor
  (\<open>wait_backend\<close>), and signalling a number out of range is an error.
\<close>

definition ProcSendSignal :: "int \<Rightarrow> int \<Rightarrow> nat \<Rightarrow> 'p pool \<Rightarrow> (nat \<times> 'p pool, unit) run" where
  "ProcSendSignal allProcCount procNumber t p =
     (if procNumber < 0 \<or> allProcCount \<le> procNumber then Raise (t, p) ProcNumberOutOfRange
      else Done (t, p\<lparr>latches := procNumber # latches p\<rparr>) ())"

definition WakePinCountWaiter ::
    "int \<Rightarrow> (nat \<Rightarrow> int) \<Rightarrow> nat \<Rightarrow> interference \<Rightarrow> nat \<Rightarrow> 'p pool \<Rightarrow> nat \<Rightarrow> (nat \<times> 'p pool, unit) run" where
  "WakePinCountWaiter allProcCount wait_backend fuel E t p buf =
     andThen (on_hdr p (LockBufHdr fuel E t (hdr p) buf))
       (\<lambda>(t, p) buf_state.
          if buf_state AND BM_PIN_COUNT_WAITER \<noteq> 0 \<and> BUF_STATE_GET_REFCOUNT buf_state = 1
          then andThen (on_hdr p (UnlockBufHdrExt fuel E t (hdr p) buf buf_state 0 BM_PIN_COUNT_WAITER 0))
                 (\<lambda>(t, p) _. ProcSendSignal allProcCount (wait_backend buf) t p)
          else (case UnlockBufHdr E t (hdr p) buf of (t, st) \<Rightarrow> Done (t, p\<lparr>hdr := st\<rparr>) ()))"

definition UnpinBufferNoOwner ::
    "int \<Rightarrow> (nat \<Rightarrow> int) \<Rightarrow> nat \<Rightarrow> interference \<Rightarrow> nat \<Rightarrow> 'p pool \<Rightarrow> nat \<Rightarrow> (nat \<times> 'p pool, unit) run" where
  "UnpinBufferNoOwner allProcCount wait_backend fuel E t p buf =
     (case GetPrivateRefCountEntry (BufferDescriptorGetBuffer buf) False (me p) of
        None \<Rightarrow> Crash
      | Some (None, m) \<Rightarrow> Crash
      | Some (Some ref, m) \<Rightarrow>
          if refcount (entry_data m ref) \<le> 0 then Crash
          else let m = add_refcount ref (-1) m
          in if refcount (entry_data m ref) \<noteq> 0 then Done (t, p\<lparr>me := m\<rparr>) ()
          else if lockmode (entry_data m ref) \<noteq> BUFFER_LOCK_UNLOCK then Crash
          else let (old_buf_state, st) = pg_atomic_fetch_sub_u64 (E t (hdr p)) buf BUF_REFCOUNT_ONE;
                   p = p\<lparr>hdr := st, me := m\<rparr>
          in andThen (if old_buf_state AND BM_PIN_COUNT_WAITER \<noteq> 0
                      then WakePinCountWaiter allProcCount wait_backend fuel E (Suc t) p buf else Done (Suc t, p) ())
               (\<lambda>(t, p) _. Done (t, p\<lparr>me := ForgetPrivateRefCountEntry ref (me p)\<rparr>) ()))"

definition UnpinBuffer ::
    "int \<Rightarrow> (nat \<Rightarrow> int) \<Rightarrow> nat \<Rightarrow> interference \<Rightarrow> nat \<Rightarrow> 'p pool \<Rightarrow> nat \<Rightarrow> (nat \<times> 'p pool, unit) run" where
  "UnpinBuffer allProcCount wait_backend fuel E t p buf =
     (let b = BufferDescriptorGetBuffer buf; m = me p
      in if b \<notin> set (owned_buffers m) then Raise (t, p) BufferNotOwned
         else UnpinBufferNoOwner allProcCount wait_backend fuel E t
                (p\<lparr>me := m\<lparr>owned_buffers := remove1 b (owned_buffers m)\<rparr>\<rparr>) buf)"

text \<open>\<open>IncrBufferRefCount\<close> and \<open>ReleaseBuffer\<close> on shared buffers.\<close>

definition IncrBufferRefCount :: "nat \<Rightarrow> 'p pool \<Rightarrow> Buffer \<Rightarrow> (nat \<times> 'p pool, unit) run" where
  "IncrBufferRefCount t p b =
     (case GetPrivateRefCountEntry b True (me p) of
        Some (Some ref, m) \<Rightarrow> Done (t, p\<lparr>me := remember_buffer (nat (b - 1)) (add_refcount ref 1 m)\<rparr>) ()
      | _ \<Rightarrow> Crash)"

definition ReleaseBuffer ::
    "int \<Rightarrow> (nat \<Rightarrow> int) \<Rightarrow> nat \<Rightarrow> nat \<Rightarrow> interference \<Rightarrow> nat \<Rightarrow> 'p pool \<Rightarrow> Buffer \<Rightarrow> (nat \<times> 'p pool, unit) run" where
  "ReleaseBuffer allProcCount wait_backend NBuffers fuel E t p b =
     (if b = InvalidBuffer then Raise (t, p) BadBufferId
      else if b < 0 \<or> int NBuffers < b then Crash
      else UnpinBuffer allProcCount wait_backend fuel E t p (nat (b - 1)))"

text \<open>The limits on further pins, in \<open>uint32\<close> arithmetic.\<close>

definition GetAdditionalPinLimit :: "uint32 \<Rightarrow> backend \<Rightarrow> uint32" where
  "GetAdditionalPinLimit MaxProportionalPins m =
     (let estimated_pins_held = word_of_int (PrivateRefCountOverflowed m + int REFCOUNT_ARRAY_ENTRIES)
      in if estimated_pins_held > MaxProportionalPins then 0 else MaxProportionalPins - estimated_pins_held)"

definition LimitAdditionalPins :: "uint32 \<Rightarrow> backend \<Rightarrow> uint32 \<Rightarrow> uint32" where
  "LimitAdditionalPins MaxProportionalPins m additional_pins =
     (if additional_pins \<le> 1 then additional_pins
      else let limit = max (GetAdditionalPinLimit MaxProportionalPins m) 1
      in if limit < additional_pins then limit else additional_pins)"

text \<open>\<open>MarkBufferDirty\<close>: the flags are set only while nobody holds the header lock; whether the buffer was clean.\<close>

fun MarkBufferDirty_loop ::
    "nat \<Rightarrow> interference \<Rightarrow> nat \<Rightarrow> states \<Rightarrow> nat \<Rightarrow> uint64 \<Rightarrow> (nat \<times> states, bool) run" where
  "MarkBufferDirty_loop 0 E t st buf old_buf_state = Spin (t, st)"
| "MarkBufferDirty_loop (Suc fuel) E t st buf old_buf_state =
     andThen (if old_buf_state AND BM_LOCKED \<noteq> 0 then WaitBufHdrUnlocked fuel E t st buf else Done (t, st) old_buf_state)
       (\<lambda>(t, st) old_buf_state.
          let (success, found, st) = pg_atomic_compare_exchange_u64 (E t st) buf old_buf_state
                (old_buf_state OR (BM_DIRTY OR BM_JUST_DIRTIED))
          in if success then Done (Suc t, st) (old_buf_state AND BM_DIRTY = 0)
             else MarkBufferDirty_loop fuel E (Suc t) st buf found)"

definition MarkBufferDirty :: "nat \<Rightarrow> interference \<Rightarrow> nat \<Rightarrow> states \<Rightarrow> nat \<Rightarrow> (nat \<times> states, bool) run" where
  "MarkBufferDirty fuel E t st buf = (let st = E t st in MarkBufferDirty_loop fuel E (Suc t) st buf (st buf))"

section \<open>The pinned word\<close>

lemma refcount_cong: "(\<And>k. k < 18 \<Longrightarrow> bit s k = bit s' k) \<Longrightarrow> BUF_STATE_GET_REFCOUNT s = BUF_STATE_GET_REFCOUNT s'"
proof -
  assume "\<And>k. k < 18 \<Longrightarrow> bit s k = bit s' k"
  then have "s AND mask 18 = s' AND mask 18" by (intro bit_eqI) (auto simp: bit_simps)
  then show ?thesis by (simp only: BUF_STATE_GET_REFCOUNT_def refcount_mask)
qed

lemma nat_use_div_mod:
  fixes n :: nat
  assumes "n div 2 ^ 18 mod 16 < 15"
  shows "(n + 2 ^ 18) mod 2 ^ 18 = n mod 2 ^ 18" "(n + 2 ^ 18) div 2 ^ 18 mod 16 = n div 2 ^ 18 mod 16 + 1"
    "(n + 2 ^ 18) div 2 ^ 22 = n div 2 ^ 22"
proof -
  have q: "(n + 2 ^ 18) div 2 ^ 18 = Suc (n div 2 ^ 18)" by simp
  show "(n + 2 ^ 18) mod 2 ^ 18 = n mod 2 ^ 18" by simp
  show "(n + 2 ^ 18) div 2 ^ 18 mod 16 = n div 2 ^ 18 mod 16 + 1" unfolding q using assms by (simp add: mod_Suc)
  show "(n + 2 ^ 18) div 2 ^ 22 = n div 2 ^ 22" unfolding div22 q using assms by (auto simp: div_Suc mod_Suc)
qed

lemma unat_plus_usage:
  assumes "unat (BUF_STATE_GET_USAGECOUNT s) < 15"
  shows "unat (s + BUF_USAGECOUNT_ONE) = unat s + 2 ^ 18"
proof -
  have m: "unat s div 2 ^ 18 mod 16 < 15" using assms by (simp only: unat_usagecount)
  have "unat s + 2 ^ 18 < 2 ^ 64"
  proof (rule ccontr)
    assume "\<not> ?thesis"
    then have "(2 ^ 64 - 2 ^ 18) div 2 ^ 18 \<le> unat s div 2 ^ 18" by (intro div_le_mono) simp
    moreover have "unat s div 2 ^ 18 < 2 ^ 46" using unsigned_less [of s] by (intro less_mult_imp_div_less) simp
    ultimately have "unat s div 2 ^ 18 = 2 ^ 46 - 1" by simp
    with m show False by simp
  qed
  then show ?thesis by (simp add: layout_defs unat_word_ariths)
qed

lemma use_fields [bufstate_simps]:
  assumes "unat (BUF_STATE_GET_USAGECOUNT s) < 15"
  shows "BUF_STATE_GET_REFCOUNT (s + BUF_USAGECOUNT_ONE) = BUF_STATE_GET_REFCOUNT s"
    "unat (BUF_STATE_GET_USAGECOUNT (s + BUF_USAGECOUNT_ONE)) = unat (BUF_STATE_GET_USAGECOUNT s) + 1"
    "22 \<le> k \<Longrightarrow> bit (s + BUF_USAGECOUNT_ONE) k = bit s k"
proof -
  have m: "unat s div 2 ^ 18 mod 16 < 15" using assms by (simp only: unat_usagecount)
  note u = unat_plus_usage [OF assms] and d = nat_use_div_mod [OF m]
  show "BUF_STATE_GET_REFCOUNT (s + BUF_USAGECOUNT_ONE) = BUF_STATE_GET_REFCOUNT s"
    unfolding word_unat_eq_iff unat_refcount u by (rule d(1))
  show "unat (BUF_STATE_GET_USAGECOUNT (s + BUF_USAGECOUNT_ONE)) = unat (BUF_STATE_GET_USAGECOUNT s) + 1"
    unfolding unat_usagecount u by (rule d(2))
  show "22 \<le> k \<Longrightarrow> bit (s + BUF_USAGECOUNT_ONE) k = bit s k"
    by (rule bit_above_eqI [of _ 22]) (simp only: u d(3))
qed

text \<open>The usage count a pin leaves behind.\<close>

definition bumped :: "bool \<Rightarrow> nat \<Rightarrow> nat" where
  "bumped default_strategy u =
     (if default_strategy then (if u < unat BM_MAX_USAGE_COUNT then u + 1 else u) else max u 1)"

lemma pin_bump_fields:
  assumes "unat (BUF_STATE_GET_REFCOUNT s) + 1 < 2 ^ 18"
  shows "unat (BUF_STATE_GET_REFCOUNT (pin_bump d s)) = unat (BUF_STATE_GET_REFCOUNT s) + 1"
    "unat (BUF_STATE_GET_USAGECOUNT (pin_bump d s)) = bumped d (unat (BUF_STATE_GET_USAGECOUNT s))"
    "22 \<le> k \<Longrightarrow> bit (pin_bump d s) k = bit s k"
proof -
  let ?s = "s + BUF_REFCOUNT_ONE"
  note u = pin_usagecount [OF assms] and r = pin_refcount [OF assms] and f = pin_flags [OF assms]
  have lt: "unat (BUF_STATE_GET_USAGECOUNT ?s) < 15" if "BUF_STATE_GET_USAGECOUNT ?s < BM_MAX_USAGE_COUNT \<or> BUF_STATE_GET_USAGECOUNT ?s = 0"
    using that by (auto simp: word_less_nat_alt BM_MAX_USAGE_COUNT_def)
  have b: "bumped d (unat (BUF_STATE_GET_USAGECOUNT s)) =
      (if (if d then BUF_STATE_GET_USAGECOUNT ?s < BM_MAX_USAGE_COUNT else BUF_STATE_GET_USAGECOUNT ?s = 0)
       then unat (BUF_STATE_GET_USAGECOUNT s) + 1 else unat (BUF_STATE_GET_USAGECOUNT s))"
    using unat_eq_zero [of "BUF_STATE_GET_USAGECOUNT s"]
    unfolding u bumped_def by (auto simp: word_less_nat_alt BM_MAX_USAGE_COUNT_def max_def)
  have e: "pin_bump d s = (if (if d then BUF_STATE_GET_USAGECOUNT ?s < BM_MAX_USAGE_COUNT else BUF_STATE_GET_USAGECOUNT ?s = 0)
       then ?s + BUF_USAGECOUNT_ONE else ?s)"
    by (simp add: pin_bump_def Let_def)
  show "unat (BUF_STATE_GET_REFCOUNT (pin_bump d s)) = unat (BUF_STATE_GET_REFCOUNT s) + 1"
    unfolding e using use_fields(1) [of ?s] lt r by auto
  show "unat (BUF_STATE_GET_USAGECOUNT (pin_bump d s)) = bumped d (unat (BUF_STATE_GET_USAGECOUNT s))"
    unfolding e b using use_fields(2) [of ?s] lt u by auto
  show "22 \<le> k \<Longrightarrow> bit (pin_bump d s) k = bit s k"
    unfolding e using use_fields(3) [of ?s k] lt f [of k] by auto
qed

section \<open>Pinning\<close>

text \<open>
  The number of backends that pin a buffer leaves room for one more. The words keep this backend's
  pins and that room, and the other backends keep both.
\<close>

definition pin_room :: "nat \<Rightarrow> states \<Rightarrow> bool" where
  "pin_room buf st \<longleftrightarrow> unat (BUF_STATE_GET_REFCOUNT (st buf)) + 1 < 2 ^ 18"

definition pin_inv :: "nat \<Rightarrow> backend \<Rightarrow> states \<Rightarrow> bool" where
  "pin_inv buf m st \<longleftrightarrow> own_pins st m \<and> pin_room buf st"

definition keeps :: "(states \<Rightarrow> bool) \<Rightarrow> interference \<Rightarrow> bool" where
  "keeps I E \<longleftrightarrow> (\<forall>t st. I st \<longrightarrow> I (E t st))"

lemma keepsD: "keeps I E \<Longrightarrow> I st \<Longrightarrow> I (E t st)"
  by (simp add: keeps_def)

lemma pin_inv_cong: "refs m = refs m' \<Longrightarrow> pin_inv buf m = pin_inv buf m'"
  by (simp add: pin_inv_def own_pins_def fun_eq_iff)

definition waited :: "nat \<Rightarrow> 'p pool \<Rightarrow> 'p pool \<Rightarrow> bool" where
  "waited buf p q \<longleftrightarrow> only_hdr p q \<and> pin_room buf (hdr q)"

lemma waited_iff: "waited buf p q \<longleftrightarrow> ctl q = ctl p \<and> pol q = pol p \<and> strategy q = strategy p \<and> me q = me p \<and>
    latches q = latches p \<and> pin_inv buf (me p) (hdr q)"
  by (auto simp: waited_def only_hdr_def pin_inv_def)

lemma waited_trans: "waited buf p q \<Longrightarrow> waited buf q r \<Longrightarrow> waited buf p r"
  by (simp add: waited_iff)

text \<open>
  \<open>first_pinned\<close>: the backend's first pin on the buffer, one atomic update of a word that was not
  locked. \<open>pinned_again\<close>: a further pin, which leaves the word alone.
\<close>

definition rest_same :: "'p pool \<Rightarrow> 'p pool \<Rightarrow> bool" where
  "rest_same p q \<longleftrightarrow> ctl q = ctl p \<and> pol q = pol p \<and> strategy q = strategy p"

definition first_pinned :: "interference \<Rightarrow> bool \<Rightarrow> 'p pool \<Rightarrow> 'p pool \<Rightarrow> nat \<Rightarrow> bool \<Rightarrow> bool" where
  "first_pinned E d p q buf valid \<longleftrightarrow>
     (\<exists>u st. hdr q = (E u st)(buf := pin_bump d (E u st buf)) \<and> \<not> bit (E u st buf) 22 \<and> valid = bit (E u st buf) 24 \<and>
        pin_room buf (E u st)) \<and>
     refs (me p) (BufferDescriptorGetBuffer buf) = None \<and>
     refs (me q) = (refs (me p))(BufferDescriptorGetBuffer buf \<mapsto> first_pin) \<and>
     owned_buffers (me q) = BufferDescriptorGetBuffer buf # owned_buffers (me p) \<and>
     prc_inv (me q) \<and> own_pins (hdr q) (me q) \<and> rest_same p q \<and> latches q = latches p"

lemma first_pinned_waited: "waited b p q \<Longrightarrow> first_pinned E d q r buf v \<Longrightarrow> first_pinned E d p r buf v"
  by (auto simp: first_pinned_def waited_iff rest_same_def)

lemma waited_E: "keeps (pin_inv buf (me p)) E \<Longrightarrow> pin_inv buf (me p) (hdr p) \<Longrightarrow> waited buf p (p\<lparr>hdr := E t (hdr p)\<rparr>)"
  by (simp add: waited_iff keepsD)

lemma WaitBufHdrUnlocked_keeps:
  assumes "keeps I E" "I st"
  shows "outcome (\<lambda>(t', st') s. I st' \<and> \<not> bit s 22) (\<lambda>_ _. False) (\<lambda>(t', st'). I st') (WaitBufHdrUnlocked n E t st b)"
  using assms
  by (induction n E t st b rule: WaitBufHdrUnlocked.induct) (auto simp: Let_def keepsD)

lemma wait_outcome:
  assumes "keeps (pin_inv buf (me p)) E" "pin_inv buf (me p) (hdr p)"
  shows "outcome (\<lambda>(t', q) s. waited buf p q \<and> \<not> bit s 22) (\<lambda>_ _. False) (\<lambda>(t', q). waited buf p q)
    (on_hdr p (WaitBufHdrUnlocked n E t (hdr p) b))"
  using WaitBufHdrUnlocked_keeps [OF assms, where n = n and t = t and b = b]
  by (auto simp: on_hdr_def waited_iff outcome_def split: run.splits)

lemma pin_swap:
  assumes p: "prc_inv (me p)" "reserved (me p)" "pin_inv buf (me p) (hdr p)" "keeps (pin_inv buf (me p)) E"
    and none: "refs (me p) (BufferDescriptorGetBuffer buf) = None" and s: "E t (hdr p) buf = s" "\<not> bit s 22"
  obtains m where "TrackNewBufferPin (BufferDescriptorGetBuffer buf) (me p) = Some m"
    "first_pinned E d p (p\<lparr>hdr := (E t (hdr p))(buf := pin_bump d s), me := m\<rparr>) buf (pin_bump d s AND BM_VALID \<noteq> 0)"
proof -
  obtain m where m: "TrackNewBufferPin (BufferDescriptorGetBuffer buf) (me p) = Some m" "prc_inv m"
    "refs m = (refs (me p))(BufferDescriptorGetBuffer buf \<mapsto> \<lparr>refcount = 1, lockmode = BUFFER_LOCK_UNLOCK\<rparr>)"
    "owned_buffers m = BufferDescriptorGetBuffer buf # owned_buffers (me p)"
    using Track_ok [OF p(1,2) GetBuffer_not_Invalid none] by blast
  have o: "own_pins (E t (hdr p)) (me p)" "pin_room buf (E t (hdr p))" using keepsD [OF p(4,3)] by (simp_all add: pin_inv_def)
  then have r: "unat (BUF_STATE_GET_REFCOUNT s) + 1 < 2 ^ 18" using s(1) by (auto simp: pin_room_def)
  have "BUF_STATE_GET_REFCOUNT (pin_bump d s) \<noteq> 0" using pin_bump_fields(1) [OF r, of d] by (auto simp: word_unat_eq_iff)
  then have "own_pins ((E t (hdr p))(buf := pin_bump d s)) m"
    using o(1) by (auto simp: own_pins_def m(3))
  then show ?thesis
    using that [OF m(1)] m s none o(2) pin_bump_fields(3) [OF r, of 24 d] unfolding first_pinned_def rest_same_def first_pin_def
    by auto
qed

text \<open>One round of the loop, once the header lock was seen free.\<close>

definition pin_round ::
    "nat \<Rightarrow> interference \<Rightarrow> nat \<Rightarrow> bool \<Rightarrow> bool \<Rightarrow> nat \<times> 'p pool \<Rightarrow> uint64 \<Rightarrow> (nat \<times> 'p pool, bool) run" where
  "pin_round fuel E buf d skip = (\<lambda>(t, p) old_buf_state.
     let buf_state = pin_bump d old_buf_state;
         (success, found, st) = pg_atomic_compare_exchange_u64 (E t (hdr p)) buf old_buf_state buf_state
     in if success
        then (case TrackNewBufferPin (BufferDescriptorGetBuffer buf) (me p) of
                None \<Rightarrow> Crash
              | Some m \<Rightarrow> Done (Suc t, p\<lparr>hdr := st, me := m\<rparr>) (buf_state AND BM_VALID \<noteq> 0))
        else PinBuffer_loop fuel E (Suc t) (p\<lparr>hdr := st\<rparr>) buf d skip found)"

lemma PinBuffer_loop_Suc:
  "PinBuffer_loop (Suc fuel) E t p buf d skip old =
     (if skip \<and> old AND BM_VALID = 0 then Done (t, p) False
      else andThen (if old AND BM_LOCKED \<noteq> 0 then on_hdr p (WaitBufHdrUnlocked fuel E t (hdr p) buf) else Done (t, p) old)
        (pin_round fuel E buf d skip))"
  by (simp add: pin_round_def)

declare PinBuffer_loop.simps(2) [simp del]

lemma PinBuffer_loop_ok:
  assumes "prc_inv (me p)" "reserved (me p)" "refs (me p) (BufferDescriptorGetBuffer buf) = None"
    "keeps (pin_inv buf (me p)) E" "pin_inv buf (me p) (hdr p)"
  shows "outcome (\<lambda>(t', q) r. skip \<and> \<not> r \<and> waited buf p q \<or> first_pinned E d p q buf r) (\<lambda>_ _. False) (\<lambda>(t', q). waited buf p q)
    (PinBuffer_loop fuel E t p buf d skip old)"
  using assms
proof (induction fuel arbitrary: t p old)
  case 0
  then show ?case by (simp add: waited_iff)
next
  case (Suc fuel)
  show ?case
  proof (cases "skip \<and> old AND BM_VALID = 0")
    case True
    then show ?thesis using Suc.prems unfolding PinBuffer_loop_Suc if_P [OF True] by (simp add: waited_iff)
  next
    case False
    then show ?thesis unfolding PinBuffer_loop_Suc if_not_P [OF False]
    proof (intro outcome_andThen)
      show "outcome (\<lambda>(t', q) s. waited buf p q \<and> \<not> bit s 22) (\<lambda>_ _. False) (\<lambda>(t', q). waited buf p q)
          (if old AND BM_LOCKED \<noteq> 0 then on_hdr p (WaitBufHdrUnlocked fuel E t (hdr p) buf) else Done (t, p) old)"
        using wait_outcome [OF Suc.prems(4,5)] Suc.prems(5) by (simp add: waited_iff)
    next
      fix s :: "nat \<times> 'a pool" and s1 :: uint64 assume s: "(case s of (t', q) \<Rightarrow> \<lambda>w. waited buf p q \<and> \<not> bit w 22) s1"
      then obtain t1 q where tq: "s = (t1, q)" "waited buf p q" "\<not> bit s1 22" by auto
      have q: "prc_inv (me q)" "reserved (me q)" "pin_inv buf (me q) (hdr q)" "keeps (pin_inv buf (me q)) E"
        "refs (me q) (BufferDescriptorGetBuffer buf) = None"
        using tq(2) Suc.prems by (simp_all add: waited_iff)
      let ?q = "q\<lparr>hdr := E t1 (hdr q)\<rparr>"
      show "outcome (\<lambda>(t', q) r. skip \<and> \<not> r \<and> waited buf p q \<or> first_pinned E d p q buf r) (\<lambda>_ _. False)
          (\<lambda>(t', q). waited buf p q) (pin_round fuel E buf d skip s s1)"
      proof (cases "E t1 (hdr q) buf = s1")
        case True
        from pin_swap [OF q True tq(3), of d] obtain m where
          "TrackNewBufferPin (BufferDescriptorGetBuffer buf) (me q) = Some m"
          "first_pinned E d q (q\<lparr>hdr := (E t1 (hdr q))(buf := pin_bump d s1), me := m\<rparr>) buf (pin_bump d s1 AND BM_VALID \<noteq> 0)" .
        then show ?thesis using True first_pinned_waited [OF tq(2)]
          by (simp add: pin_round_def tq(1) pg_atomic_compare_exchange_u64_def Let_def)
      next
        case False
        have o: "waited buf p ?q" using waited_trans [OF tq(2) waited_E [OF q(4,3)]] .
        have "outcome (\<lambda>(t', q) r. skip \<and> \<not> r \<and> waited buf ?q q \<or> first_pinned E d ?q q buf r) (\<lambda>_ _. False)
            (\<lambda>(t', q). waited buf ?q q) (PinBuffer_loop fuel E (Suc t1) ?q buf d skip (E t1 (hdr q) buf))"
          using o Suc.prems by (intro Suc.IH) (simp_all add: waited_iff)
        then have "outcome (\<lambda>(t', q) r. skip \<and> \<not> r \<and> waited buf p q \<or> first_pinned E d p q buf r) (\<lambda>_ _. False)
            (\<lambda>(t', q). waited buf p q) (PinBuffer_loop fuel E (Suc t1) ?q buf d skip (E t1 (hdr q) buf))"
          by (rule outcome_mono) (use waited_trans [OF o] first_pinned_waited [OF o] in auto)
        then show ?thesis using False by (simp add: pin_round_def tq(1) pg_atomic_compare_exchange_u64_def Let_def)
      qed
    qed auto
  qed
qed

lemma remember_buffer_simps [simp]:
  "refs (remember_buffer buf m) = refs m" "prc_inv (remember_buffer buf m) = prc_inv m"
  "owned_buffers (remember_buffer buf m) = BufferDescriptorGetBuffer buf # owned_buffers m"
  by (simp_all add: remember_buffer_def refs_def prc_inv_def fun_eq_iff Let_def)

lemma add_refcount_ok:
  assumes "prc_inv m" "ref_at m ref b"
  shows "prc_inv (add_refcount ref k m)" "ref_at (add_refcount ref k m) ref b"
    "refs (add_refcount ref k m) = (refs m)(b \<mapsto> (the (refs m b))\<lparr>refcount := refcount (the (refs m b)) + k\<rparr>)"
    "owned_buffers (add_refcount ref k m) = owned_buffers m"
    "entry_data (add_refcount ref k m) ref = (the (refs m b))\<lparr>refcount := refcount (the (refs m b)) + k\<rparr>"
  using set_entry_data_ok [OF assms] ref_at_refs [OF assms] by (simp_all add: add_refcount_def)

text \<open>The pins a backend records after one more pin.\<close>

definition more_pins :: "PrivateRefCountData option \<Rightarrow> PrivateRefCountData" where
  "more_pins r = (case r of None \<Rightarrow> first_pin | Some d \<Rightarrow> d\<lparr>refcount := refcount d + 1\<rparr>)"

definition pinned_again :: "interference \<Rightarrow> nat \<Rightarrow> 'p pool \<Rightarrow> 'p pool \<Rightarrow> nat \<Rightarrow> bool \<Rightarrow> bool" where
  "pinned_again E t p q buf valid \<longleftrightarrow>
     hdr q = E t (hdr p) \<and> valid = bit (hdr q buf) 24 \<and> refs (me p) (BufferDescriptorGetBuffer buf) \<noteq> None \<and>
     refs (me q) = (refs (me p))(BufferDescriptorGetBuffer buf \<mapsto> more_pins (refs (me p) (BufferDescriptorGetBuffer buf))) \<and>
     owned_buffers (me q) = BufferDescriptorGetBuffer buf # owned_buffers (me p) \<and>
     prc_inv (me q) \<and> own_pins (hdr q) (me q) \<and> rest_same p q \<and> latches q = latches p"

text \<open>Nothing but the words changed; the private table may have been rearranged.\<close>

definition same_pins :: "'p pool \<Rightarrow> 'p pool \<Rightarrow> bool" where
  "same_pins p q \<longleftrightarrow> refs (me q) = refs (me p) \<and> owned_buffers (me q) = owned_buffers (me p) \<and>
     prc_inv (me q) \<and> own_pins (hdr q) (me q) \<and> rest_same p q \<and> latches q = latches p"

lemma PinBuffer_ok:
  assumes p: "prc_inv (me p)" "reserved (me p)" "pin_inv buf (me p) (hdr p)" "keeps (pin_inv buf (me p)) E"
  shows "outcome (\<lambda>(t', q) r. first_pinned E d p q buf r \<or> pinned_again E t p q buf r \<or>
      skip \<and> \<not> r \<and> refs (me p) (BufferDescriptorGetBuffer buf) = None \<and> same_pins p q)
    (\<lambda>_ _. False) (\<lambda>(t', q). same_pins p q) (PinBuffer fuel E t p buf d skip)"
proof -
  let ?B = "BufferDescriptorGetBuffer buf"
  obtain r m where g: "GetPrivateRefCountEntry ?B True (me p) = Some (r, m)" "lookup_ok ?B (me p) (r, m)"
    using Get_ok [OF p(1) GetBuffer_not_Invalid] by blast
  have m: "prc_inv m" "refs m = refs (me p)" "owned_buffers m = owned_buffers (me p)" using g(2) by (auto simp: lookup_ok_def)
  have own: "pin_inv buf m (E t (hdr p))" "keeps (pin_inv buf m) E"
    using keepsD [OF p(4,3), of t] p(4) by (simp_all add: pin_inv_cong [OF m(2)])
  show ?thesis
  proof (cases r)
    case None
    then have none: "refs m ?B = None" "reserved m" using g(2) m(2) p(2) by (auto simp: lookup_ok_def)
    let ?p = "p\<lparr>hdr := E t (hdr p), me := m\<rparr>"
    have "outcome (\<lambda>(t', q) r. skip \<and> \<not> r \<and> waited buf ?p q \<or> first_pinned E d ?p q buf r) (\<lambda>_ _. False)
        (\<lambda>(t', q). waited buf ?p q) (PinBuffer_loop fuel E (Suc t) ?p buf d skip (E t (hdr p) buf))"
      using m(1) none own by (intro PinBuffer_loop_ok) auto
    moreover have "same_pins p q" if "waited buf ?p q" for q
      using that m by (auto simp: same_pins_def waited_iff rest_same_def pin_inv_def own_pins_def)
    moreover have "first_pinned E d p q buf v" if "first_pinned E d ?p q buf v" for q v
      using that m by (auto simp: first_pinned_def rest_same_def)
    ultimately show ?thesis
      using g(1) None none m by (auto simp: PinBuffer_def Let_def elim!: outcome_mono)
  next
    case (Some ref)
    then have ref: "ref_at m ref ?B" using g(2) by (simp add: lookup_ok_def)
    obtain dt where dt: "refs (me p) ?B = Some dt" using ref_at_refs [OF m(1) ref] m(2) by simp
    note a = add_refcount_ok [OF m(1) ref, of 1]
    have "own_pins (E t (hdr p)) (remember_buffer buf (add_refcount ref 1 m))"
      using own(1) a(3) dt m(2) by (auto simp: pin_inv_def own_pins_def split: if_splits)
    then show ?thesis
      using g(1) Some a m dt by (simp add: PinBuffer_def Let_def pinned_again_def rest_same_def more_pins_def)
  qed
qed

section \<open>Unpinning\<close>

lemma unpin_fields:
  assumes "BUF_STATE_GET_REFCOUNT s \<noteq> 0"
  shows "unat (BUF_STATE_GET_REFCOUNT (s - BUF_REFCOUNT_ONE)) = unat (BUF_STATE_GET_REFCOUNT s) - 1"
    "BUF_STATE_GET_USAGECOUNT (s - BUF_REFCOUNT_ONE) = BUF_STATE_GET_USAGECOUNT s"
    "18 \<le> k \<Longrightarrow> bit (s - BUF_REFCOUNT_ONE) k = bit s k"
proof -
  let ?s = "s - BUF_REFCOUNT_ONE"
  have s: "?s + BUF_REFCOUNT_ONE = s" by simp
  have nz: "unat s mod 2 ^ 18 \<noteq> 0" using assms unfolding unat_refcount [symmetric] by (simp add: unat_eq_zero)
  then have "s \<noteq> 0" by auto
  then have u: "unat ?s = unat s - 1" by (simp add: BUF_REFCOUNT_ONE_def unat_minus_one)
  have "unat s = Suc (unat ?s)" using \<open>s \<noteq> 0\<close> unfolding u by (simp add: unat_gt_0)
  then have "unat ?s mod 2 ^ 18 + 1 < 2 ^ 18" using nz by (auto simp: mod_Suc split: if_splits)
  then have r: "unat (BUF_STATE_GET_REFCOUNT ?s) + 1 < 2 ^ 18" unfolding unat_refcount .
  show "unat (BUF_STATE_GET_REFCOUNT ?s) = unat (BUF_STATE_GET_REFCOUNT s) - 1"
    using pin_refcount [OF r] unfolding s by simp
  show "BUF_STATE_GET_USAGECOUNT ?s = BUF_STATE_GET_USAGECOUNT s" using pin_usagecount [OF r] unfolding s by simp
  show "18 \<le> k \<Longrightarrow> bit ?s k = bit s k" using pin_flags [OF r, of k] unfolding s by simp
qed

lemma own_pins_unpin:
  assumes "own_pins st m" "refs m' = (refs m)(BufferDescriptorGetBuffer buf := None)"
  shows "own_pins (st(buf := w)) m'"
  using assms by (auto simp: own_pins_def)

lemma owned_update [simp]:
  "refs (m\<lparr>owned_buffers := xs\<rparr>) = refs m" "prc_inv (m\<lparr>owned_buffers := xs\<rparr>) = prc_inv m"
  by (simp_all add: refs_def prc_inv_def fun_eq_iff Let_def)

text \<open>
  Giving back a pin when nobody waits for the pin count: a pin of several is counted down in the
  private table only; the last one is taken off the shared word, in one atomic step.
\<close>

lemma UnpinBuffer_ok:
  assumes p: "prc_inv (me p)" "own_pins (hdr p) (me p)" "respects_pins (me p) E"
    and d: "refs (me p) (BufferDescriptorGetBuffer buf) = Some dt" "0 < refcount dt" "BufferDescriptorGetBuffer buf \<in> set (owned_buffers (me p))"
    and last: "refcount dt = 1 \<longrightarrow> lockmode dt = BUFFER_LOCK_UNLOCK \<and> \<not> bit (E t (hdr p) buf) 29"
  obtains t' q where "UnpinBuffer np wb fuel E t p buf = Done (t', q) ()"
    "refs (me q) = (refs (me p))(BufferDescriptorGetBuffer buf :=
       (if refcount dt = 1 then None else Some (dt\<lparr>refcount := refcount dt - 1\<rparr>)))"
    "owned_buffers (me q) = remove1 (BufferDescriptorGetBuffer buf) (owned_buffers (me p))"
    "hdr q = (if refcount dt = 1 then (E t (hdr p))(buf := E t (hdr p) buf - BUF_REFCOUNT_ONE) else hdr p)"
    "prc_inv (me q)" "own_pins (hdr q) (me q)" "rest_same p q" "latches q = latches p"
proof -
  let ?B = "BufferDescriptorGetBuffer buf"
  let ?p = "p\<lparr>me := (me p)\<lparr>owned_buffers := remove1 ?B (owned_buffers (me p))\<rparr>\<rparr>"
  obtain r m where g: "GetPrivateRefCountEntry ?B False (me ?p) = Some (r, m)" "lookup_ok ?B (me ?p) (r, m)"
    using Get_ok [of "me ?p" ?B] p(1) by auto
  have m: "prc_inv m" "refs m = refs (me p)" "owned_buffers m = remove1 ?B (owned_buffers (me p))"
    using g(2) by (auto simp: lookup_ok_def)
  obtain ref where r: "r = Some ref" "ref_at m ref ?B" using g(2) d(1) by (cases r) (auto simp: lookup_ok_def)
  have e: "entry_data m ref = dt" using ref_at_refs [OF m(1) r(2)] m(2) d(1) by simp
  note a = add_refcount_ok [OF m(1) r(2), of "-1"]
  have a3: "refs (add_refcount ref (-1) m) = (refs (me p))(?B \<mapsto> dt\<lparr>refcount := refcount dt - 1\<rparr>)"
    using a(3) m(2) d(1) by simp
  note f = Forget_ok [OF a(1,2)]
  show ?thesis
  proof (cases "refcount dt = 1")
    case False
    have "own_pins (hdr p) (add_refcount ref (-1) m)" using p(2) d(1) a3 by (auto simp: own_pins_def split: if_splits)
    then show ?thesis using False g(1) r(1) e d(2,3) a a3 m d(1)
      by (intro that [of t "?p\<lparr>me := add_refcount ref (-1) m\<rparr>"])
        (auto simp: UnpinBuffer_def UnpinBufferNoOwner_def Let_def rest_same_def)
  next
    case True
    let ?st = "(E t (hdr p))(buf := E t (hdr p) buf - BUF_REFCOUNT_ONE)"
    let ?m = "ForgetPrivateRefCountEntry ref (add_refcount ref (-1) m)"
    have fr: "refs ?m = (refs (me p))(?B := None)" using f(2) a3 by simp
    have "own_pins ?st ?m" by (rule own_pins_unpin [OF own_pins_respected [OF p(3,2)] fr])
    then show ?thesis using True g(1) r(1) e d a m f(1,3) fr last
      by (intro that [of "Suc t" "?p\<lparr>hdr := ?st, me := ?m\<rparr>"])
        (auto simp: UnpinBuffer_def UnpinBufferNoOwner_def Let_def rest_same_def pg_atomic_fetch_sub_u64_def)
  qed
qed

text \<open>
  The waiter for a pin count of one is signalled by whoever takes the last other pin off, and only
  then; the flag is cleared with it.
\<close>

lemma word_unlock_waiter:
  "\<not> bit s 22 \<Longrightarrow> unlock_bits 0 BM_PIN_COUNT_WAITER 0 (s OR BM_LOCKED) = s AND NOT BM_PIN_COUNT_WAITER"
  by (auto simp: unlock_bits_def intro!: bit_eqI simp: bit_simps flag_bits)

lemma refcount_locked [simp]: "BUF_STATE_GET_REFCOUNT (s OR BM_LOCKED) = BUF_STATE_GET_REFCOUNT s"
  by (rule refcount_cong) (auto simp: bit_simps flag_bits)

lemma WakePinCountWaiter_quiet:
  assumes "\<not> bit (hdr p buf) 22"
  shows "WakePinCountWaiter np wb (Suc n) quiet t p buf =
    (if bit (hdr p buf) 29 \<and> BUF_STATE_GET_REFCOUNT (hdr p buf) = 1
     then ProcSendSignal np (wb buf) (t + 2) (p\<lparr>hdr := (hdr p)(buf := hdr p buf AND NOT BM_PIN_COUNT_WAITER)\<rparr>)
     else Done (t + 2, p) ())"
  using assms lock_unlock [OF assms]
  by (simp add: WakePinCountWaiter_def on_hdr_def quiet_def pg_atomic_fetch_or_u64_def pg_atomic_compare_exchange_u64_def
      UnlockBufHdr_def pg_atomic_fetch_sub_u64_def word_unlock_waiter bit_simps flag_bits)

text \<open>\<open>MarkBufferDirty\<close> sets its two flags in one step on a word nobody has locked.\<close>

lemma MarkBufferDirty_loop_atomic:
  "MarkBufferDirty_loop fuel E t st buf old = Done (t', st') clean \<Longrightarrow>
    \<exists>u st0. \<not> bit (E u st0 buf) 22 \<and> st' = (E u st0)(buf := E u st0 buf OR (BM_DIRTY OR BM_JUST_DIRTIED)) \<and>
      clean = (\<not> bit (E u st0 buf) 23)"
proof (induction fuel arbitrary: t st old)
  case (Suc fuel)
  have step: "\<exists>u st0. \<not> bit (E u st0 buf) 22 \<and> st' = (E u st0)(buf := E u st0 buf OR (BM_DIRTY OR BM_JUST_DIRTIED)) \<and>
      clean = (\<not> bit (E u st0 buf) 23)"
    if "\<not> bit w 22" "(let (success, found, st) = pg_atomic_compare_exchange_u64 (E t1 st1) buf w (w OR (BM_DIRTY OR BM_JUST_DIRTIED))
          in if success then Done (Suc t1, st) (w AND BM_DIRTY = 0) else MarkBufferDirty_loop fuel E (Suc t1) st buf found) =
        Done (t', st') clean" for t1 st1 w
  proof (cases "E t1 st1 buf = w")
    case True
    then show ?thesis using that by (intro exI [of _ t1] exI [of _ st1]) (auto simp: pg_atomic_compare_exchange_u64_def)
  next
    case False
    then show ?thesis using that(2) by (intro Suc.IH) (simp add: pg_atomic_compare_exchange_u64_def)
  qed
  show ?case
  proof (cases "bit old 22")
    case True
    then obtain t1 st1 w where w: "WaitBufHdrUnlocked fuel E t st buf = Done (t1, st1) w"
      using Suc.prems by (cases "WaitBufHdrUnlocked fuel E t st buf") auto
    then have "\<not> bit w 22" using WaitBufHdrUnlocked_unlocked by blast
    then show ?thesis using Suc.prems True w by (intro step [of w t1 st1]) simp_all
  next
    case False
    then show ?thesis using Suc.prems by (intro step [OF False, of t st]) simp
  qed
qed simp

section \<open>The pin loop ends\<close>

text \<open>From access \<open>T\<close> on the other processes leave the header lock free and an unlocked word alone.\<close>

definition calm_from :: "nat \<Rightarrow> interference \<Rightarrow> nat \<Rightarrow> bool" where
  "calm_from T E b \<longleftrightarrow> (\<forall>t st. T \<le> t \<longrightarrow> \<not> bit (E t st b) 22 \<and> (\<not> bit (st b) 22 \<longrightarrow> E t st b = st b))"

lemma calm_lock_free: "calm_from T E b \<Longrightarrow> lock_free_from T E b"
  by (simp add: calm_from_def lock_free_from_def)

lemma PinBuffer_loop_ends:
  assumes c: "calm_from T E buf" and m: "TrackNewBufferPin (BufferDescriptorGetBuffer buf) m = Some m'"
  shows "T - t + 1 < fuel \<Longrightarrow> me p = m \<Longrightarrow> old = hdr p buf \<Longrightarrow> \<exists>x r. PinBuffer_loop fuel E t p buf d skip old = Done x r"
proof (induction fuel arbitrary: t p old)
  case (Suc fuel)
  have round: "\<exists>x r. pin_round fuel E buf d skip (t1, q) s = Done x r"
    if "t \<le> t1" "me q = m" "s = hdr q buf" "\<not> bit s 22" for t1 and q :: "'a pool" and s
  proof (cases "E t1 (hdr q) buf = s")
    case True
    then show ?thesis using m that(2) by (simp add: pin_round_def pg_atomic_compare_exchange_u64_def Let_def)
  next
    case False
    then have "t1 < T" using c that(3,4) by (metis calm_from_def linorder_not_less)
    then have "T - Suc t1 + 1 < fuel" using Suc.prems(1) that(1) by linarith
    then have "\<exists>x r. PinBuffer_loop fuel E (Suc t1) (q\<lparr>hdr := E t1 (hdr q)\<rparr>) buf d skip (E t1 (hdr q) buf) = Done x r"
      using that(2) by (intro Suc.IH) simp_all
    then show ?thesis using False by (simp add: pin_round_def pg_atomic_compare_exchange_u64_def Let_def)
  qed
  show ?case
  proof (cases "skip \<and> old AND BM_VALID = 0")
    case False
    show ?thesis
    proof (cases "bit old 22")
      case True
      have "T - t < fuel" using Suc.prems(1) by linarith
      then obtain t1 st1 where w: "WaitBufHdrUnlocked fuel E t (hdr p) buf = Done (t1, st1) (st1 buf)" "t < t1"
        using WaitBufHdrUnlocked_ends [OF calm_lock_free [OF c]] by blast
      then have "\<not> bit (st1 buf) 22" using WaitBufHdrUnlocked_unlocked by blast
      then show ?thesis using round [of t1 "p\<lparr>hdr := st1\<rparr>" "st1 buf"] w True Suc.prems(2)
        unfolding PinBuffer_loop_Suc if_not_P [OF False] by (simp add: on_hdr_def)
    next
      case unl: False
      then show ?thesis using round [of t p old] Suc.prems(2,3) unfolding PinBuffer_loop_Suc if_not_P [OF False] by simp
    qed
  next
    case True
    then show ?thesis unfolding PinBuffer_loop_Suc if_P [OF True] by blast
  qed
qed simp

lemma PinBuffer_ends:
  assumes "prc_inv (me p)" "reserved (me p)" "calm_from T E buf" "T - t + 1 < fuel"
  shows "\<exists>x r. PinBuffer fuel E t p buf d skip = Done x r"
proof -
  let ?B = "BufferDescriptorGetBuffer buf"
  obtain r m where g: "GetPrivateRefCountEntry ?B True (me p) = Some (r, m)" "lookup_ok ?B (me p) (r, m)"
    using Get_ok [OF assms(1) GetBuffer_not_Invalid] by blast
  show ?thesis
  proof (cases r)
    case None
    then have n: "prc_inv m" "reserved m" "refs m ?B = None" using g(2) assms(2) by (auto simp: lookup_ok_def)
    then obtain m' where m': "TrackNewBufferPin ?B m = Some m'" using Track_ok [OF n(1,2) GetBuffer_not_Invalid n(3)] by blast
    have "T - Suc t + 1 < fuel" using assms(4) by linarith
    then show ?thesis
      using PinBuffer_loop_ends [OF assms(3) m', of "Suc t" fuel "p\<lparr>hdr := E t (hdr p), me := m\<rparr>"] g(1) None
      by (simp add: PinBuffer_def Let_def)
  qed (use g(1) in \<open>simp add: PinBuffer_def Let_def\<close>)
qed

lemma fresh_backend_owned: "owned_buffers fresh_backend = []"
  using Reserve_ok(4) [OF InitPrivateRefCount_inv(1)] by (simp add: fresh_backend_def InitPrivateRefCount_def)

text \<open>The other processes clear a header lock they hold and do nothing else.\<close>

definition unlocking :: interference where
  "unlocking = (\<lambda>t st b. st b AND NOT BM_LOCKED)"

lemma unlocking_refcount [simp]: "BUF_STATE_GET_REFCOUNT (unlocking t st b) = BUF_STATE_GET_REFCOUNT (st b)"
  by (rule refcount_cong) (auto simp: unlocking_def bit_simps flag_bits)

lemma unlocking_calm: "calm_from 0 unlocking b"
proof -
  have "s AND NOT BM_LOCKED = s" if "\<not> bit s 22" for s :: uint64
    using that by (intro bit_eqI) (auto simp: bit_simps flag_bits)
  then show ?thesis by (auto simp: calm_from_def unlocking_def bit_simps flag_bits)
qed

section \<open>Properties\<close>

text \<open>
  C13: PinBuffer pins exactly once. Whatever other backends do to the header words, as long as they keep
  this backend's pins and the reference count has room, a call either is still retrying, with
  nothing changed for this backend, or returns with one more pin in the private table and
  in the resource owner. A first pin is one atomic update of a word that was not locked: one more
  reference, the usage count raised by the rule of the strategy, every flag and the content lock
  untouched, and the result is the valid flag of that word; a further pin does not touch the word.
  Every pin in the table stays backed by a nonzero reference count, and the call returns
  once the others leave the word alone.
\<close>

theorem PinBuffer_counts:
  assumes "prc_inv (me p)" "reserved (me p)" "pin_inv buf (me p) (hdr p)" "keeps (pin_inv buf (me p)) E"
  shows "(case PinBuffer fuel E t p buf d False of
       Done (t', q) valid \<Rightarrow>
         prc_inv (me q) \<and> own_pins (hdr q) (me q) \<and> rest_same p q \<and> latches q = latches p \<and>
         refs (me q) = (refs (me p))(BufferDescriptorGetBuffer buf \<mapsto> more_pins (refs (me p) (BufferDescriptorGetBuffer buf))) \<and>
         owned_buffers (me q) = BufferDescriptorGetBuffer buf # owned_buffers (me p) \<and>
         (if refs (me p) (BufferDescriptorGetBuffer buf) = None
          then \<exists>u st. hdr q = (E u st)(buf := hdr q buf) \<and> \<not> bit (E u st buf) 22 \<and> valid = bit (E u st buf) 24 \<and>
            unat (BUF_STATE_GET_REFCOUNT (hdr q buf)) = unat (BUF_STATE_GET_REFCOUNT (E u st buf)) + 1 \<and>
            unat (BUF_STATE_GET_USAGECOUNT (hdr q buf)) = bumped d (unat (BUF_STATE_GET_USAGECOUNT (E u st buf))) \<and>
            (\<forall>k \<ge> 22. bit (hdr q buf) k = bit (E u st buf) k)
          else hdr q = E t (hdr p) \<and> valid = bit (hdr q buf) 24)
     | Raise _ _ \<Rightarrow> False | Spin (t', q) \<Rightarrow> same_pins p q | Crash \<Rightarrow> False) \<and>
    (calm_from T E buf \<longrightarrow> T - t + 1 < fuel \<longrightarrow> (\<exists>x r. PinBuffer fuel E t p buf d False = Done x r))"
proof -
  have f: "\<exists>u st. hdr q = (E u st)(buf := hdr q buf) \<and> \<not> bit (E u st buf) 22 \<and> v = bit (E u st buf) 24 \<and>
            unat (BUF_STATE_GET_REFCOUNT (hdr q buf)) = unat (BUF_STATE_GET_REFCOUNT (E u st buf)) + 1 \<and>
            unat (BUF_STATE_GET_USAGECOUNT (hdr q buf)) = bumped d (unat (BUF_STATE_GET_USAGECOUNT (E u st buf))) \<and>
            (\<forall>k \<ge> 22. bit (hdr q buf) k = bit (E u st buf) k)"
    if fp: "first_pinned E d p q buf v" for q v
  proof -
    obtain u st where us: "hdr q = (E u st)(buf := pin_bump d (E u st buf))" "\<not> bit (E u st buf) 22" "v = bit (E u st buf) 24"
      "unat (BUF_STATE_GET_REFCOUNT (E u st buf)) + 1 < 2 ^ 18"
      using fp by (auto simp: first_pinned_def pin_room_def)
    note pin_bump_fields [OF us(4), where d = d]
    then show ?thesis using us by (intro exI [of _ u] exI [of _ st]) simp
  qed
  show ?thesis
    using PinBuffer_ok [OF assms, where fuel = fuel and t = t and d = d and skip = False]
      PinBuffer_ends [OF assms(1,2), where T = T and E = E and buf = buf and t = t and fuel = fuel and d = d and skip = False] f
    by (cases "PinBuffer fuel E t p buf d False")
      (fastforce simp: first_pinned_def pinned_again_def more_pins_def)+
qed

theorem PinBuffer_counts_witness:
  "\<exists>x r. PinBuffer 3 unlocking 0 (fresh_pool (\<lambda>_. 0x1480003) ()) 4 True False = Done x r \<and>
     (case x of (t, q) \<Rightarrow> refs (me q) = [5 \<mapsto> first_pin] \<and> own_pins (hdr q) (me q))"
proof -
  let ?p = "fresh_pool (\<lambda>_. 0x1480003) ()"
  have inv: "pin_inv 4 (me ?p) (hdr ?p)" "keeps (pin_inv 4 (me ?p)) unlocking"
    using fresh_backend_ok by (auto simp: pin_inv_def keeps_def pin_room_def own_pins_def unat_refcount unlocking_refcount)
  show ?thesis
    using PinBuffer_counts [OF _ _ inv, where fuel = 3 and t = 0 and T = 0 and d = True] fresh_backend_ok unlocking_calm
    by (auto simp: more_pins_def BufferDescriptorGetBuffer_def)
qed



text \<open>
  C39: what a false result of PinBuffer with skip_if_not_valid does not say. The header comment, and
  ReadRecentBuffer, take it that the buffer then was not pinned. But the valid flag is tested
  before the wait for the header lock and not again after it: if the lock holder invalidates
  the buffer, PinBuffer pins it and returns false. And a buffer that this backend has pinned
  already and whose page is not valid is pinned once more, again with the result false. Either way the
  pin stays in the private table and in the resource owner, and the caller does not know of it.
\<close>

theorem PinBuffer_skip_leaks:
  assumes p: "prc_inv (me p)" "reserved (me p)"
    and first: "refs (me p) (BufferDescriptorGetBuffer buf) = None"
      "bit (E t (hdr p) buf) 22" "bit (E t (hdr p) buf) 24"
      "E (Suc t) (E t (hdr p)) buf = w" "\<not> bit w 22" "\<not> bit w 24" "unat (BUF_STATE_GET_REFCOUNT w) + 1 < 2 ^ 18"
      "E (Suc (Suc t)) (E (Suc t) (E t (hdr p))) buf = w"
    and again: "prc_inv (me p')" "refs (me p') (BufferDescriptorGetBuffer buf') = Some dt" "\<not> bit (E' t' (hdr p') buf') 24"
  shows "(\<exists>q. PinBuffer (Suc (Suc n)) E t p buf d True = Done (t + 3, q) False \<and>
      refs (me q) (BufferDescriptorGetBuffer buf) = Some first_pin \<and>
      owned_buffers (me q) = BufferDescriptorGetBuffer buf # owned_buffers (me p) \<and>
      unat (BUF_STATE_GET_REFCOUNT (hdr q buf)) = unat (BUF_STATE_GET_REFCOUNT w) + 1) \<and>
    (\<exists>q. PinBuffer n' E' t' p' buf' d' True = Done (Suc t', q) False \<and>
      refs (me q) (BufferDescriptorGetBuffer buf') = Some (dt\<lparr>refcount := refcount dt + 1\<rparr>) \<and>
      owned_buffers (me q) = BufferDescriptorGetBuffer buf' # owned_buffers (me p'))"
proof
  let ?B = "BufferDescriptorGetBuffer buf"
  obtain r m where g: "GetPrivateRefCountEntry ?B True (me p) = Some (r, m)" "lookup_ok ?B (me p) (r, m)"
    using Get_ok [OF p(1) GetBuffer_not_Invalid] by blast
  then have m: "r = None" "prc_inv m" "reserved m" "refs m = refs (me p)" "owned_buffers m = owned_buffers (me p)"
    using p(2) first(1) ref_at_refs [of m _ ?B] by (auto simp: lookup_ok_def split: option.splits)
  obtain m' where m': "TrackNewBufferPin ?B m = Some m'" "refs m' = (refs m)(?B \<mapsto> \<lparr>refcount = 1, lockmode = BUFFER_LOCK_UNLOCK\<rparr>)"
    "owned_buffers m' = ?B # owned_buffers m"
    using Track_ok [OF m(2,3) GetBuffer_not_Invalid] first(1) m(4) by metis
  have "\<not> bit (pin_bump d w) 24" using pin_bump_fields(3) [OF first(7)] first(6) by simp
  then have "PinBuffer (Suc (Suc n)) E t p buf d True =
      Done (t + 3, p\<lparr>hdr := (E (Suc (Suc t)) (E (Suc t) (E t (hdr p))))(buf := pin_bump d w), me := m'\<rparr>) False"
    using g(1) m(1) m'(1) first(2-8)
    by (simp add: PinBuffer_def PinBuffer_loop_Suc pin_round_def on_hdr_def Let_def pg_atomic_compare_exchange_u64_def)
  then show "\<exists>q. PinBuffer (Suc (Suc n)) E t p buf d True = Done (t + 3, q) False \<and> refs (me q) ?B = Some first_pin \<and>
      owned_buffers (me q) = ?B # owned_buffers (me p) \<and>
      unat (BUF_STATE_GET_REFCOUNT (hdr q buf)) = unat (BUF_STATE_GET_REFCOUNT w) + 1"
    using m' m(4,5) pin_bump_fields(1) [OF first(7)] by (auto simp: first_pin_def)
next
  let ?B = "BufferDescriptorGetBuffer buf'"
  obtain r m where g: "GetPrivateRefCountEntry ?B True (me p') = Some (r, m)" "lookup_ok ?B (me p') (r, m)"
    using Get_ok [OF again(1) GetBuffer_not_Invalid] by blast
  then obtain ref where r: "r = Some ref" "ref_at m ref ?B" and m: "prc_inv m" "refs m = refs (me p')"
      "owned_buffers m = owned_buffers (me p')"
    using again(2) by (cases r) (auto simp: lookup_ok_def)
  then show "\<exists>q. PinBuffer n' E' t' p' buf' d' True = Done (Suc t', q) False \<and>
      refs (me q) ?B = Some (dt\<lparr>refcount := refcount dt + 1\<rparr>) \<and> owned_buffers (me q) = ?B # owned_buffers (me p')"
    using g(1) again(2,3) add_refcount_ok [OF m(1) r(2), of 1] by (simp add: PinBuffer_def Let_def)
qed

theorem PinBuffer_skip_leaks_witness:
  "\<exists>m. TrackNewBufferPin 5 fresh_backend = Some m \<and>
    (\<exists>q. PinBuffer (Suc (Suc 0)) (\<lambda>t st. st(4 := (if t = 0 then BM_LOCKED OR BM_VALID else 0))) 0 (fresh_pool (\<lambda>_. 0) ()) 4 True True =
        Done (3, q) False \<and> refs (me q) 5 = Some first_pin \<and> unat (BUF_STATE_GET_REFCOUNT (hdr q 4)) = 1) \<and>
    (\<exists>q. PinBuffer 2 quiet 0 ((fresh_pool (\<lambda>_. 1) ())\<lparr>me := m\<rparr>) 4 True True = Done (1, q) False \<and>
      refs (me q) 5 = Some \<lparr>refcount = 2, lockmode = BUFFER_LOCK_UNLOCK\<rparr>)"
proof -
  obtain m where m: "TrackNewBufferPin 5 fresh_backend = Some m" "prc_inv m" "refs m = [5 \<mapsto> first_pin]"
    using Track_ok [of fresh_backend 5] fresh_backend_ok by (auto simp: first_pin_def InvalidBuffer_def)
  show ?thesis
    using PinBuffer_skip_leaks [where p = "fresh_pool (\<lambda>_. 0) ()" and buf = 4 and t = 0 and n = 0 and n' = 2 and w = 0
        and E = "\<lambda>t st. st(4 := (if t = 0 then BM_LOCKED OR BM_VALID else 0))" and d = True and d' = True
        and p' = "(fresh_pool (\<lambda>_. 1) ())\<lparr>me := m\<rparr>" and buf' = 4 and E' = quiet and t' = 0 and dt = first_pin]
      m fresh_backend_ok
    by (auto simp: BufferDescriptorGetBuffer_def quiet_def bit_simps flag_bits first_pin_def unat_refcount bit_1_iff)
qed

end
