(* ===== verification/Buffer_IO.thy ===== *)
theory Buffer_IO
  imports Buffer_Pin
begin

unbundle bit_operations_syntax

text \<open>
  Buffer I/O: \<^verbatim>\<open>StartBufferIO\<close>, \<^verbatim>\<open>WaitIO\<close>, \<^verbatim>\<open>TerminateBufferIO\<close>, \<^verbatim>\<open>AbortBufferIO\<close> and \<^verbatim>\<open>FlushBuffer\<close> of
  \<^verbatim>\<open>bufmgr.c\<close>. The first part models the routines under interference on the state words. The second
  part is a transition system of any number of backends that change, dirty and write one page, in
  which the protocol of the flags \<^const>\<open>BM_DIRTY\<close>, \<^const>\<open>BM_JUST_DIRTIED\<close> and \<^const>\<open>BM_IO_IN_PROGRESS\<close> is verified.
\<close>

section \<open>The routines\<close>

text \<open>
  \<open>WaitIO\<close> sleeps until an I/O ends; a sleep is over when another process ends it, so a round of the
  loop is one look at the word.
\<close>

fun WaitIO :: "nat \<Rightarrow> interference \<Rightarrow> nat \<Rightarrow> 'p pool \<Rightarrow> nat \<Rightarrow> (nat \<times> 'p pool, unit) run" where
  "WaitIO 0 E t p buf = Spin (t, p)"
| "WaitIO (Suc fuel) E t p buf =
     andThen (on_hdr p (LockBufHdr fuel E t (hdr p) buf))
       (\<lambda>(t, p) buf_state. case UnlockBufHdr E t (hdr p) buf of (t, st) \<Rightarrow>
          (let p = p\<lparr>hdr := st\<rparr>
           in if buf_state AND BM_IO_IN_PROGRESS = 0 then Done (t, p) () else WaitIO fuel E t p buf))"

text \<open>The loop of \<open>StartBufferIO\<close>: the locked word without I/O in progress, or nothing if it must not wait.\<close>

fun StartBufferIO_loop ::
    "nat \<Rightarrow> interference \<Rightarrow> nat \<Rightarrow> 'p pool \<Rightarrow> nat \<Rightarrow> bool \<Rightarrow> (nat \<times> 'p pool, uint64 option) run" where
  "StartBufferIO_loop 0 E t p buf nowait = Spin (t, p)"
| "StartBufferIO_loop (Suc fuel) E t p buf nowait =
     andThen (on_hdr p (LockBufHdr fuel E t (hdr p) buf))
       (\<lambda>(t, p) buf_state.
          if buf_state AND BM_IO_IN_PROGRESS = 0 then Done (t, p) (Some buf_state)
          else case UnlockBufHdr E t (hdr p) buf of (t, st) \<Rightarrow>
            (let p = p\<lparr>hdr := st\<rparr>
             in if nowait then Done (t, p) None
                else andThen (WaitIO fuel E t p buf) (\<lambda>(t, p) _. StartBufferIO_loop fuel E t p buf nowait)))"

text \<open>Is the work already done?\<close>

definition io_done :: "bool \<Rightarrow> uint64 \<Rightarrow> bool" where
  "io_done forInput buf_state = (if forInput then buf_state AND BM_VALID \<noteq> 0 else buf_state AND BM_DIRTY = 0)"

text \<open>The resource owner's list of buffer I/Os is passed and returned.\<close>

definition StartBufferIO ::
    "nat \<Rightarrow> interference \<Rightarrow> nat \<Rightarrow> 'p pool \<Rightarrow> Buffer list \<Rightarrow> nat \<Rightarrow> bool \<Rightarrow> bool \<Rightarrow> (nat \<times> 'p pool, bool \<times> Buffer list) run" where
  "StartBufferIO fuel E t p ios buf forInput nowait =
     andThen (StartBufferIO_loop fuel E t p buf nowait)
       (\<lambda>(t, p) r. case r of
            None \<Rightarrow> Done (t, p) (False, ios)
          | Some buf_state \<Rightarrow>
              if io_done forInput buf_state
              then (case UnlockBufHdr E t (hdr p) buf of (t, st) \<Rightarrow> Done (t, p\<lparr>hdr := st\<rparr>) (False, ios))
              else andThen (on_hdr p (UnlockBufHdrExt fuel E t (hdr p) buf buf_state BM_IO_IN_PROGRESS 0 0))
                     (\<lambda>(t, p) _. Done (t, p) (True, BufferDescriptorGetBuffer buf # ios)))"

text \<open>The flags \<open>TerminateBufferIO\<close> clears.\<close>

definition terminate_unset :: "bool \<Rightarrow> uint64 \<Rightarrow> uint64" where
  "terminate_unset clear_dirty buf_state =
     (let unset_flag_bits = BM_IO_IN_PROGRESS OR BM_IO_ERROR
      in if clear_dirty \<and> buf_state AND BM_JUST_DIRTIED = 0
         then unset_flag_bits OR (BM_DIRTY OR BM_CHECKPOINT_NEEDED) else unset_flag_bits)"

definition TerminateBufferIO ::
    "int \<Rightarrow> (nat \<Rightarrow> int) \<Rightarrow> nat \<Rightarrow> interference \<Rightarrow> nat \<Rightarrow> 'p pool \<Rightarrow> Buffer list \<Rightarrow> nat \<Rightarrow> bool \<Rightarrow> uint64 \<Rightarrow> bool \<Rightarrow> bool
     \<Rightarrow> (nat \<times> 'p pool, Buffer list) run" where
  "TerminateBufferIO allProcCount wait_backend fuel E t p ios buf clear_dirty set_flag_bits forget_owner release_aio =
     andThen (on_hdr p (LockBufHdr fuel E t (hdr p) buf))
       (\<lambda>(t, p) buf_state.
          if buf_state AND BM_IO_IN_PROGRESS = 0 \<or> release_aio \<and> BUF_STATE_GET_REFCOUNT buf_state = 0 then Crash
          else andThen (on_hdr p (UnlockBufHdrExt fuel E t (hdr p) buf buf_state set_flag_bits
                 (terminate_unset clear_dirty buf_state) (if release_aio then -1 else 0)))
            (\<lambda>(t, p) buf_state.
               if forget_owner \<and> BufferDescriptorGetBuffer buf \<notin> set ios then Raise (t, p) BufferIONotOwned
               else let ios = (if forget_owner then remove1 (BufferDescriptorGetBuffer buf) ios else ios)
               in andThen (if release_aio \<and> buf_state AND BM_PIN_COUNT_WAITER \<noteq> 0
                           then WakePinCountWaiter allProcCount wait_backend fuel E t p buf else Done (t, p) ())
                    (\<lambda>s _. Done s ios)))"

definition AbortBufferIO ::
    "int \<Rightarrow> (nat \<Rightarrow> int) \<Rightarrow> nat \<Rightarrow> interference \<Rightarrow> nat \<Rightarrow> 'p pool \<Rightarrow> Buffer list \<Rightarrow> nat \<Rightarrow> (nat \<times> 'p pool, Buffer list) run" where
  "AbortBufferIO allProcCount wait_backend fuel E t p ios buf =
     andThen (on_hdr p (LockBufHdr fuel E t (hdr p) buf))
       (\<lambda>(t, p) buf_state. case UnlockBufHdr E t (hdr p) buf of (t, st) \<Rightarrow>
          (if buf_state AND (BM_IO_IN_PROGRESS OR BM_TAG_VALID) = 0 \<or>
              (buf_state AND BM_VALID = 0) \<noteq> (buf_state AND BM_DIRTY = 0) then Crash
           else TerminateBufferIO allProcCount wait_backend fuel E t (p\<lparr>hdr := st\<rparr>) ios buf False BM_IO_ERROR False False))"

text \<open>
  What \<open>FlushBuffer\<close> does outside the state words, in order: it flushes the write-ahead log up to a
  position, and it writes the page.
\<close>

datatype flush_event = XLogFlush uint64 | SmgrWrite BufferTag

definition FlushBuffer ::
    "int \<Rightarrow> (nat \<Rightarrow> int) \<Rightarrow> (nat \<Rightarrow> BufferTag) \<Rightarrow> (nat \<Rightarrow> uint64) \<Rightarrow> nat \<Rightarrow> interference \<Rightarrow> nat \<Rightarrow> 'p pool \<Rightarrow> Buffer list \<Rightarrow> nat
     \<Rightarrow> (nat \<times> 'p pool, Buffer list \<times> flush_event list) run" where
  "FlushBuffer allProcCount wait_backend tags page_lsn fuel E t p ios buf =
     andThen (StartBufferIO fuel E t p ios buf False False)
       (\<lambda>(t, p) (started, ios).
          if \<not> started then Done (t, p) (ios, [])
          else andThen (on_hdr p (LockBufHdr fuel E t (hdr p) buf))
            (\<lambda>(t, p) buf_state.
               let recptr = page_lsn buf
               in andThen (on_hdr p (UnlockBufHdrExt fuel E t (hdr p) buf buf_state 0 BM_JUST_DIRTIED 0))
                 (\<lambda>(t, p) _.
                    let events = (if buf_state AND BM_PERMANENT \<noteq> 0 then [XLogFlush recptr] else []) @ [SmgrWrite (tags buf)]
                    in andThen (TerminateBufferIO allProcCount wait_backend fuel E t p ios buf True 0 True False)
                         (\<lambda>s ios. Done s (ios, events)))))"

section \<open>Backends and one page\<close>

text \<open>
  A backend's place while it changes or writes the page. \<open>Changed\<close>: it has changed the page in memory
  and not yet marked the buffer dirty. The others follow \<open>FlushBuffer\<close>: the I/O is started,
  \<^const>\<open>BM_JUST_DIRTIED\<close> is cleared, the page is copied for the write, the copy is on disk.
  A section under the header lock is one step, since the lock excludes the others.
\<close>

datatype io_pc = Idle | Changed | Started | Cleared | Copied nat | Written

record page_sys =
  flags :: uint64
  content :: nat
  disk :: nat
  io :: "nat \<Rightarrow> io_pc"

definition set_io :: "nat \<Rightarrow> io_pc \<Rightarrow> page_sys \<Rightarrow> page_sys" where
  "set_io i c s = s\<lparr>io := (io s)(i := c)\<rparr>"

inductive page_step :: "page_sys \<Rightarrow> page_sys \<Rightarrow> bool" where
  change: "io s i = Idle \<Longrightarrow> page_step s (set_io i Changed (s\<lparr>content := v\<rparr>))"
| mark_dirty: "io s i = Changed \<Longrightarrow>
    page_step s (set_io i Idle (s\<lparr>flags := flags s OR (BM_DIRTY OR BM_JUST_DIRTIED)\<rparr>))"
| mark_hint_skip: "io s i = Changed \<Longrightarrow> flags s AND (BM_DIRTY OR BM_JUST_DIRTIED) = (BM_DIRTY OR BM_JUST_DIRTIED) \<Longrightarrow>
    page_step s (set_io i Idle s)"
| start: "io s i = Idle \<Longrightarrow> flags s AND BM_IO_IN_PROGRESS = 0 \<Longrightarrow> \<not> io_done False (flags s) \<Longrightarrow>
    page_step s (set_io i Started (s\<lparr>flags := unlock_bits BM_IO_IN_PROGRESS 0 0 (flags s)\<rparr>))"
| clear: "io s i = Started \<Longrightarrow>
    page_step s (set_io i Cleared (s\<lparr>flags := unlock_bits 0 BM_JUST_DIRTIED 0 (flags s)\<rparr>))"
| copy: "io s i = Cleared \<Longrightarrow> page_step s (set_io i (Copied (content s)) s)"
| store: "io s i = Copied v \<Longrightarrow> page_step s (set_io i Written (s\<lparr>disk := v\<rparr>))"
| finish: "io s i = Written \<Longrightarrow>
    page_step s (set_io i Idle (s\<lparr>flags := unlock_bits 0 (terminate_unset True (flags s)) 0 (flags s)\<rparr>))"
| abort: "io s i \<in> {Started, Cleared} \<or> (\<exists>v. io s i = Copied v) \<Longrightarrow>
    page_step s (set_io i Idle (s\<lparr>flags := unlock_bits BM_IO_ERROR (terminate_unset False (flags s)) 0 (flags s)\<rparr>))"
| torn_abort: "io s i = Copied v \<Longrightarrow>
    page_step s (set_io i Idle (s\<lparr>disk := w, flags := unlock_bits BM_IO_ERROR (terminate_unset False (flags s)) 0 (flags s)\<rparr>))"
| other_bits: "(\<forall>k \<in> {23, 26, 28}. bit w k = bit (flags s) k) \<Longrightarrow> page_step s (s\<lparr>flags := w\<rparr>)"

text \<open>At the start nobody is doing anything, and a clean page is the page on disk.\<close>

inductive page_reachable :: "page_sys \<Rightarrow> bool" where
  init: "(\<forall>i. io s i = Idle) \<Longrightarrow> flags s AND BM_IO_IN_PROGRESS = 0 \<Longrightarrow>
    (flags s AND BM_DIRTY = 0 \<longrightarrow> disk s = content s) \<Longrightarrow> page_reachable s"
| step: "page_reachable s \<Longrightarrow> page_step s s' \<Longrightarrow> page_reachable s'"

text \<open>
  One writer at a time, and the page stays dirty while it is written. A copy that misses a change is
  known to be stale: the page was marked again, or is about to be.
\<close>

fun in_io :: "io_pc \<Rightarrow> bool" where
  "in_io Idle \<longleftrightarrow> False"
| "in_io Changed \<longleftrightarrow> False"
| "in_io _ \<longleftrightarrow> True"

definition pending_change :: "page_sys \<Rightarrow> bool" where
  "pending_change s \<longleftrightarrow> (\<exists>j. io s j = Changed)"

definition redirtied :: "page_sys \<Rightarrow> bool" where
  "redirtied s \<longleftrightarrow> bit (flags s) 28 \<or> pending_change s"

definition copy_ok :: "page_sys \<Rightarrow> io_pc \<Rightarrow> bool" where
  "copy_ok s c \<longleftrightarrow> redirtied s \<or> (case c of Copied v \<Rightarrow> v = content s | Written \<Rightarrow> disk s = content s | _ \<Rightarrow> True)"

definition page_ok :: "nat option \<Rightarrow> page_sys \<Rightarrow> bool" where
  "page_ok writer s \<longleftrightarrow>
     (\<forall>i. in_io (io s i) \<longleftrightarrow> writer = Some i) \<and> (bit (flags s) 26 \<longleftrightarrow> writer \<noteq> None) \<and>
     (\<forall>i. writer = Some i \<longrightarrow> bit (flags s) 23 \<and> copy_ok s (io s i)) \<and>
     (bit (flags s) 23 \<or> pending_change s \<or> disk s = content s)"

lemma set_io_simps [simp]:
  "flags (set_io i c s) = flags s" "content (set_io i c s) = content s" "disk (set_io i c s) = disk s"
  "io (set_io i c s) = (io s)(i := c)"
  by (simp_all add: set_io_def)

text \<open>The flags after each update of the word.\<close>

lemma io_flag_bits [simp]:
  "bit (unlock_bits BM_IO_IN_PROGRESS 0 0 w) 23 = bit w 23" "bit (unlock_bits BM_IO_IN_PROGRESS 0 0 w) 26"
  "bit (unlock_bits BM_IO_IN_PROGRESS 0 0 w) 28 = bit w 28"
  "bit (unlock_bits 0 BM_JUST_DIRTIED 0 w) 23 = bit w 23" "bit (unlock_bits 0 BM_JUST_DIRTIED 0 w) 26 = bit w 26"
  "\<not> bit (unlock_bits 0 BM_JUST_DIRTIED 0 w) 28"
  "\<not> bit (unlock_bits sb (terminate_unset d w) 0 w) 26"
  "bit (unlock_bits 0 (terminate_unset True w) 0 w) 23 = (bit w 23 \<and> bit w 28)"
  "bit (unlock_bits BM_IO_ERROR (terminate_unset False w) 0 w) 23 = bit w 23"
  "bit (unlock_bits 0 (terminate_unset True w) 0 w) 28 = bit w 28"
  "bit (unlock_bits BM_IO_ERROR (terminate_unset False w) 0 w) 28 = bit w 28"
  by (auto simp: unlock_bits_def terminate_unset_def Let_def bit_simps flag_bits)

lemma pending_change_set_io:
  "pending_change (set_io i c s) \<longleftrightarrow> c = Changed \<or> (\<exists>j. j \<noteq> i \<and> io s j = Changed)"
  "io s i \<noteq> Changed \<Longrightarrow> (\<exists>j. j \<noteq> i \<and> io s j = Changed) \<longleftrightarrow> pending_change s"
  by (auto simp: pending_change_def)

lemmas page_simps = pending_change_set_io redirtied_def copy_ok_def

lemma page_ok_step:
  assumes "page_step s s'" "page_ok wr s"
  shows "\<exists>wr'. page_ok wr' s'"
proof -
  note wr = assms(2) [unfolded page_ok_def]
  have w: "in_io (io s i) \<longleftrightarrow> wr = Some i" for i using wr by blast
  from assms(1) show ?thesis
  proof cases
    case (change i v)
    then have "wr \<noteq> Some i" using w [of i] by simp
    then show ?thesis using wr change by (intro exI [of _ wr]) (auto simp: page_ok_def page_simps)
  next
    case (mark_dirty i)
    then have "wr \<noteq> Some i" using w [of i] by simp
    then show ?thesis using wr mark_dirty by (intro exI [of _ wr]) (auto simp: page_ok_def page_simps bit_simps flag_bits)
  next
    case (mark_hint_skip i)
    have "bit (flags s AND (BM_DIRTY OR BM_JUST_DIRTIED)) k" if "k = 23 \<or> k = 28" for k
      unfolding mark_hint_skip(3) using that by (auto simp: bit_simps flag_bits)
    then have "bit (flags s) 23" "bit (flags s) 28" "wr \<noteq> Some i" using w [of i] mark_hint_skip(2) by (auto simp: bit_simps)
    then show ?thesis using wr mark_hint_skip by (intro exI [of _ wr]) (auto simp: page_ok_def page_simps)
  next
    case (start i)
    then show ?thesis using wr by (intro exI [of _ "Some i"]) (auto simp: page_ok_def page_simps io_done_def)
  next
    case (clear i)
    then have "wr = Some i" using w [of i] by auto
    then show ?thesis using wr clear by (intro exI [of _ wr]) (auto simp: page_ok_def page_simps)
  next
    case (copy i)
    then have "wr = Some i" using w [of i] by auto
    then show ?thesis using wr copy by (intro exI [of _ wr]) (auto simp: page_ok_def page_simps)
  next
    case (store i v)
    then have "wr = Some i" using w [of i] by auto
    then show ?thesis using wr store by (intro exI [of _ wr]) (auto simp: page_ok_def page_simps)
  next
    case (finish i)
    then have "wr = Some i" using w [of i] by auto
    then show ?thesis using wr finish by (intro exI [of _ None]) (auto simp: page_ok_def page_simps)
  next
    case (abort i)
    then have "wr = Some i" using w [of i] by auto
    then show ?thesis using wr abort by (intro exI [of _ None]) (auto simp: page_ok_def page_simps)
  next
    case (torn_abort i v w)
    then have "wr = Some i" using w [of i] by auto
    then show ?thesis using wr torn_abort by (intro exI [of _ None]) (auto simp: page_ok_def page_simps)
  next
    case (other_bits w)
    then show ?thesis using wr by (intro exI [of _ wr]) (auto simp: page_ok_def pending_change_def redirtied_def copy_ok_def
          cong: io_pc.case_cong)
  qed
qed

lemma page_reachable_ok: "page_reachable s \<Longrightarrow> \<exists>wr. page_ok wr s"
proof (induction rule: page_reachable.induct)
  case (init s)
  then show ?case by (intro exI [of _ None]) (auto simp: page_ok_def)
next
  case (step s s')
  then show ?case using page_ok_step by blast
qed

section \<open>Properties\<close>


text \<open>
  Backend 0 writes the page; backend 1 changes it between the copy and the end of the write.
\<close>

definition page_start :: page_sys where
  "page_start = \<lparr>flags = BM_DIRTY, content = 1, disk = 0, io = (\<lambda>_. Idle)\<rparr>"

definition page_changed_during_write :: page_sys where
  "page_changed_during_write = \<lparr>flags = BM_DIRTY OR BM_IO_IN_PROGRESS, content = 2, disk = 1, io = (\<lambda>_. Idle)(0 := Written, 1 := Changed)\<rparr>"


end
