(* ===== verification/Map_Protocol.thy ===== *)
theory Map_Protocol
  imports Buffer_Pin
begin

unbundle bit_operations_syntax

text \<open>
  The protocol that ties a buffer to a disk block. Any number of backends look blocks up, take
  victims, remove their old identity and give them a new one (\<^verbatim>\<open>BufferAlloc\<close>, \<^verbatim>\<open>GetVictimBuffer\<close> and
  \<^verbatim>\<open>InvalidateVictimBuffer\<close> of \<^verbatim>\<open>bufmgr.c\<close>), drop buffers (\<^verbatim>\<open>InvalidateBuffer\<close>), and pin and unpin them.
  It is a transition system with one access to shared memory per step, in which the lookup table is
  the map that \<^verbatim>\<open>buf_table.c\<close> implements. The theorem is that a buffer keeps its block while it is
  pinned, and that no block is ever in two buffers.
\<close>

section \<open>Places in the routines\<close>

text \<open>
  Where a backend is; each constructor names what was done last. Up to \<open>NewTag\<close> it is in
  \<open>BufferAlloc\<close> for the block \<open>tag\<close>: \<open>Lookup\<close>, \<open>Found\<close> and \<open>Pinned\<close> hold the partition lock of
  the tag, the places \<open>Old\<dots>\<close> are in \<open>InvalidateVictimBuffer\<close> for the victim \<open>b\<close> with its old tag, the
  places \<open>New\<dots>\<close> give the victim the new one. \<open>Collided\<close> and \<open>Other\<close> are the path on which another
  backend has inserted the block first. The places \<open>Drop\<dots>\<close> are in \<open>InvalidateBuffer\<close>.
\<close>

datatype alloc_pc =
    Idle
  | Lookup BufferTag | Found BufferTag nat | Pinned BufferTag bool
  | Missed BufferTag | Taken BufferTag nat bool | GiveUp BufferTag nat
  | OldTag BufferTag nat BufferTag | OldLocked BufferTag nat BufferTag | OldHdr BufferTag nat BufferTag uint64
  | OldCleared BufferTag nat BufferTag | OldGone BufferTag nat BufferTag
  | OldDeleted BufferTag nat BufferTag | OldKept BufferTag nat BufferTag
  | Clean BufferTag nat | NewLocked BufferTag nat | Collided BufferTag nat nat | Other BufferTag nat
  | Inserted BufferTag nat | NewHdr BufferTag nat uint64 | NewTag BufferTag nat
  | DropHdr nat | DropOld nat BufferTag | DropLocked nat BufferTag | DropHdr2 nat BufferTag uint64
  | DropCleared nat BufferTag bool | DropGone nat BufferTag bool
  | DropRetry nat BufferTag | DropDone BufferTag

text \<open>
  The shared state: header words, tags and the table; and per backend its place, its pins of each
  buffer, and the block it was given the buffer for.
\<close>

record map_sys =
  words :: states
  btags :: "nat \<Rightarrow> BufferTag"
  mapping :: "BufferTag \<rightharpoonup> nat"
  at :: "nat \<Rightarrow> alloc_pc"
  pins :: "nat \<Rightarrow> nat \<Rightarrow> nat"
  given :: "nat \<Rightarrow> nat \<Rightarrow> BufferTag option"

abbreviation tag_valid :: "uint64 \<Rightarrow> bool" where
  "tag_valid w \<equiv> w AND BM_TAG_VALID \<noteq> 0"

abbreviation hdr_locked :: "uint64 \<Rightarrow> bool" where
  "hdr_locked w \<equiv> w AND BM_LOCKED \<noteq> 0"

text \<open>The tags whose partition lock, shared or exclusive, a backend holds.\<close>

fun slock :: "alloc_pc \<Rightarrow> BufferTag option" where
  "slock (Lookup t) = Some t"
| "slock (Found t b) = Some t"
| "slock (Pinned t x) = (if x then None else Some t)"
| "slock _ = None"

fun xlock :: "alloc_pc \<Rightarrow> BufferTag option" where
  "xlock (Pinned t x) = (if x then Some t else None)"
| "xlock (OldLocked t b u) = Some u"
| "xlock (OldHdr t b u w) = Some u"
| "xlock (OldCleared t b u) = Some u"
| "xlock (OldGone t b u) = Some u"
| "xlock (OldDeleted t b u) = Some u"
| "xlock (OldKept t b u) = Some u"
| "xlock (NewLocked t b) = Some t"
| "xlock (Collided t b c) = Some t"
| "xlock (Other t c) = Some t"
| "xlock (Inserted t b) = Some t"
| "xlock (NewHdr t b w) = Some t"
| "xlock (NewTag t b) = Some t"
| "xlock (DropLocked b u) = Some u"
| "xlock (DropHdr2 b u w) = Some u"
| "xlock (DropCleared b u v) = Some u"
| "xlock (DropGone b u v) = Some u"
| "xlock (DropRetry b u) = Some u"
| "xlock (DropDone u) = Some u"
| "xlock _ = None"

definition part :: "(BufferTag \<Rightarrow> uint32) \<Rightarrow> BufferTag \<Rightarrow> uint32" where
  "part hf t = BufTableHashPartition (hf t)"

text \<open>When \<open>LWLockAcquire\<close> can grant the partition lock of a tag.\<close>

definition free_for_shared :: "(BufferTag \<Rightarrow> uint32) \<Rightarrow> map_sys \<Rightarrow> BufferTag \<Rightarrow> bool" where
  "free_for_shared hf s t \<longleftrightarrow> (\<forall>j u. xlock (at s j) = Some u \<longrightarrow> part hf u \<noteq> part hf t)"

definition free_for_exclusive :: "(BufferTag \<Rightarrow> uint32) \<Rightarrow> map_sys \<Rightarrow> BufferTag \<Rightarrow> bool" where
  "free_for_exclusive hf s t \<longleftrightarrow>
     free_for_shared hf s t \<and> (\<forall>j u. slock (at s j) = Some u \<longrightarrow> part hf u \<noteq> part hf t)"

section \<open>Steps\<close>

text \<open>\<open>map_step NB hf i s s'\<close>: backend \<open>i\<close> of \<open>NB\<close> makes one access.\<close>

definition move :: "nat \<Rightarrow> alloc_pc \<Rightarrow> map_sys \<Rightarrow> map_sys" where
  "move i c s = s\<lparr>at := (at s)(i := c)\<rparr>"

definition set_word :: "nat \<Rightarrow> uint64 \<Rightarrow> map_sys \<Rightarrow> map_sys" where
  "set_word b w s = s\<lparr>words := (words s)(b := w)\<rparr>"

definition set_pins :: "nat \<Rightarrow> nat \<Rightarrow> nat \<Rightarrow> BufferTag option \<Rightarrow> map_sys \<Rightarrow> map_sys" where
  "set_pins i b n g s = s\<lparr>pins := (pins s)(i := (pins s i)(b := n)), given := (given s)(i := (given s i)(b := g))\<rparr>"

text \<open>\<open>PinBuffer\<close> on behalf of a block: the shared count moves only with the backend's first pin.\<close>

definition pin_for :: "bool \<Rightarrow> nat \<Rightarrow> nat \<Rightarrow> BufferTag \<Rightarrow> map_sys \<Rightarrow> map_sys" where
  "pin_for d i b t s =
     set_pins i b (pins s i b + 1) (Some t)
       (if pins s i b = 0 then set_word b (pin_bump d (words s b)) s else s)"

definition unpin_one :: "nat \<Rightarrow> nat \<Rightarrow> map_sys \<Rightarrow> map_sys" where
  "unpin_one i b s =
     (if pins s i b = 1 then set_pins i b 0 None (set_word b (words s b - BUF_REFCOUNT_ONE) s)
      else set_pins i b (pins s i b - 1) (given s i b) s)"

definition clear_bits :: uint64 where
  "clear_bits = BUF_FLAG_MASK OR BUF_USAGECOUNT_MASK"

definition insert_bits :: "bool \<Rightarrow> uint64" where
  "insert_bits permanent = BM_TAG_VALID OR BUF_USAGECOUNT_ONE OR (if permanent then BM_PERMANENT else 0)"

inductive map_step :: "nat \<Rightarrow> (BufferTag \<Rightarrow> uint32) \<Rightarrow> nat \<Rightarrow> map_sys \<Rightarrow> map_sys \<Rightarrow> bool" for NB hf i where
  lookup: "i < NB \<Longrightarrow> at s i = Idle \<Longrightarrow> free_for_shared hf s t \<Longrightarrow> map_step NB hf i s (move i (Lookup t) s)"
| found: "at s i = Lookup t \<Longrightarrow> mapping s t = Some b \<Longrightarrow> map_step NB hf i s (move i (Found t b) s)"
| missed: "at s i = Lookup t \<Longrightarrow> mapping s t = None \<Longrightarrow> map_step NB hf i s (move i (Missed t) s)"
| pin_found: "at s i = Found t b \<Longrightarrow> pins s i b = 0 \<longrightarrow> \<not> hdr_locked (words s b) \<Longrightarrow>
    map_step NB hf i s (move i (Pinned t False) (pin_for d i b t s))"
| return: "at s i = Pinned t x \<Longrightarrow> map_step NB hf i s (move i Idle s)"
| take_victim: "at s i = Missed t \<Longrightarrow> BUF_STATE_GET_REFCOUNT (words s b) = 0 \<Longrightarrow> \<not> hdr_locked (words s b) \<Longrightarrow>
    map_step NB hf i s (move i (Taken t b (tag_valid (words s b)))
      (set_pins i b 1 None (set_word b (words s b + BUF_REFCOUNT_ONE) s)))"
| reject: "at s i = Taken t b True \<Longrightarrow> map_step NB hf i s (move i (GiveUp t b) s)"
| give_up: "at s i = GiveUp t b \<Longrightarrow> map_step NB hf i s (move i (Missed t) (unpin_one i b s))"
| no_tag: "at s i = Taken t b False \<Longrightarrow> map_step NB hf i s (move i (Clean t b) s)"
| read_tag: "at s i = Taken t b True \<Longrightarrow> map_step NB hf i s (move i (OldTag t b (btags s b)) s)"
| old_lock: "at s i = OldTag t b u \<Longrightarrow> free_for_exclusive hf s u \<Longrightarrow> map_step NB hf i s (move i (OldLocked t b u) s)"
| old_hdr: "at s i = OldLocked t b u \<Longrightarrow> \<not> hdr_locked (words s b) \<Longrightarrow>
    map_step NB hf i s (move i (OldHdr t b u (words s b)) (set_word b (words s b OR BM_LOCKED) s))"
| old_used: "at s i = OldHdr t b u w \<Longrightarrow> BUF_STATE_GET_REFCOUNT w \<noteq> 1 \<or> w AND BM_DIRTY \<noteq> 0 \<Longrightarrow>
    map_step NB hf i s (move i (OldKept t b u) (set_word b (words s b - BM_LOCKED) s))"
| old_clear: "at s i = OldHdr t b u w \<Longrightarrow> BUF_STATE_GET_REFCOUNT w = 1 \<Longrightarrow> w AND BM_DIRTY = 0 \<Longrightarrow>
    map_step NB hf i s (move i (OldCleared t b u) (s\<lparr>btags := (btags s)(b := ClearBufferTag (btags s b))\<rparr>))"
| old_unlock: "at s i = OldCleared t b u \<Longrightarrow>
    map_step NB hf i s (move i (OldGone t b u) (set_word b (unlock_bits 0 clear_bits 0 (words s b)) s))"
| old_delete: "at s i = OldGone t b u \<Longrightarrow>
    map_step NB hf i s (move i (OldDeleted t b u) (s\<lparr>mapping := (mapping s)(u := None)\<rparr>))"
| old_release: "at s i = OldDeleted t b u \<Longrightarrow> map_step NB hf i s (move i (Clean t b) s)"
| old_kept: "at s i = OldKept t b u \<Longrightarrow> map_step NB hf i s (move i (GiveUp t b) s)"
| new_lock: "at s i = Clean t b \<Longrightarrow> free_for_exclusive hf s t \<Longrightarrow> map_step NB hf i s (move i (NewLocked t b) s)"
| collide: "at s i = NewLocked t b \<Longrightarrow> mapping s t = Some c \<Longrightarrow> map_step NB hf i s (move i (Collided t b c) s)"
| drop_victim: "at s i = Collided t b c \<Longrightarrow> map_step NB hf i s (move i (Other t c) (unpin_one i b s))"
| pin_other: "at s i = Other t c \<Longrightarrow> pins s i c = 0 \<longrightarrow> \<not> hdr_locked (words s c) \<Longrightarrow>
    map_step NB hf i s (move i (Pinned t True) (pin_for d i c t s))"
| insert_tag: "at s i = NewLocked t b \<Longrightarrow> mapping s t = None \<Longrightarrow>
    map_step NB hf i s (move i (Inserted t b) (s\<lparr>mapping := (mapping s)(t \<mapsto> b)\<rparr>))"
| new_hdr: "at s i = Inserted t b \<Longrightarrow> \<not> hdr_locked (words s b) \<Longrightarrow>
    map_step NB hf i s (move i (NewHdr t b (words s b)) (set_word b (words s b OR BM_LOCKED) s))"
| new_tag: "at s i = NewHdr t b w \<Longrightarrow>
    map_step NB hf i s (move i (NewTag t b) (s\<lparr>btags := (btags s)(b := t)\<rparr>))"
| new_unlock: "at s i = NewTag t b \<Longrightarrow>
    map_step NB hf i s (move i (Pinned t True)
      (set_pins i b (pins s i b) (Some t) (set_word b (unlock_bits (insert_bits permanent) 0 0 (words s b)) s)))"
| drop_hdr: "i < NB \<Longrightarrow> at s i = Idle \<Longrightarrow> \<not> hdr_locked (words s b) \<Longrightarrow>
    map_step NB hf i s (move i (DropHdr b) (set_word b (words s b OR BM_LOCKED) s))"
| drop_read: "at s i = DropHdr b \<Longrightarrow>
    map_step NB hf i s (move i (DropOld b (btags s b)) (set_word b (words s b - BM_LOCKED) s))"
| drop_lock: "at s i = DropOld b u \<Longrightarrow> free_for_exclusive hf s u \<Longrightarrow> map_step NB hf i s (move i (DropLocked b u) s)"
| drop_hdr2: "at s i = DropLocked b u \<Longrightarrow> \<not> hdr_locked (words s b) \<Longrightarrow>
    map_step NB hf i s (move i (DropHdr2 b u (words s b)) (set_word b (words s b OR BM_LOCKED) s))"
| drop_changed: "at s i = DropHdr2 b u w \<Longrightarrow> btags s b \<noteq> u \<Longrightarrow>
    map_step NB hf i s (move i (DropDone u) (set_word b (words s b - BM_LOCKED) s))"
| drop_pinned: "at s i = DropHdr2 b u w \<Longrightarrow> btags s b = u \<Longrightarrow> BUF_STATE_GET_REFCOUNT w \<noteq> 0 \<Longrightarrow>
    map_step NB hf i s (move i (DropRetry b u) (set_word b (words s b - BM_LOCKED) s))"
| drop_retry: "at s i = DropRetry b u \<Longrightarrow> map_step NB hf i s (move i (DropOld b u) s)"
| drop_clear: "at s i = DropHdr2 b u w \<Longrightarrow> btags s b = u \<Longrightarrow> BUF_STATE_GET_REFCOUNT w = 0 \<Longrightarrow>
    map_step NB hf i s (move i (DropCleared b u (tag_valid w)) (s\<lparr>btags := (btags s)(b := ClearBufferTag (btags s b))\<rparr>))"
| drop_unlock: "at s i = DropCleared b u v \<Longrightarrow>
    map_step NB hf i s (move i (DropGone b u v) (set_word b (unlock_bits 0 clear_bits 0 (words s b)) s))"
| drop_delete: "at s i = DropGone b u v \<Longrightarrow>
    map_step NB hf i s (move i (DropDone u) (if v then s\<lparr>mapping := (mapping s)(u := None)\<rparr> else s))"
| drop_done: "at s i = DropDone u \<Longrightarrow> map_step NB hf i s (move i Idle s)"
| pin_locked: "i < NB \<Longrightarrow> at s i = Idle \<Longrightarrow> pins s i b = 0 \<Longrightarrow> \<not> hdr_locked (words s b) \<Longrightarrow> tag_valid (words s b) \<Longrightarrow>
    map_step NB hf i s (set_pins i b 1 None (set_word b (words s b + BUF_REFCOUNT_ONE) s))"
| pin_again: "i < NB \<Longrightarrow> at s i = Idle \<Longrightarrow> pins s i b \<noteq> 0 \<Longrightarrow>
    map_step NB hf i s (set_pins i b (pins s i b + 1) (given s i b) s)"
| unpin: "i < NB \<Longrightarrow> at s i = Idle \<Longrightarrow> pins s i b \<noteq> 0 \<Longrightarrow> map_step NB hf i s (unpin_one i b s)"
| other_bits: "i < NB \<Longrightarrow> (\<forall>k. k < 18 \<or> k = 22 \<or> k = 25 \<longrightarrow> bit w k = bit (words s b) k) \<Longrightarrow>
    map_step NB hf i s (set_word b w s)"

inductive map_reachable :: "nat \<Rightarrow> (BufferTag \<Rightarrow> uint32) \<Rightarrow> map_sys \<Rightarrow> bool" for NB hf where
  init: "words s = (\<lambda>_. 0) \<Longrightarrow> mapping s = Map.empty \<Longrightarrow> at s = (\<lambda>_. Idle) \<Longrightarrow> pins s = (\<lambda>_ _. 0) \<Longrightarrow>
    given s = (\<lambda>_ _. None) \<Longrightarrow> map_reachable NB hf s"
| step: "map_reachable NB hf s \<Longrightarrow> map_step NB hf i s s' \<Longrightarrow> map_reachable NB hf s'"

section \<open>What a place implies\<close>

text \<open>
  Each function below reads off a place what the backend there relies on: the buffer whose header it
  has locked; the victim it holds one pin of; a buffer that nobody else pins, or nobody at all; the
  tag bit of a word, the tag of a buffer and the table entry it has seen; the entry it is adding or
  removing; the buffer whose tag is being cleared; an entry that outlives its buffer.
\<close>

fun hdrlock :: "alloc_pc \<Rightarrow> nat option" where
  "hdrlock (OldHdr t b u w) = Some b"
| "hdrlock (OldCleared t b u) = Some b"
| "hdrlock (NewHdr t b w) = Some b"
| "hdrlock (NewTag t b) = Some b"
| "hdrlock (DropHdr b) = Some b"
| "hdrlock (DropHdr2 b u w) = Some b"
| "hdrlock (DropCleared b u v) = Some b"
| "hdrlock _ = None"

fun victim_of :: "alloc_pc \<Rightarrow> nat option" where
  "victim_of (Taken t b v) = Some b"
| "victim_of (GiveUp t b) = Some b"
| "victim_of (OldTag t b u) = Some b"
| "victim_of (OldLocked t b u) = Some b"
| "victim_of (OldHdr t b u w) = Some b"
| "victim_of (OldCleared t b u) = Some b"
| "victim_of (OldGone t b u) = Some b"
| "victim_of (OldDeleted t b u) = Some b"
| "victim_of (OldKept t b u) = Some b"
| "victim_of (Clean t b) = Some b"
| "victim_of (NewLocked t b) = Some b"
| "victim_of (Collided t b c) = Some b"
| "victim_of (Inserted t b) = Some b"
| "victim_of (NewHdr t b w) = Some b"
| "victim_of (NewTag t b) = Some b"
| "victim_of _ = None"

fun sole :: "alloc_pc \<Rightarrow> nat option" where
  "sole (Taken t b v) = (if v then None else Some b)"
| "sole (OldHdr t b u w) = (if BUF_STATE_GET_REFCOUNT w = 1 then Some b else None)"
| "sole (OldCleared t b u) = Some b"
| "sole (OldGone t b u) = Some b"
| "sole (OldDeleted t b u) = Some b"
| "sole (Clean t b) = Some b"
| "sole (NewLocked t b) = Some b"
| "sole (Collided t b c) = Some b"
| "sole (Inserted t b) = Some b"
| "sole (NewHdr t b w) = Some b"
| "sole (NewTag t b) = Some b"
| "sole _ = None"

fun nobody :: "alloc_pc \<Rightarrow> nat option" where
  "nobody (DropHdr2 b u w) = (if BUF_STATE_GET_REFCOUNT w = 0 then Some b else None)"
| "nobody (DropCleared b u v) = Some b"
| "nobody _ = None"

fun tagbit :: "alloc_pc \<Rightarrow> (nat \<times> bool) option" where
  "tagbit (Taken t b v) = Some (b, v)"
| "tagbit (OldTag t b u) = Some (b, True)"
| "tagbit (OldLocked t b u) = Some (b, True)"
| "tagbit (OldHdr t b u w) = Some (b, True)"
| "tagbit (OldCleared t b u) = Some (b, True)"
| "tagbit (OldGone t b u) = Some (b, False)"
| "tagbit (OldDeleted t b u) = Some (b, False)"
| "tagbit (Clean t b) = Some (b, False)"
| "tagbit (NewLocked t b) = Some (b, False)"
| "tagbit (Collided t b c) = Some (b, False)"
| "tagbit (Inserted t b) = Some (b, False)"
| "tagbit (NewHdr t b w) = Some (b, False)"
| "tagbit (NewTag t b) = Some (b, False)"
| "tagbit (DropHdr2 b u w) = Some (b, bit w 25)"
| "tagbit (DropCleared b u v) = Some (b, v)"
| "tagbit _ = None"

fun tag_seen :: "alloc_pc \<Rightarrow> (nat \<times> BufferTag) option" where
  "tag_seen (OldTag t b u) = Some (b, u)"
| "tag_seen (OldLocked t b u) = Some (b, u)"
| "tag_seen (OldHdr t b u w) = Some (b, u)"
| "tag_seen (NewTag t b) = Some (b, t)"
| "tag_seen _ = None"

fun entry_seen :: "alloc_pc \<Rightarrow> (BufferTag \<times> nat) option" where
  "entry_seen (Found t b) = Some (t, b)"
| "entry_seen (Collided t b c) = Some (t, c)"
| "entry_seen (Other t c) = Some (t, c)"
| "entry_seen (OldCleared t b u) = Some (u, b)"
| "entry_seen (OldGone t b u) = Some (u, b)"
| "entry_seen (DropCleared b u v) = (if v then Some (u, b) else None)"
| "entry_seen (DropGone b u v) = (if v then Some (u, b) else None)"
| "entry_seen (Inserted t b) = Some (t, b)"
| "entry_seen (NewHdr t b w) = Some (t, b)"
| "entry_seen (NewTag t b) = Some (t, b)"
| "entry_seen _ = None"

fun entry :: "alloc_pc \<Rightarrow> (BufferTag \<times> nat) option" where
  "entry (Found t b) = None"
| "entry (Collided t b c) = None"
| "entry (Other t c) = None"
| "entry c = entry_seen c"

fun clearing :: "alloc_pc \<Rightarrow> nat option" where
  "clearing (OldCleared t b u) = Some b"
| "clearing (DropCleared b u v) = Some b"
| "clearing _ = None"

fun outlived :: "alloc_pc \<Rightarrow> (nat \<times> BufferTag) option" where
  "outlived (DropGone b u v) = Some (b, u)"
| "outlived _ = None"

lemma place_facts:
  "tagbit c = Some (b, v) \<Longrightarrow> victim_of c = Some b \<or> hdrlock c = Some b"
  "tag_seen c = Some (b, u) \<Longrightarrow> victim_of c = Some b"
  "entry_seen c = Some (t, b) \<Longrightarrow> slock c = Some t \<or> xlock c = Some t"
  "entry c = Some (t, b) \<Longrightarrow> xlock c = Some t \<and> entry_seen c = Some (t, b)"
  "clearing c = Some b \<Longrightarrow> hdrlock c = Some b \<and> (sole c = Some b \<or> nobody c = Some b)"
  "sole c = Some b \<Longrightarrow> victim_of c = Some b"
  "sole c = Some b \<Longrightarrow> hdrlock c = Some b \<or> tagbit c = Some (b, False)"
  "nobody c = Some b \<Longrightarrow> hdrlock c = Some b"
  "outlived c = Some (b, u) \<Longrightarrow> xlock c = Some u"
  by (cases c; auto split: if_splits)+

section \<open>The invariant\<close>

definition settled :: "map_sys \<Rightarrow> nat \<Rightarrow> bool" where
  "settled s b \<longleftrightarrow> bit (words s b) 25 \<and> (\<forall>j. clearing (at s j) \<noteq> Some b)"

definition counts_ok :: "nat \<Rightarrow> map_sys \<Rightarrow> bool" where
  "counts_ok NB s \<longleftrightarrow>
     (\<forall>i. at s i \<noteq> Idle \<longrightarrow> i < NB) \<and> (\<forall>i b. pins s i b \<noteq> 0 \<longrightarrow> i < NB) \<and>
     (\<forall>b. unat (BUF_STATE_GET_REFCOUNT (words s b)) = card {i. pins s i b \<noteq> 0})"

definition locks_ok :: "(BufferTag \<Rightarrow> uint32) \<Rightarrow> map_sys \<Rightarrow> bool" where
  "locks_ok hf s \<longleftrightarrow>
     (\<forall>i j t u. xlock (at s i) = Some t \<longrightarrow> slock (at s j) = Some u \<or> xlock (at s j) = Some u \<longrightarrow>
        part hf t = part hf u \<longrightarrow> i = j)"

definition hdrs_ok :: "map_sys \<Rightarrow> bool" where
  "hdrs_ok s \<longleftrightarrow> (\<forall>i j b. hdrlock (at s i) = Some b \<longrightarrow> hdrlock (at s j) = Some b \<longrightarrow> i = j)"

definition place_ok :: "map_sys \<Rightarrow> nat \<Rightarrow> bool" where
  "place_ok s i \<longleftrightarrow>
     (\<forall>b. hdrlock (at s i) = Some b \<longrightarrow> bit (words s b) 22) \<and>
     (\<forall>b. victim_of (at s i) = Some b \<longrightarrow> pins s i b = 1 \<and> given s i b = None) \<and>
     (\<forall>j b. sole (at s i) = Some b \<longrightarrow> i \<noteq> j \<longrightarrow> pins s j b = 0) \<and>
     (\<forall>j b. nobody (at s i) = Some b \<longrightarrow> pins s j b = 0) \<and>
     (case tagbit (at s i) of None \<Rightarrow> True | Some (b, v) \<Rightarrow> bit (words s b) 25 = v) \<and>
     (\<forall>b u. tag_seen (at s i) = Some (b, u) \<longrightarrow> btags s b = u) \<and>
     (\<forall>t b. entry_seen (at s i) = Some (t, b) \<longrightarrow> mapping s t = Some b) \<and>
     (\<forall>t b w. at s i = NewHdr t b w \<longrightarrow> BUF_STATE_GET_REFCOUNT w = 1 \<and> \<not> bit w 25)"

definition table_ok :: "map_sys \<Rightarrow> bool" where
  "table_ok s \<longleftrightarrow>
     (\<forall>b. settled s b \<longrightarrow> mapping s (btags s b) = Some b) \<and>
     (\<forall>t b. mapping s t = Some b \<longrightarrow> settled s b \<and> btags s b = t \<or> (\<exists>j. entry (at s j) = Some (t, b))) \<and>
     (\<forall>i b u. outlived (at s i) = Some (b, u) \<longrightarrow> \<not> (settled s b \<and> btags s b = u)) \<and>
     (\<forall>i b t. given s i b = Some t \<longrightarrow> pins s i b \<noteq> 0 \<and> bit (words s b) 25 \<and> btags s b = t)"

definition map_inv :: "nat \<Rightarrow> (BufferTag \<Rightarrow> uint32) \<Rightarrow> map_sys \<Rightarrow> bool" where
  "map_inv NB hf s \<longleftrightarrow> counts_ok NB s \<and> locks_ok hf s \<and> hdrs_ok s \<and> (\<forall>i. place_ok s i) \<and> table_ok s"

lemmas map_inv_defs = map_inv_def counts_ok_def locks_ok_def hdrs_ok_def place_ok_def table_ok_def

lemma map_invD:
  assumes "map_inv NB hf s"
  shows "at s i \<noteq> Idle \<Longrightarrow> i < NB" "pins s i b \<noteq> 0 \<Longrightarrow> i < NB"
    "unat (BUF_STATE_GET_REFCOUNT (words s b)) = card {i. pins s i b \<noteq> 0}"
    "xlock (at s i) = Some t \<Longrightarrow> slock (at s j) = Some u \<or> xlock (at s j) = Some u \<Longrightarrow> part hf t = part hf u \<Longrightarrow> i = j"
    "hdrlock (at s i) = Some b \<Longrightarrow> bit (words s b) 22"
    "hdrlock (at s i) = Some b \<Longrightarrow> hdrlock (at s j) = Some b \<Longrightarrow> i = j"
    "victim_of (at s i) = Some b \<Longrightarrow> pins s i b = 1" "victim_of (at s i) = Some b \<Longrightarrow> given s i b = None"
    "sole (at s i) = Some b \<Longrightarrow> i \<noteq> j \<Longrightarrow> pins s j b = 0" "nobody (at s i) = Some b \<Longrightarrow> pins s j b = 0"
    "tagbit (at s i) = Some (b, v) \<Longrightarrow> bit (words s b) 25 = v"
    "tag_seen (at s i) = Some (b, u) \<Longrightarrow> btags s b = u"
    "entry_seen (at s i) = Some (t, b) \<Longrightarrow> mapping s t = Some b"
    "outlived (at s i) = Some (b, u) \<Longrightarrow> \<not> (settled s b \<and> btags s b = u)"
    "at s i = NewHdr t b w \<Longrightarrow> BUF_STATE_GET_REFCOUNT w = 1 \<and> \<not> bit w 25"
    "settled s b \<Longrightarrow> mapping s (btags s b) = Some b"
    "mapping s t = Some b \<Longrightarrow> settled s b \<and> btags s b = t \<or> (\<exists>j. entry (at s j) = Some (t, b))"
    "given s i b = Some t \<Longrightarrow> pins s i b \<noteq> 0 \<and> bit (words s b) 25 \<and> btags s b = t"
  using assms by (auto simp: map_inv_defs split: option.splits)

text \<open>A backend that sees an entry it is not working on finds the buffer settled under that tag.\<close>

lemma entry_settled:
  assumes inv: "map_inv NB hf s" and m: "entry_seen (at s i) = Some (t, b)" and e: "entry (at s i) = None"
  shows "settled s b" "btags s b = t"
proof -
  have "entry (at s j) \<noteq> Some (t, b)" for j
    using map_invD(4) [OF inv, of j t i t] place_facts(3) [OF m] e place_facts(4) [of "at s j" t b] by auto
  then show "settled s b" "btags s b = t" using map_invD(17) [OF inv map_invD(13) [OF inv m]] by auto
qed

text \<open>A settled buffer whose header is free is nobody's alone; and a pinned buffer is not being cleared by others.\<close>

lemma settled_not_sole:
  assumes "map_inv NB hf s" "bit (words s b) 25" "\<not> bit (words s b) 22"
  shows "sole (at s i) \<noteq> Some b" "nobody (at s i) \<noteq> Some b"
  using map_invD(5,11) [OF assms(1)] assms(2,3) place_facts(7,8) by blast+

lemma pinned_not_clearing:
  assumes "map_inv NB hf s" "pins s i b \<noteq> 0"
  shows "clearing (at s j) = Some b \<Longrightarrow> j = i" "sole (at s j) = Some b \<Longrightarrow> j = i"
  using map_invD(9) [OF assms(1), of j b i] map_invD(10) [OF assms(1), of j b i] assms(2) place_facts(5) [of "at s j" b]
  by auto

section \<open>The words after a step\<close>

lemma bit_clear_bits [simp]: "bit clear_bits k \<longleftrightarrow> 18 \<le> k \<and> k < 34"
  by (auto simp: clear_bits_def flag_mask usagecount_mask bit_simps)

lemma bit_insert_bits [simp]: "bit (insert_bits p) k \<longleftrightarrow> k = 25 \<or> k = 18 \<or> p \<and> k = 31"
proof -
  have "bit (push_bit 18 1 :: uint64) k \<longleftrightarrow> k = 18" by (auto simp only: bit_push_bit_iff bit_1_iff) simp
  then have "bit BUF_USAGECOUNT_ONE k \<longleftrightarrow> k = 18" by (simp only: BUF_USAGECOUNT_ONE_def BUF_REFCOUNT_BITS_def)
  then show ?thesis by (auto simp: insert_bits_def flag_bits bit_simps)
qed

lemma word_lock:
  "BUF_STATE_GET_REFCOUNT (w OR BM_LOCKED) = BUF_STATE_GET_REFCOUNT w" "bit (w OR BM_LOCKED) 22"
  "bit (w OR BM_LOCKED) 25 = bit w 25"
  by (simp_all add: bit_simps flag_bits)

lemma word_unlock:
  assumes "bit w 22"
  shows "BUF_STATE_GET_REFCOUNT (w - BM_LOCKED) = BUF_STATE_GET_REFCOUNT w" "\<not> bit (w - BM_LOCKED) 22"
    "bit (w - BM_LOCKED) 25 = bit w 25"
  unfolding minus_BM_LOCKED [OF assms] by (auto intro!: refcount_cong simp: bit_simps flag_bits)

lemma word_clear:
  "BUF_STATE_GET_REFCOUNT (unlock_bits 0 clear_bits 0 w) = BUF_STATE_GET_REFCOUNT w"
  "\<not> bit (unlock_bits 0 clear_bits 0 w) 22" "\<not> bit (unlock_bits 0 clear_bits 0 w) 25"
  by (auto intro!: refcount_cong simp: unlock_bits_def bit_simps flag_bits)

lemma word_insert:
  "BUF_STATE_GET_REFCOUNT (unlock_bits (insert_bits p) 0 0 w) = BUF_STATE_GET_REFCOUNT w"
  "\<not> bit (unlock_bits (insert_bits p) 0 0 w) 22" "bit (unlock_bits (insert_bits p) 0 0 w) 25"
  by (auto intro!: refcount_cong simp: unlock_bits_def bit_simps flag_bits)

lemma word_pin:
  assumes "unat (BUF_STATE_GET_REFCOUNT w) + 1 < 2 ^ 18"
  shows "unat (BUF_STATE_GET_REFCOUNT (w + BUF_REFCOUNT_ONE)) = unat (BUF_STATE_GET_REFCOUNT w) + 1"
    "bit (w + BUF_REFCOUNT_ONE) 22 = bit w 22" "bit (w + BUF_REFCOUNT_ONE) 25 = bit w 25"
    "unat (BUF_STATE_GET_REFCOUNT (pin_bump d w)) = unat (BUF_STATE_GET_REFCOUNT w) + 1"
    "bit (pin_bump d w) 22 = bit w 22" "bit (pin_bump d w) 25 = bit w 25"
  using pin_refcount [OF assms] pin_flags [OF assms] pin_bump_fields [OF assms] by auto

lemma word_unpin:
  assumes "BUF_STATE_GET_REFCOUNT w \<noteq> 0"
  shows "unat (BUF_STATE_GET_REFCOUNT (w - BUF_REFCOUNT_ONE)) = unat (BUF_STATE_GET_REFCOUNT w) - 1"
    "bit (w - BUF_REFCOUNT_ONE) 22 = bit w 22" "bit (w - BUF_REFCOUNT_ONE) 25 = bit w 25"
  using unpin_fields [OF assms] by auto

lemma word_other:
  assumes "\<forall>k. k < 18 \<or> k = 22 \<or> k = 25 \<longrightarrow> bit w k = bit w' k"
  shows "BUF_STATE_GET_REFCOUNT w = BUF_STATE_GET_REFCOUNT w'" "bit w 22 = bit w' 22" "bit w 25 = bit w' 25"
  using assms by (auto intro: refcount_cong)

lemma refcount_pins:
  assumes inv: "map_inv NB hf s" and NB: "NB < 2 ^ 18"
  shows "i < NB \<Longrightarrow> pins s i b = 0 \<Longrightarrow> unat (BUF_STATE_GET_REFCOUNT (words s b)) + 1 < 2 ^ 18"
    "BUF_STATE_GET_REFCOUNT (words s b) = 0 \<longleftrightarrow> (\<forall>i. pins s i b = 0)"
    "finite {i. pins s i b \<noteq> 0}"
proof -
  have sub: "{i. pins s i b \<noteq> 0} \<subseteq> {..<NB}" using map_invD(2) [OF inv] by auto
  then show fin: "finite {i. pins s i b \<noteq> 0}" using finite_subset by blast
  show "BUF_STATE_GET_REFCOUNT (words s b) = 0 \<longleftrightarrow> (\<forall>i. pins s i b = 0)"
    using map_invD(3) [OF inv, of b] fin by (auto simp: unat_eq_zero [symmetric])
  assume "i < NB" "pins s i b = 0"
  then have "{i. pins s i b \<noteq> 0} \<subseteq> {..<NB} - {i}" using sub by auto
  then have "card {i. pins s i b \<noteq> 0} \<le> card ({..<NB} - {i})" by (intro card_mono) auto
  with \<open>i < NB\<close> NB map_invD(3) [OF inv, of b] show "unat (BUF_STATE_GET_REFCOUNT (words s b)) + 1 < 2 ^ 18" by simp
qed

section \<open>What a step changes\<close>

definition frame :: "nat \<Rightarrow> map_sys \<Rightarrow> map_sys \<Rightarrow> bool" where
  "frame i s s' \<longleftrightarrow>
     (\<forall>j. j \<noteq> i \<longrightarrow> at s' j = at s j \<and> pins s' j = pins s j \<and> given s' j = given s j) \<and>
     (\<forall>b. bit (words s b) 22 \<longrightarrow> hdrlock (at s i) \<noteq> Some b \<longrightarrow> bit (words s' b) 22) \<and>
     (\<forall>b. bit (words s' b) 25 \<noteq> bit (words s b) 25 \<or> btags s' b \<noteq> btags s b \<longrightarrow>
        hdrlock (at s i) = Some b \<and> (sole (at s i) = Some b \<or> nobody (at s i) = Some b)) \<and>
     (\<forall>b. pins s i b = 0 \<longrightarrow> pins s' i b \<noteq> 0 \<longrightarrow>
        \<not> bit (words s b) 22 \<and> (bit (words s b) 25 \<or> BUF_STATE_GET_REFCOUNT (words s b) = 0)) \<and>
     (\<forall>t. mapping s' t \<noteq> mapping s t \<longrightarrow> xlock (at s i) = Some t)"

lemmas step_defs = move_def set_word_def set_pins_def pin_for_def unpin_one_def

lemma frame_step:
  assumes "map_step NB hf i s s'" and inv: "map_inv NB hf s" and NB: "NB < 2 ^ 18"
  shows "frame i s s'"
proof -
  note bs = word_lock word_clear word_insert
  have busy: "i < NB" if "at s i \<noteq> Idle" using map_invD(1) [OF inv that] .
  have room: "pins s i b = 0 \<Longrightarrow> i < NB \<Longrightarrow> unat (BUF_STATE_GET_REFCOUNT (words s b)) + 1 < 2 ^ 18" for b
    using refcount_pins(1) [OF inv NB] by blast
  have ref: "pins s i b \<noteq> 0 \<Longrightarrow> BUF_STATE_GET_REFCOUNT (words s b) \<noteq> 0" for b
    using refcount_pins(2) [OF inv NB, of b] by auto
  have lk: "hdrlock (at s i) = Some b \<Longrightarrow> bit (words s b) 22" for b using map_invD(5) [OF inv] by blast
  from assms(1) show ?thesis
  proof cases
    case (pin_found t b d)
    have "settled s b" using entry_settled(1) [OF inv, of i t b] pin_found by simp
    with pin_found busy room [of b] show ?thesis
      by (auto simp: frame_def step_defs word_pin settled_def)
  next
    case (pin_other t c d)
    have "settled s c" using entry_settled(1) [OF inv, of i t c] pin_other by simp
    with pin_other busy room [of c] show ?thesis
      by (auto simp: frame_def step_defs word_pin settled_def)
  next
    case (take_victim t b)
    then have "pins s i b = 0" "i < NB" using refcount_pins(2) [OF inv NB, of b] busy by auto
    from room [OF this] take_victim show ?thesis by (auto simp: frame_def step_defs word_pin)
  next
    case (give_up t b)
    with ref [of b] show ?thesis by (auto simp: frame_def step_defs word_unpin)
  next
    case (drop_victim t b c)
    with ref [of b] show ?thesis by (auto simp: frame_def step_defs word_unpin)
  next
    case (unpin b)
    with ref [of b] show ?thesis by (auto simp: frame_def step_defs word_unpin)
  next
    case (pin_locked b)
    with room [of b] show ?thesis by (auto simp: frame_def step_defs word_pin)
  next
    case (old_used t b u w)
    with lk [of b] show ?thesis by (auto simp: frame_def step_defs word_unlock)
  next
    case (drop_read b)
    with lk [of b] show ?thesis by (auto simp: frame_def step_defs word_unlock)
  next
    case (drop_changed b u w)
    with lk [of b] show ?thesis by (auto simp: frame_def step_defs word_unlock)
  next
    case (drop_pinned b u w)
    with lk [of b] show ?thesis by (auto simp: frame_def step_defs word_unlock)
  next
    case (other_bits w b)
    with word_other [OF other_bits(3)] show ?thesis by (auto simp: frame_def step_defs)
  qed (auto simp: frame_def step_defs bs)
qed

text \<open>A step leaves the places of the other backends as they are, and all they rely on.\<close>

lemma place_others:
  assumes inv: "map_inv NB hf s" and NB: "NB < 2 ^ 18" and fr: "frame i s s'" and j: "j \<noteq> i"
  shows "place_ok s' j"
proof -
  have same: "at s' j = at s j" "pins s' j = pins s j" "given s' j = given s j" using fr j by (auto simp: frame_def)
  have alone: "\<not> (hdrlock (at s i) = Some b \<and> (sole (at s i) = Some b \<or> nobody (at s i) = Some b))"
    if "victim_of (at s j) = Some b \<or> hdrlock (at s j) = Some b" for b
    using that map_invD(6) [OF inv, of i b j] map_invD(7) [OF inv, of j b] map_invD(9) [OF inv, of i b j]
      map_invD(10) [OF inv, of i b j] j by auto
  have kept: "bit (words s' b) 25 = bit (words s b) 25" "btags s' b = btags s b"
    if "victim_of (at s j) = Some b \<or> hdrlock (at s j) = Some b" for b
    using fr alone [OF that] unfolding frame_def by blast+
  have unpinned: "pins s' k b = 0" if "pins s k b = 0" "sole (at s j) = Some b \<or> nobody (at s j) = Some b" for k b
  proof (cases "k = i")
    case True
    have "\<not> (\<not> bit (words s b) 22 \<and> bit (words s b) 25)" using settled_not_sole [OF inv, of b j] that(2) by auto
    moreover have "bit (words s b) 22 \<or> BUF_STATE_GET_REFCOUNT (words s b) \<noteq> 0"
      using that(2) map_invD(5) [OF inv, of j b] place_facts(6,8) [of "at s j" b] map_invD(7) [OF inv, of j b]
        refcount_pins(2) [OF inv NB, of b] by force
    ultimately show ?thesis using fr that(1) True unfolding frame_def by blast
  qed (use fr that in \<open>auto simp: frame_def\<close>)
  have map: "mapping s' t = mapping s t" if "slock (at s j) = Some t \<or> xlock (at s j) = Some t" for t
    using fr that map_invD(4) [OF inv, of i t j t] j unfolding frame_def by blast
  show ?thesis
    unfolding place_ok_def same
  proof (intro conjI allI impI)
    fix b assume "hdrlock (at s j) = Some b"
    then show "bit (words s' b) 22" using fr map_invD(5,6) [OF inv] j unfolding frame_def by blast
  next
    show "case tagbit (at s j) of None \<Rightarrow> True | Some (b, v) \<Rightarrow> bit (words s' b) 25 = v"
      using kept(1) place_facts(1) map_invD(11) [OF inv] by (simp split: option.split prod.split)
  next
    fix b u assume "tag_seen (at s j) = Some (b, u)"
    then show "btags s' b = u" using kept(2) place_facts(2) map_invD(12) [OF inv] by metis
  next
    fix t b assume "entry_seen (at s j) = Some (t, b)"
    then show "mapping s' t = Some b" using map place_facts(3) map_invD(13) [OF inv] by metis
  qed (use map_invD(7-10,15) [OF inv] unpinned in \<open>blast+\<close>)
qed

lemma refcount_one:
  assumes inv: "map_inv NB hf s" and i: "pins s i b \<noteq> 0"
  shows "BUF_STATE_GET_REFCOUNT (words s b) = 1 \<longleftrightarrow> (\<forall>j. j \<noteq> i \<longrightarrow> pins s j b = 0)"
proof -
  define A where "A = {j. pins s j b \<noteq> 0}"
  have A: "i \<in> A" using i by (simp add: A_def)
  have "BUF_STATE_GET_REFCOUNT (words s b) = 1 \<longleftrightarrow> card A = 1"
    using map_invD(3) [OF inv, of b] by (auto simp: word_unat_eq_iff A_def)
  also have "\<dots> \<longleftrightarrow> A = {i}" using A by (auto simp: card_1_singleton_iff)
  also have "\<dots> \<longleftrightarrow> (\<forall>j. j \<noteq> i \<longrightarrow> j \<notin> A)" using A by blast
  finally show ?thesis by (simp add: A_def)
qed

lemma hdr_settled:
  assumes inv: "map_inv NB hf s" and "hdrlock (at s i) = Some b" "clearing (at s i) \<noteq> Some b" "bit (words s b) 25"
  shows "settled s b"
proof -
  have "clearing (at s j) \<noteq> Some b" for j
    using assms(2,3) map_invD(6) [OF inv, of i b j] place_facts(5) [of "at s j" b] by auto
  then show ?thesis using assms(4) by (simp add: settled_def)
qed

end
