(* ===== verification/Map_Safety.thy ===== *)
theory Map_Safety
  imports Map_Protocol
begin

unbundle bit_operations_syntax

text \<open>
  The invariant of the protocol that ties buffers to blocks is kept by every step, and what follows
  for the backends: the identity of a pinned buffer, and the agreement of the lookup table with the
  headers.
\<close>

section \<open>The place of the backend that moves\<close>

lemma place_own:
  assumes "map_step NB hf i s s'" and inv: "map_inv NB hf s" and NB: "NB < 2 ^ 18"
  shows "place_ok s' i"
proof -
  have own: "place_ok s i" using inv by (simp add: map_inv_def)
  note bs = word_lock word_clear word_insert
  from assms(1) show ?thesis
  proof cases
    case (take_victim t b)
    then have p: "\<forall>j. pins s j b = 0" and "i < NB" using refcount_pins(2) [OF inv NB, of b] map_invD(1) [OF inv, of i] by auto
    then have "unat (BUF_STATE_GET_REFCOUNT (words s b)) + 1 < 2 ^ 18" using refcount_pins(1) [OF inv NB] by blast
    with take_victim p show ?thesis by (auto simp: place_ok_def step_defs word_pin)
  next
    case (old_hdr t b u)
    with own have "pins s i b \<noteq> 0" by (simp add: place_ok_def)
    from refcount_one [OF inv this] old_hdr own show ?thesis by (auto simp: place_ok_def step_defs bs)
  next
    case (old_clear t b u w)
    then have "settled s b" using own hdr_settled [OF inv, of i b] by (simp add: place_ok_def)
    from map_invD(16) [OF inv this] old_clear own show ?thesis by (auto simp: place_ok_def step_defs)
  next
    case (new_hdr t b)
    with own have "pins s i b \<noteq> 0" by (simp add: place_ok_def)
    from refcount_one [OF inv this] new_hdr own show ?thesis by (auto simp: place_ok_def step_defs bs)
  next
    case (drop_hdr2 b u)
    with refcount_pins(2) [OF inv NB, of b] own show ?thesis by (auto simp: place_ok_def step_defs bs)
  next
    case (drop_clear b u w)
    then have "bit (words s b) 25 = bit w 25" using own by (simp add: place_ok_def)
    moreover have "bit (words s b) 25 \<longrightarrow> settled s b" using drop_clear hdr_settled [OF inv, of i b] by simp
    ultimately have "bit w 25 \<longrightarrow> mapping s u = Some b" using map_invD(16) [OF inv, of b] drop_clear by auto
    with drop_clear own show ?thesis by (auto simp: place_ok_def step_defs)
  next
    case (other_bits w b)
    note o = word_other(2,3) [OF other_bits(3)]
    with own other_bits(1) show ?thesis by (auto simp: place_ok_def step_defs split: option.splits)
  qed (use own in \<open>auto simp: place_ok_def step_defs bs\<close>)
qed

section \<open>Locks and counts\<close>

lemma locks_step:
  assumes "map_step NB hf i s s'" and inv: "map_inv NB hf s" and fr: "frame i s s'"
  shows "locks_ok hf s'"
proof -
  have own: "(\<forall>t. xlock (at s' i) = Some t \<longrightarrow> xlock (at s i) = Some t \<or> free_for_exclusive hf s t) \<and>
      (\<forall>t. slock (at s' i) = Some t \<longrightarrow> slock (at s i) = Some t \<or> free_for_shared hf s t)"
    using assms(1) by cases (auto simp: step_defs)
  have others: "at s' j = at s j" if "j \<noteq> i" for j using fr that by (simp add: frame_def)
  have x: "part hf t \<noteq> part hf u"
    if "j \<noteq> i" "xlock (at s' i) = Some t" "slock (at s j) = Some u \<or> xlock (at s j) = Some u" for j t u
    using that own map_invD(4) [OF inv, of i t j u] unfolding free_for_exclusive_def free_for_shared_def by metis
  have sh: "part hf t \<noteq> part hf u"
    if "j \<noteq> i" "slock (at s' i) = Some t" "xlock (at s j) = Some u" for j t u
    using that own map_invD(4) [OF inv, of j u i t] unfolding free_for_shared_def by metis
  show ?thesis unfolding locks_ok_def
  proof (intro allI impI)
    fix k j t u
    assume *: "xlock (at s' k) = Some t" "slock (at s' j) = Some u \<or> xlock (at s' j) = Some u" "part hf t = part hf u"
    show "k = j"
    proof (rule ccontr)
      assume "k \<noteq> j"
      then consider "k = i" "j \<noteq> i" | "k \<noteq> i" "j = i" | "k \<noteq> i" "j \<noteq> i" by blast
      then show False
        using * \<open>k \<noteq> j\<close> x [of j t u] x [of k u t] sh [of k u t] others map_invD(4) [OF inv, of k t j u] by cases auto
    qed
  qed
qed

lemma hdrs_step:
  assumes "map_step NB hf i s s'" and inv: "map_inv NB hf s" and fr: "frame i s s'"
  shows "hdrs_ok s'"
proof -
  have own: "hdrlock (at s' i) = Some b \<Longrightarrow> hdrlock (at s i) = Some b \<or> \<not> bit (words s b) 22" for b
    using assms(1) by cases (auto simp: step_defs split: if_splits)
  have others: "at s' j = at s j" if "j \<noteq> i" for j using fr that by (simp add: frame_def)
  have new: False if "hdrlock (at s' i) = Some b" "hdrlock (at s j) = Some b" "j \<noteq> i" for b j
    using own [OF that(1)] that(2,3) map_invD(5) [OF inv that(2)] map_invD(6) [OF inv, of i b j] by auto
  show ?thesis unfolding hdrs_ok_def
  proof (intro allI impI)
    fix k j b assume *: "hdrlock (at s' k) = Some b" "hdrlock (at s' j) = Some b"
    show "k = j"
      using * new [of b j] new [of b k] others [of j] others [of k] map_invD(6) [OF inv, of k b j]
      by (cases "k = i"; cases "j = i") auto
  qed
qed

text \<open>The shared count of a buffer moves with the first and the last pin of the backend.\<close>

definition count_after :: "nat \<Rightarrow> nat \<Rightarrow> nat \<Rightarrow> nat" where
  "count_after old new n = (if old = 0 \<and> new \<noteq> 0 then n + 1 else if old \<noteq> 0 \<and> new = 0 then n - 1 else n)"

lemma count_word:
  assumes "map_step NB hf i s s'" and inv: "map_inv NB hf s" and NB: "NB < 2 ^ 18"
  shows "unat (BUF_STATE_GET_REFCOUNT (words s' b)) =
    count_after (pins s i b) (pins s' i b) (unat (BUF_STATE_GET_REFCOUNT (words s b)))"
proof -
  have own: "place_ok s i" using inv by (simp add: map_inv_def)
  have busy: "i < NB" if "at s i \<noteq> Idle" using map_invD(1) [OF inv that] .
  have room: "pins s i c = 0 \<Longrightarrow> i < NB \<Longrightarrow> unat (BUF_STATE_GET_REFCOUNT (words s c)) + 1 < 2 ^ 18" for c
    using refcount_pins(1) [OF inv NB] by blast
  have ref: "pins s i c \<noteq> 0 \<Longrightarrow> BUF_STATE_GET_REFCOUNT (words s c) \<noteq> 0" for c
    using refcount_pins(2) [OF inv NB, of c] by auto
  note bs = word_lock(1) word_clear(1) word_insert(1)
  note d = count_after_def step_defs
  from assms(1) show ?thesis
  proof cases
    case (pin_found t c d)
    with busy room [of c] show ?thesis by (auto simp: d word_pin)
  next
    case (pin_other t c d)
    with busy room [of c] show ?thesis by (auto simp: d word_pin)
  next
    case (take_victim t c)
    then have "pins s i c = 0" "i < NB" using refcount_pins(2) [OF inv NB, of c] busy by auto
    from room [OF this] take_victim this show ?thesis by (auto simp: d word_pin)
  next
    case (pin_locked c)
    with room [of c] show ?thesis by (auto simp: d word_pin)
  next
    case (give_up t c)
    with ref [of c] own show ?thesis by (auto simp: d word_unpin place_ok_def)
  next
    case (drop_victim t c e)
    with ref [of c] own show ?thesis by (auto simp: d word_unpin place_ok_def)
  next
    case (unpin c)
    with ref [of c] show ?thesis by (auto simp: d word_unpin)
  next
    case (other_bits w c)
    with word_other(1) [OF other_bits(3)] show ?thesis by (auto simp: d)
  qed (use own in \<open>auto simp: d bs word_unlock place_ok_def\<close>)
qed

lemma counts_step:
  assumes st: "map_step NB hf i s s'" and inv: "map_inv NB hf s" and NB: "NB < 2 ^ 18" and fr: "frame i s s'"
  shows "counts_ok NB s'"
proof -
  have i: "i < NB" using st by cases (auto intro: map_invD(1) [OF inv])
  have others: "at s' j = at s j" "pins s' j = pins s j" if "j \<noteq> i" for j using fr that by (auto simp: frame_def)
  have "card {j. pins s' j b \<noteq> 0} = count_after (pins s i b) (pins s' i b) (card {j. pins s j b \<noteq> 0})" for b
  proof -
    define A where "A = {j. pins s j b \<noteq> 0}"
    have A: "i \<in> A \<longleftrightarrow> pins s i b \<noteq> 0" "finite A" using refcount_pins(3) [OF inv NB] by (simp_all add: A_def)
    have "{j. pins s' j b \<noteq> 0} = (if pins s' i b = 0 then A - {i} else insert i A)"
      using others(2) by (auto simp: A_def split: if_splits) (metis gr0I)+
    then show ?thesis using A unfolding A_def [symmetric] by (auto simp: count_after_def insert_absorb)
  qed
  then have "unat (BUF_STATE_GET_REFCOUNT (words s' b)) = card {j. pins s' j b \<noteq> 0}" for b
    using count_word [OF st inv NB, of b] map_invD(3) [OF inv, of b] by simp
  moreover have "j < NB" if "at s' j \<noteq> Idle \<or> pins s' j b \<noteq> 0" for j b
    using that i others [of j] map_invD(1,2) [OF inv] by (cases "j = i") auto
  ultimately show ?thesis by (auto simp: counts_ok_def)
qed

section \<open>Tags and the table\<close>

lemma settled_before:
  assumes st: "map_step NB hf i s s'" and inv: "map_inv NB hf s" and fr: "frame i s s'" and b: "settled s' b"
  shows "settled s b \<and> btags s' b = btags s b \<or> at s i = NewTag (btags s' b) b \<and> mapping s' = mapping s"
proof -
  have own: "place_ok s i" using inv by (simp add: map_inv_def)
  have others: "at s' j = at s j" if "j \<noteq> i" for j using fr that by (simp add: frame_def)
  have bit: "bit (words s' b) 25" and cl: "clearing (at s' i) \<noteq> Some b" using b by (auto simp: settled_def)
  have "bit (words s b) 25 \<and> clearing (at s i) \<noteq> Some b \<and> btags s' b = btags s b \<or>
      at s i = NewTag (btags s' b) b \<and> mapping s' = mapping s"
  proof (cases "hdrlock (at s i) = Some b")
    case False
    then show ?thesis using fr bit place_facts(5) [of "at s i" b] unfolding frame_def by blast
  next
    case True
    from st show ?thesis
      by cases (use True bit cl own in \<open>auto simp: step_defs place_ok_def word_lock word_unlock word_clear split: if_splits\<close>)
  qed
  moreover have "clearing (at s j) \<noteq> Some b" if "clearing (at s i) \<noteq> Some b" for j
    using that b others [of j] unfolding settled_def by metis
  ultimately show ?thesis by (auto simp: settled_def)
qed

lemma settled_after:
  assumes st: "map_step NB hf i s s'" and inv: "map_inv NB hf s" and fr: "frame i s s'" and b: "settled s b"
  shows "settled s' b \<and> btags s' b = btags s b \<or> entry (at s' i) = Some (btags s b, b)"
proof -
  have own: "place_ok s i" using inv by (simp add: map_inv_def)
  have others: "clearing (at s' j) \<noteq> Some b" if "j \<noteq> i" for j using fr that b by (simp add: frame_def settled_def)
  have bit: "bit (words s b) 25" and cl: "clearing (at s i) \<noteq> Some b" using b by (auto simp: settled_def)
  have "bit (words s' b) 25 \<and> clearing (at s' i) \<noteq> Some b \<and> btags s' b = btags s b \<or> entry (at s' i) = Some (btags s b, b)"
  proof (cases "hdrlock (at s i) = Some b")
    case False
    have "clearing (at s' i) \<noteq> Some b" using st by cases (use False cl in \<open>auto simp: step_defs split: if_splits\<close>)
    then show ?thesis using False fr bit unfolding frame_def by blast
  next
    case True
    from st show ?thesis
      by cases (use True bit cl own in \<open>auto simp: step_defs place_ok_def word_lock word_unlock word_clear split: if_splits\<close>)
  qed
  then show ?thesis using others by (auto simp: settled_def) metis
qed

lemma entry_after:
  assumes st: "map_step NB hf i s s'" and inv: "map_inv NB hf s" and fr: "frame i s s'" and e: "entry (at s i) = Some (t, b)"
  shows "entry (at s' i) = Some (t, b) \<or> mapping s' t = None \<or> settled s' b \<and> btags s' b = t"
proof (cases "entry (at s' i) = Some (t, b) \<or> mapping s' t = None")
  case False
  have own: "place_ok s i" using inv by (simp add: map_inv_def)
  from st have at: "at s i = NewTag t b \<and> bit (words s' b) 25 \<and> btags s' b = t \<and> clearing (at s' i) = None"
    by cases (use False e own in \<open>auto simp: step_defs place_ok_def word_insert split: if_splits\<close>)
  then have "clearing (at s' j) \<noteq> Some b" for j
    using fr map_invD(6) [OF inv, of i b j] place_facts(5) [of "at s j" b] by (cases "j = i") (auto simp: frame_def)
  then show ?thesis using at by (simp add: settled_def)
qed auto

lemma mapping_after:
  assumes st: "map_step NB hf i s s'" and inv: "map_inv NB hf s"
  shows "mapping s' t = mapping s t \<or>
    mapping s' t = None \<and> (\<exists>b. mapping s t = Some b \<and> \<not> (settled s b \<and> btags s b = t)) \<or>
    mapping s t = None \<and> (\<exists>b. mapping s' t = Some b \<and> entry (at s' i) = Some (t, b))"
proof -
  have own: "place_ok s i" using inv by (simp add: map_inv_def)
  have out: "outlived (at s i) = Some (b, u) \<Longrightarrow> \<not> (settled s b \<and> btags s b = u)" for b u using map_invD(14) [OF inv] .
  from st show ?thesis
  proof cases
    case (old_delete t' b u)
    with own show ?thesis by (auto simp: step_defs place_ok_def settled_def)
  next
    case (drop_delete b u v)
    with own out [of b u] show ?thesis by (auto simp: step_defs place_ok_def)
  qed (auto simp: step_defs)
qed

lemma given_settled:
  assumes inv: "map_inv NB hf s" and g: "given s i b = Some t"
  shows "settled s b" "btags s b = t"
proof -
  note p = map_invD(18) [OF inv g]
  have "clearing (at s j) \<noteq> Some b" for j
    using pinned_not_clearing(1) [OF inv, of i b j] p g place_facts(5,6) [of "at s j" b] map_invD(8) [OF inv, of j b]
      map_invD(10) [OF inv, of j b i] by auto
  then show "settled s b" "btags s b = t" using p by (auto simp: settled_def)
qed

lemma given_after:
  assumes st: "map_step NB hf i s s'" and inv: "map_inv NB hf s" and NB: "NB < 2 ^ 18" and fr: "frame i s s'"
    and g: "given s' k b = Some t"
  shows "pins s' k b \<noteq> 0 \<and> bit (words s' b) 25 \<and> btags s' b = t"
proof -
  have own: "place_ok s i" using inv by (simp add: map_inv_def)
  have kept: "bit (words s' b) 25 \<and> btags s' b = t" if "given s k b = Some t"
  proof -
    note p = map_invD(18) [OF inv that]
    have "\<not> (hdrlock (at s i) = Some b \<and> (sole (at s i) = Some b \<or> nobody (at s i) = Some b))"
      using p that pinned_not_clearing(2) [OF inv, of k b i] place_facts(6) [of "at s i" b] map_invD(8) [OF inv, of i b]
        map_invD(10) [OF inv, of i b k] by auto
    then show ?thesis using fr p unfolding frame_def by blast
  qed
  show ?thesis
  proof (cases "given s k b = Some t")
    case True
    have "pins s' k b \<noteq> 0"
    proof (cases "k = i")
      case True
      with \<open>given s k b = Some t\<close> map_invD(18) [OF inv \<open>given s k b = Some t\<close>] have p: "given s i b = Some t" "pins s i b \<noteq> 0" by auto
      from st have "pins s' i b \<noteq> 0"
        by cases (use p g True own in \<open>auto simp: step_defs place_ok_def split: if_splits\<close>)
      with True show ?thesis by simp
    qed (use map_invD(18) [OF inv True] fr in \<open>auto simp: frame_def\<close>)
    with kept True show ?thesis by blast
  next
    case False
    with fr g have k: "k = i" by (auto simp: frame_def)
    from st show ?thesis
    proof cases
      case (pin_found u c d)
      then have c: "entry_seen (at s i) = Some (u, c)" "entry (at s i) = None" by simp_all
      show ?thesis using entry_settled [OF inv c] pin_found g False k refcount_pins(1) [OF inv NB, of i c] map_invD(1) [OF inv, of i]
        by (auto simp: step_defs settled_def word_pin split: if_splits)
    next
      case (pin_other u c d)
      then have c: "entry_seen (at s i) = Some (u, c)" "entry (at s i) = None" by simp_all
      show ?thesis using entry_settled [OF inv c] pin_other g False k refcount_pins(1) [OF inv NB, of i c] map_invD(1) [OF inv, of i]
        by (auto simp: step_defs settled_def word_pin split: if_splits)
    qed (use g False k own in \<open>auto simp: step_defs place_ok_def word_insert split: if_splits\<close>)
  qed
qed

lemma table_step:
  assumes st: "map_step NB hf i s s'" and inv: "map_inv NB hf s" and NB: "NB < 2 ^ 18" and fr: "frame i s s'"
  shows "table_ok s'"
proof -
  have own: "place_ok s i" using inv by (simp add: map_inv_def)
  have others: "at s' j = at s j" if "j \<noteq> i" for j using fr that by (simp add: frame_def)
  show ?thesis unfolding table_ok_def
  proof (intro conjI allI impI)
    fix b assume b: "settled s' b"
    show "mapping s' (btags s' b) = Some b"
    proof (cases "settled s b \<and> btags s' b = btags s b")
      case True
      with map_invD(16) [OF inv, of b] mapping_after [OF st inv, of "btags s b"] show ?thesis by auto
    next
      case False
      with settled_before [OF st inv fr b] own show ?thesis by (auto simp: place_ok_def)
    qed
  next
    fix t b assume m: "mapping s' t = Some b"
    show "settled s' b \<and> btags s' b = t \<or> (\<exists>j. entry (at s' j) = Some (t, b))"
    proof (cases "mapping s t = Some b")
      case True
      from map_invD(17) [OF inv this] consider "settled s b" "btags s b = t" | j where "entry (at s j) = Some (t, b)" by blast
      then show ?thesis
      proof cases
        case 1
        with settled_after [OF st inv fr, of b] show ?thesis by auto
      next
        case (2 j)
        show ?thesis
        proof (cases "j = i")
          case True
          with 2 entry_after [OF st inv fr, of t b] m show ?thesis by auto
        next
          case False
          with 2 others [of j] have "entry (at s' j) = Some (t, b)" by simp
          then show ?thesis by blast
        qed
      qed
    qed (use mapping_after [OF st inv, of t] m in auto)
  next
    fix k b u assume o: "outlived (at s' k) = Some (b, u)"
    show "\<not> (settled s' b \<and> btags s' b = u)"
    proof (cases "outlived (at s k) = Some (b, u)")
      case True
      have "at s i \<noteq> NewTag u b" using map_invD(4) [OF inv, of i u k u] place_facts(9) [OF True] True by auto
      then show ?thesis using settled_before [OF st inv fr, of b] map_invD(14) [OF inv True] by auto
    next
      case False
      with o others [of k] have k: "k = i" by metis
      from st have "\<not> bit (words s' b) 25" by cases (use o k False in \<open>auto simp: step_defs word_clear split: if_splits\<close>)
      then show ?thesis by (simp add: settled_def)
    qed
  next
    fix k b t assume "given s' k b = Some t"
    from given_after [OF st inv NB fr this]
    show "pins s' k b \<noteq> 0" "bit (words s' b) 25" "btags s' b = t" by auto
  qed
qed

lemma map_inv_step:
  assumes st: "map_step NB hf i s s'" and inv: "map_inv NB hf s" and NB: "NB < 2 ^ 18"
  shows "map_inv NB hf s'"
proof -
  note fr = frame_step [OF st inv NB]
  have "place_ok s' j" for j
    using place_own [OF st inv NB] place_others [OF inv NB fr] by (cases "j = i") auto
  then show ?thesis
    using counts_step [OF st inv NB fr] locks_step [OF st inv fr] hdrs_step [OF st inv fr] table_step [OF st inv NB fr]
    by (simp add: map_inv_def)
qed

lemma map_reachable_inv:
  assumes "map_reachable NB hf s" "NB < 2 ^ 18"
  shows "map_inv NB hf s"
  using assms
proof induction
  case (init s)
  then show ?case by (simp add: map_inv_defs settled_def BUF_STATE_GET_REFCOUNT_def)
qed (use map_inv_step in blast)

section \<open>Properties\<close>

text \<open>
  C5: a buffer keeps its block while it is pinned. Any number of backends run BufferAlloc (with
  GetVictimBuffer and InvalidateVictimBuffer), InvalidateBuffer, pins and unpins, in any interleaving
  of their accesses to header words, tags and lookup table. In every reachable state a backend that
  was given buffer b for block t and still pins it finds b tagged with t, and the table maps t to b;
  two backends that were given the same block have the same buffer; two tagged buffers whose headers
  are free have different tags; where nobody holds the partition lock of t exclusively, the table maps
  t exactly to the buffer tagged with t; the reference count of a header is the number of backends that
  pin the buffer. Also the assertions of BufferAlloc hold (the new buffer is pinned once and has no tag),
  and BufTableDelete finds its entry, so the table is never reported corrupted.
\<close>

theorem buffer_identity:
  assumes "map_reachable NB hf s" "NB < 2 ^ 18"
  shows "(\<forall>i b t. given s i b = Some t \<longrightarrow>
      pins s i b \<noteq> 0 \<and> tag_valid (words s b) \<and> btags s b = t \<and> mapping s t = Some b) \<and>
    (\<forall>i j b c t. given s i b = Some t \<longrightarrow> given s j c = Some t \<longrightarrow> b = c) \<and>
    (\<forall>b c. tag_valid (words s b) \<longrightarrow> \<not> hdr_locked (words s b) \<longrightarrow> tag_valid (words s c) \<longrightarrow>
      \<not> hdr_locked (words s c) \<longrightarrow> btags s b = btags s c \<longrightarrow> b = c) \<and>
    (\<forall>t b. free_for_shared hf s t \<longrightarrow> \<not> hdr_locked (words s b) \<longrightarrow>
      (mapping s t = Some b \<longleftrightarrow> tag_valid (words s b) \<and> btags s b = t)) \<and>
    (\<forall>b. unat (BUF_STATE_GET_REFCOUNT (words s b)) = card {i. pins s i b \<noteq> 0}) \<and>
    (\<forall>i t b w. at s i = NewHdr t b w \<longrightarrow> BUF_STATE_GET_REFCOUNT w = 1 \<and> \<not> tag_valid w) \<and>
    (\<forall>i t b u. at s i = OldGone t b u \<or> at s i = DropGone b u True \<longrightarrow> mapping s u = Some b)"
proof -
  have inv: "map_inv NB hf s" using map_reachable_inv assms by blast
  note t = map_invD(16) [OF inv]
  have free: "settled s b \<longleftrightarrow> bit (words s b) 25" if "\<not> hdr_locked (words s b)" for b
    using that map_invD(5) [OF inv, of _ b] place_facts(5) by (auto simp: settled_def)
  have look: "mapping s t = Some b \<longleftrightarrow> settled s b \<and> btags s b = t" if "free_for_shared hf s t" for t b
    using that map_invD(17) [OF inv, of t b] t [of b] place_facts(4) unfolding free_for_shared_def by metis
  have entry: "mapping s u = Some b" if "at s i = OldGone t b u \<or> at s i = DropGone b u True" for i t b u
    using that map_invD(13) [OF inv, of i u b] by auto
  have given: "settled s b \<and> btags s b = t \<and> mapping s t = Some b" if "given s i b = Some t" for i b t
    using given_settled [OF inv that] t [of b] by auto
  show ?thesis
  proof (intro conjI allI impI)
    fix i b t assume g: "given s i b = Some t"
    show "pins s i b \<noteq> 0" "tag_valid (words s b)" "btags s b = t" "mapping s t = Some b"
      using map_invD(18) [OF inv g] given [OF g] by simp_all
  next
    fix i t b w assume "at s i = NewHdr t b w"
    from map_invD(15) [OF inv this] show "BUF_STATE_GET_REFCOUNT w = 1" "\<not> tag_valid w" by simp_all
  next
    fix i j b c t assume "given s i b = Some t" "given s j c = Some t"
    then show "b = c" using given [of i b t] given [of j c t] by simp
  next
    fix b c assume *: "tag_valid (words s b)" "\<not> hdr_locked (words s b)" "tag_valid (words s c)" "\<not> hdr_locked (words s c)"
      "btags s b = btags s c"
    have "mapping s (btags s b) = Some b" using t free *(1,2) by simp
    moreover have "mapping s (btags s c) = Some c" using t free *(3,4) by simp
    ultimately show "b = c" using *(5) by (metis option.inject)
  next
    fix t b assume "free_for_shared hf s t" "\<not> hdr_locked (words s b)"
    then show "mapping s t = Some b \<longleftrightarrow> tag_valid (words s b) \<and> btags s b = t" using look free by simp
  qed (use map_invD(3) [OF inv] entry in blast)+
qed

text \<open>
  Two backends and an empty pool: backend 0 reads the block into buffer 0 and returns, then backend 1
  finds it there and pins it.
\<close>

definition example_tag :: BufferTag where
  "example_tag = \<lparr>spcOid = 1663, dbOid = 5, relNumber = 16384, forkNum = 0, blockNum = 7\<rparr>"

definition example_word :: uint64 where
  "example_word = unlock_bits (insert_bits True) 0 0 (BUF_REFCOUNT_ONE OR BM_LOCKED)"

definition example_empty :: map_sys where
  "example_empty = \<lparr>words = \<lambda>_. 0, btags = \<lambda>_. ClearBufferTag example_tag, mapping = Map.empty, at = \<lambda>_. Idle,
     pins = \<lambda>_ _. 0, given = \<lambda>_ _. None\<rparr>"

definition example_read :: "alloc_pc \<Rightarrow> map_sys" where
  "example_read c = example_empty
     \<lparr>words := (\<lambda>_. 0)(0 := example_word), btags := (\<lambda>_. ClearBufferTag example_tag)(0 := example_tag),
      mapping := [example_tag \<mapsto> 0], at := (\<lambda>_. Idle)(0 := c), pins := (\<lambda>_ _. 0)(0 := (\<lambda>_. 0)(0 := 1)),
      given := (\<lambda>_ _. None)(0 := [0 \<mapsto> example_tag])\<rparr>"

definition example_shared :: map_sys where
  "example_shared = move 1 (Pinned example_tag False) (pin_for True 1 0 example_tag (example_read Idle))"

lemma example_insertion: "map_reachable 2 (\<lambda>_. 0) (example_read (Pinned example_tag True))"
proof -
  let ?t = example_tag and ?r = "map_reachable 2 (\<lambda>_. 0)"
  note d = step_defs example_empty_def BUF_STATE_GET_REFCOUNT_def free_for_exclusive_def free_for_shared_def
  let ?s = "\<lambda>w c. set_pins 0 0 1 None (set_word 0 w (move 0 c example_empty))"
  let ?m = "\<lambda>w c. (?s w c)\<lparr>mapping := [?t \<mapsto> 0]\<rparr>"
  have "?r example_empty" by (rule map_reachable.init) (simp_all add: example_empty_def)
  from map_reachable.step [OF this map_step.lookup [of 0 2 _ "\<lambda>_. 0" ?t]]
  have "?r (move 0 (Lookup ?t) example_empty)" by (simp add: d)
  from map_reachable.step [OF this map_step.missed [of _ 0 ?t]]
  have "?r (move 0 (Missed ?t) example_empty)" by (simp add: d)
  from map_reachable.step [OF this map_step.take_victim [of _ 0 ?t 0]]
  have "?r (?s BUF_REFCOUNT_ONE (Taken ?t 0 False))" by (simp add: d)
  from map_reachable.step [OF this map_step.no_tag [of _ 0 ?t 0]]
  have "?r (?s BUF_REFCOUNT_ONE (Clean ?t 0))" by (simp add: d)
  from map_reachable.step [OF this map_step.new_lock [of _ 0 ?t 0 "\<lambda>_. 0"]]
  have "?r (?s BUF_REFCOUNT_ONE (NewLocked ?t 0))" by (simp add: d)
  from map_reachable.step [OF this map_step.insert_tag [of _ 0 ?t 0]]
  have "?r (?m BUF_REFCOUNT_ONE (Inserted ?t 0))" by (simp add: d)
  moreover have "\<not> hdr_locked BUF_REFCOUNT_ONE" by (simp add: BUF_REFCOUNT_ONE_def bit_1_iff)
  ultimately have "?r (?m (BUF_REFCOUNT_ONE OR BM_LOCKED) (NewHdr ?t 0 BUF_REFCOUNT_ONE))"
    using map_reachable.step [OF _ map_step.new_hdr [of _ 0 ?t 0]] by (fastforce simp: d)
  from map_reachable.step [OF this map_step.new_tag [of _ 0 ?t 0]]
  have "?r ((?m (BUF_REFCOUNT_ONE OR BM_LOCKED) (NewTag ?t 0))\<lparr>btags := (\<lambda>_. ClearBufferTag ?t)(0 := ?t)\<rparr>)"
    by (simp add: d)
  from map_reachable.step [OF this map_step.new_unlock [of _ 0 ?t 0 _ _ True]]
  show ?thesis by (simp add: d example_read_def example_word_def)
qed

lemma example_shared_reachable: "map_reachable 2 (\<lambda>_. 0) example_shared"
proof -
  let ?t = example_tag and ?r = "map_reachable 2 (\<lambda>_. 0)"
  note d = move_def example_read_def example_empty_def free_for_shared_def
  have w: "\<not> hdr_locked example_word" by (simp add: example_word_def word_insert)
  from map_reachable.step [OF example_insertion map_step.return [of _ 0 ?t True]]
  have "?r (example_read Idle)" by (simp add: d)
  from map_reachable.step [OF this map_step.lookup [of 1 2 _ "\<lambda>_. 0" ?t]]
  have "?r (move 1 (Lookup ?t) (example_read Idle))" by (simp add: d)
  from map_reachable.step [OF this map_step.found [of _ 1 ?t 0]]
  have "?r (move 1 (Found ?t 0) (example_read Idle))" by (simp add: d)
  from map_reachable.step [OF this map_step.pin_found [of _ 1 ?t 0 _ _ True]] w
  show ?thesis by (simp add: example_shared_def d step_defs)
qed

theorem buffer_identity_witness:
  "map_reachable 2 (\<lambda>_. 0) example_shared \<and>
   given example_shared 0 0 = Some example_tag \<and> given example_shared 1 0 = Some example_tag \<and>
   tag_valid (words example_shared 0) \<and> mapping example_shared example_tag = Some 0 \<and>
   unat (BUF_STATE_GET_REFCOUNT (words example_shared 0)) = 2"
proof -
  have g: "given example_shared 0 0 = Some example_tag" "given example_shared 1 0 = Some example_tag"
    "{i. pins example_shared i 0 \<noteq> 0} = {0, 1}"
    by (auto simp: example_shared_def example_read_def example_empty_def step_defs)
  have "(2 :: nat) < 2 ^ 18" by simp
  from buffer_identity [OF example_shared_reachable this] g show ?thesis using example_shared_reachable by simp
qed

end
